(* ===== verification/Prelude.thy ===== *)
theory Prelude
  imports Main "HOL-Library.Word"
begin

text \<open>
  Shared vocabulary of the development.

  \<^item> the C types the sources use: \<open>char\<close> buffers are lists of \<open>byte\<close>, \<open>size_t\<close> is a
    64-bit word, \<open>int\<close> fields that travel through \<open>memcpy\<close> are 32-bit words;
  \<^item> arrays of fixed capacity as functions from indices, with the two operations the
    code performs on them (store a run of bytes at an offset, load a run);
  \<^item> the four-byte little-endian image of a 32-bit integer, which is what
    \<open>memcpy(buf, &x, sizeof(int))\<close> leaves in a buffer on the hosts the program targets;
  \<^item> decimal printing (\<open>std::to_string\<close>, \<open>%d\<close>), with the reading back that shows it injective;
  \<^item> the outcome of a C++ function that may return, call \<open>exit\<close>, or run into a fault;
  \<^item> blocks of memory that can be released, and simulations between step relations.
\<close>

unbundle bit_operations_syntax

named_theorems mem_simps \<open>loads and stores of array runs\<close>

section \<open>C types\<close>

type_synonym byte = "8 word"
type_synonym size_t = "64 word"
type_synonym int32 = "32 word"
type_synonym u32 = "32 word"

text \<open>The largest value of an \<open>int\<close>; counters that are never negative are kept as \<open>nat\<close>.\<close>

definition INT_MAX :: nat where "INT_MAX = 2147483647"

abbreviation chars :: "string \<Rightarrow> byte list" where
  "chars s \<equiv> map (\<lambda>c. of_nat (of_char c)) s"

section \<open>Arrays\<close>

definition store :: "(nat \<Rightarrow> 'a) \<Rightarrow> nat \<Rightarrow> 'a list \<Rightarrow> (nat \<Rightarrow> 'a)" where
  "store a off bs = (\<lambda>i. if off \<le> i \<and> i < off + length bs then bs ! (i - off) else a i)"

definition load :: "(nat \<Rightarrow> 'a) \<Rightarrow> nat \<Rightarrow> nat \<Rightarrow> 'a list" where
  "load a off n = map a [off..<off + n]"

lemma length_load [simp, mem_simps]: "length (load a off n) = n"
  by (simp add: load_def)

lemma load_0 [simp, mem_simps]: "load a off 0 = []"
  by (simp add: load_def)

lemma load_4: "load a off 4 = [a off, a (off + 1), a (off + 2), a (off + 3)]"
  by (simp add: load_def eval_nat_numeral)

lemma load_store_same [simp, mem_simps]: "load (store a off bs) off (length bs) = bs"
  by (rule nth_equalityI) (auto simp: load_def store_def)

lemma load_split: "load a off (m + n) = load a off m @ load a (off + m) n"
  unfolding load_def by (metis add.assoc map_append upt_add_eq_append le_add1)

lemma load_store_below [mem_simps]: "off' + n \<le> off \<Longrightarrow> load (store a off bs) off' n = load a off' n"
  by (auto simp: load_def store_def)

text \<open>Extending a filled prefix by one more run: the shape of every incremental read.\<close>

lemma load_extend [mem_simps]:
  "load (store a p bs) 0 (p + length bs) = load a 0 p @ bs"
  using load_store_same [of a p bs]
  by (simp add: load_split [of _ 0 p] load_store_below)

lemma take_load [mem_simps]: "take m (load a off n) = load a off (min m n)"
  by (simp add: load_def take_map min_def)

lemma drop_load [mem_simps]: "drop m (load a off n) = load a (off + m) (n - m)"
  by (cases "m \<le> n") (simp_all add: load_def drop_map)

section \<open>Little-endian images of 32-bit integers\<close>

definition bytes_of_word32 :: "32 word \<Rightarrow> byte list" where
  "bytes_of_word32 x = [ucast x, ucast (drop_bit 8 x), ucast (drop_bit 16 x), ucast (drop_bit 24 x)]"

definition word32_of_bytes :: "byte list \<Rightarrow> 32 word" where
  "word32_of_bytes bs = foldr (\<lambda>b acc. ucast b OR push_bit 8 acc) bs 0"

lemma length_bytes_of_word32 [simp]: "length (bytes_of_word32 x) = 4"
  by (simp add: bytes_of_word32_def)

lemma word32_of_bytes_inverse [simp]: "word32_of_bytes (bytes_of_word32 x) = x"
proof (rule bit_word_eqI)
  fix n assume "n < LENGTH(32)"
  then have "n < 8 \<or> (8 \<le> n \<and> n < 16) \<or> (16 \<le> n \<and> n < 24) \<or> (24 \<le> n \<and> n < 32)"
    by auto
  then show "bit (word32_of_bytes (bytes_of_word32 x)) n \<longleftrightarrow> bit x n"
    by (elim disjE) (auto simp: bytes_of_word32_def word32_of_bytes_def bit_simps)
qed

lemma bytes_of_word32_inverse:
  assumes "length bs = 4"
  shows "bytes_of_word32 (word32_of_bytes bs) = bs"
proof -
  obtain a b c d where bs: "bs = [a, b, c, d]"
    using assms by (auto simp: length_Suc_conv eval_nat_numeral)
  show ?thesis
    unfolding bs bytes_of_word32_def word32_of_bytes_def list.inject
    by (intro conjI refl; rule bit_word_eqI; auto simp: bit_simps dest: bit_imp_le_length)
qed

section \<open>Signed and unsigned readings\<close>

lemma sint32_bounds: "- (2 ^ 31) \<le> sint (r :: 32 word)" "sint (r :: 32 word) < 2 ^ 31"
  using sint_greater_eq [of r] sint_less [of r] by auto

lemma word32_of_nonneg: "0 \<le> sint (r :: 32 word) \<Longrightarrow> of_nat (nat (sint r)) = r"
  by simp

lemma uint_scast64: "uint (scast r :: 64 word) = sint (r :: 32 word) mod 2 ^ LENGTH(64)"
proof -
  have "scast r = (word_of_int (sint r) :: 64 word)" by simp
  moreover have "uint (word_of_int (sint r) :: 64 word) = sint r mod 2 ^ LENGTH(64)"
    by (rule uint_word_of_int)
  ultimately show ?thesis by metis
qed

lemma unat_scast_nonneg: 
  assumes "0 \<le> sint (r :: 32 word)" shows "unat (scast r :: 64 word) = nat (sint r)"
proof -
  have "sint r mod 2 ^ LENGTH(64) = sint r"
    using assms sint32_bounds [of r] by (intro mod_pos_pos_trivial) auto
  then have "uint (word_of_int (sint r) :: 64 word) = sint r" 
    by (simp only: uint_word_of_int)
  then show ?thesis by (simp add: unat_eq_nat_uint)
qed

section \<open>Decimal numbers\<close>

text \<open>\<open>std::to_string\<close> on a non-negative integer.\<close>

fun to_string :: "nat \<Rightarrow> string" where
  "to_string n = (if n < 10 then [char_of (48 + n)] else to_string (n div 10) @ [char_of (48 + n mod 10)])"

declare to_string.simps [simp del]

definition digit :: "char \<Rightarrow> bool" where
  "digit c \<longleftrightarrow> 48 \<le> (of_char c :: nat) \<and> (of_char c :: nat) < 58"

lemma of_char_digit: "n < 10 \<Longrightarrow> (of_char (char_of (48 + n) :: char) :: nat) = 48 + n"
  by simp

lemma to_string_digits: "\<forall>c \<in> set (to_string n). digit c"
proof (induction n rule: to_string.induct)
  case (1 n)
  show ?case
  proof (cases "n < 10")
    case True
    then show ?thesis by (subst to_string.simps) (simp add: digit_def)
  next
    case False
    then show ?thesis
      using 1 by (subst to_string.simps) (auto simp: digit_def)
  qed
qed

text \<open>Reading the digits back.\<close>

definition digits_value :: "string \<Rightarrow> nat" where
  "digits_value cs = foldl (\<lambda>v c. 10 * v + (of_char c - 48)) 0 cs"

lemma digits_value_to_string [simp]: "digits_value (to_string n) = n"
proof (induction n rule: to_string.induct)
  case (1 n)
  show ?case
  proof (cases "n < 10")
    case True
    then show ?thesis by (subst to_string.simps) (simp add: digits_value_def)
  next
    case False
    then show ?thesis
      using 1 by (subst to_string.simps) (simp add: digits_value_def)
  qed
qed

lemma digits_split:
  assumes "to_string m @ d # r = to_string n @ d # r'" and "\<not> digit d"
  shows "m = n \<and> r = r'"
proof -
  have *: "takeWhile digit (to_string i @ d # q) = to_string i" for i q
    using to_string_digits [of i] assms(2) by (simp add: takeWhile_append2)
  from assms(1) have "to_string m = to_string n" by (metis *)
  with assms(1) show ?thesis by (metis append_same_eq digits_value_to_string list.inject same_append_eq)
qed

lemma to_string_inject: "to_string m = to_string n \<Longrightarrow> m = n"
  by (metis digits_value_to_string)

lemma separators_not_digit [simp]: "\<not> digit CHR ''.''" "\<not> digit CHR '':''"
  by (simp_all add: digit_def)

section \<open>Lines\<close>

text \<open>The next line of a byte sequence, cut after at most \<open>m\<close> bytes.\<close>

fun next_line :: "nat \<Rightarrow> byte list \<Rightarrow> byte list" where
  "next_line 0 xs = []"
| "next_line (Suc m) [] = []"
| "next_line (Suc m) (x # xs) = x # (if x = 10 then [] else next_line m xs)"

lemma next_line_Nil [simp]: "next_line m [] = []"
  by (cases m) simp_all

lemma next_line_prefix: "\<exists>ys. xs = next_line m xs @ ys"
  by (induction m xs rule: next_line.induct) auto

lemma length_next_line: "length (next_line m xs) \<le> m"
  by (induction m xs rule: next_line.induct) auto

lemma next_line_newline: "10 \<notin> set (butlast (next_line m xs))"
  by (induction m xs rule: next_line.induct) auto

section \<open>Counting in lists\<close>

text \<open>How many elements satisfy a predicate, and what an update by index does to that.\<close>

definition tally :: "('a \<Rightarrow> bool) \<Rightarrow> 'a list \<Rightarrow> nat" where
  "tally Q xs = length (filter Q xs)"

lemma tally_update:
  assumes "i < length xs"
  shows "tally Q (xs[i := y]) + of_bool (Q (xs ! i)) = tally Q xs + of_bool (Q y)"
proof -
  obtain a x b where "xs = a @ x # b" and "length a = i"
    using id_take_nth_drop [OF assms] assms by (metis length_take min.absorb4)
  then show ?thesis by (auto simp: tally_def list_update_append)
qed

lemma tally_pos: "i < length xs \<Longrightarrow> Q (xs ! i) \<Longrightarrow> 0 < tally Q xs"
  by (auto simp: tally_def filter_empty_conv intro: nth_mem)

lemma tally_le1:
  assumes "tally Q xs \<le> 1" and "i < length xs" and "j < length xs" and "Q (xs ! i)" and "Q (xs ! j)"
  shows "i = j"
proof (rule ccontr)
  assume "i \<noteq> j"
  then have "card {i, j} = 2" by simp
  moreover have "card {i, j} \<le> card {m. m < length xs \<and> Q (xs ! m)}"
    using assms by (intro card_mono) auto
  ultimately show False using assms(1) by (simp add: tally_def length_filter_conv_card)
qed

section \<open>Outcomes\<close>

datatype fault =
    BufferOverflow   \<comment> \<open>a store past the end of an array\<close>
  | LengthError      \<comment> \<open>\<open>std::length_error\<close> from a string constructor\<close>
  | AssertFailed     \<comment> \<open>a failing \<open>assert\<close>\<close>
  | SignedOverflow   \<comment> \<open>an \<open>int\<close> incremented past its largest value\<close>
  | OverRead         \<comment> \<open>a load past the end of an array, or through a null pointer\<close>
  | NoReturnValue    \<comment> \<open>control falls off the end of a value-returning function\<close>
  | UseAfterFree     \<comment> \<open>an access to memory that has been released, or releasing it again\<close>

datatype 'a outcome = Ret 'a | Exit int | Fault fault

lemma map_outcome_Ret: "map_outcome f m = Ret y \<longleftrightarrow> (\<exists>x. m = Ret x \<and> y = f x)"
  by (cases m) auto

text \<open>
  A computation that may also run forever (\<open>None\<close>), and its sequencing: \<open>exit\<close> and faults
  end the program.
\<close>

type_synonym 'a run = "'a outcome option"

fun run_bind :: "'a run \<Rightarrow> ('a \<Rightarrow> 'b run) \<Rightarrow> 'b run" where
  "run_bind None f = None"
| "run_bind (Some (Ret x)) f = f x"
| "run_bind (Some (Exit n)) f = Some (Exit n)"
| "run_bind (Some (Fault e)) f = Some (Fault e)"

lemma run_bind_Ret [simp]:
  "run_bind m f = Some (Ret y) \<longleftrightarrow> (\<exists>x. m = Some (Ret x) \<and> f x = Some (Ret y))"
  by (cases "(m, f)" rule: run_bind.cases) auto

lemma run_bind_Exit:
  "run_bind m f = Some (Exit n) \<longleftrightarrow> m = Some (Exit n) \<or> (\<exists>x. m = Some (Ret x) \<and> f x = Some (Exit n))"
  by (cases "(m, f)" rule: run_bind.cases) auto

lemma run_bind_Fault:
  "run_bind m f = Some (Fault e) \<longleftrightarrow> m = Some (Fault e) \<or> (\<exists>x. m = Some (Ret x) \<and> f x = Some (Fault e))"
  by (cases "(m, f)" rule: run_bind.cases) auto

lemma run_bind_None [simp]:
  "run_bind m f = None \<longleftrightarrow> m = None \<or> (\<exists>x. m = Some (Ret x) \<and> f x = None)"
  by (cases "(m, f)" rule: run_bind.cases) auto

text \<open>A block of memory from the heap: in use with its content, or given back.\<close>

datatype 'a cell = Live 'a | Freed

primrec cell_load :: "'a cell \<Rightarrow> 'a outcome" where
  "cell_load (Live x) = Ret x"
| "cell_load Freed = Fault UseAfterFree"

primrec cell_free :: "'a cell \<Rightarrow> 'a cell outcome" where
  "cell_free (Live x) = Ret Freed"
| "cell_free Freed = Fault UseAfterFree"

section \<open>Simulations\<close>

text \<open>
  A step relation that implements another one through an abstraction function: under an
  invariant every step of the implementation is a step of the specification or leaves the
  abstract state unchanged.
\<close>

locale simulation =
  fixes cstep :: "'c \<Rightarrow> 'c \<Rightarrow> bool" and astep :: "'a \<Rightarrow> 'a \<Rightarrow> bool"
    and abs :: "'c \<Rightarrow> 'a" and inv :: "'c \<Rightarrow> bool"
  assumes inv_step: "inv c \<Longrightarrow> cstep c c' \<Longrightarrow> inv c'"
    and sim_step: "inv c \<Longrightarrow> cstep c c' \<Longrightarrow> astep\<^sup>=\<^sup>= (abs c) (abs c')"
begin

lemma sim_run:
  assumes "cstep\<^sup>*\<^sup>* c c'" and "inv c"
  shows "inv c' \<and> astep\<^sup>*\<^sup>* (abs c) (abs c')"
  using assms
proof (induction rule: rtranclp_induct)
  case (step c1 c2)
  then have "astep\<^sup>=\<^sup>= (abs c1) (abs c2)" "inv c2" using sim_step inv_step by blast+
  with step show ?case by auto
qed simp

end

end
