(* ===== verification/Kernel.thy ===== *)
theory Kernel
  imports Prelude
begin

text \<open>
  The operating system below the program.  None of it is source of the repository, so it
  is a parameter: a record \<open>'w kernel\<close> of system calls over an unspecified world \<open>'w\<close>,
  which every definition that performs a call takes as its first argument.  A world value
  may hold anything (socket queues, other processes, a schedule of interruptions), so one
  deterministic function per call covers every behaviour of a real kernel.

  A call yields \<open>Ok\<close> with what it returned or \<open>Fail\<close> with an error number.  The
  wrapper \<open>syscall\<close> adds what the C library adds: the process-wide \<open>errno\<close>, written on
  failure only and otherwise left as it was, so that code which reads a stale \<open>errno\<close>
  reads it here too.

  The locales state the documented laws of the calls (bytes of a stream are delivered in
  order and never invented, a call transfers at most what was asked).  What a theorem
  relies on is one of these locale predicates as its hypothesis.
\<close>

section \<open>Error numbers and results\<close>

datatype errno = EINTR | EAGAIN | EOTHER nat

abbreviation ECHILD :: errno where "ECHILD \<equiv> EOTHER 10"

datatype 'a sysres = Ok 'a | Fail errno

record 'w proc =
  errno :: errno
  world :: 'w

definition syscall :: "('w \<Rightarrow> 'a sysres \<times> 'w) \<Rightarrow> 'w proc \<Rightarrow> 'a option \<times> 'w proc" where
  "syscall f s = (case f (world s) of
     (Ok x, w) \<Rightarrow> (Some x, s\<lparr>world := w\<rparr>)
   | (Fail e, w) \<Rightarrow> (None, s\<lparr>errno := e, world := w\<rparr>))"

lemma syscall_SomeD:
  "syscall f s = (Some x, s') \<Longrightarrow> f (world s) = (Ok x, world s') \<and> errno s' = errno s"
  by (auto simp: syscall_def split: prod.splits sysres.splits)

lemma syscall_NoneD:
  "syscall f s = (None, s') \<Longrightarrow> f (world s) = (Fail (errno s'), world s')"
  by (auto simp: syscall_def split: prod.splits sysres.splits)

section \<open>The system calls the program makes\<close>

datatype epoll_op = EPOLL_CTL_ADD | EPOLL_CTL_MOD | EPOLL_CTL_DEL

datatype domain = AF_INET | AF_UNIX

datatype sockaddr =
    SockIn (sin_port: "16 word") (sin_addr: "32 word")
  | SockUn (sun_path: string)

record stat =
  st_mode :: u32
  st_uid :: nat
  st_atime :: int
  st_mtime :: int
  st_ctime :: int

text \<open>
  Arguments keep the order of the C prototypes.  \<open>k_sendmsg\<close> takes the bytes of the single
  \<open>iovec\<close> and the descriptor in the \<open>SCM_RIGHTS\<close> control message, if there is one;
  \<open>k_recvmsg\<close> takes the capacity of the \<open>iovec\<close> and \<open>msg_controllen\<close>, and returns the
  bytes and the descriptor installed by a control message, if one arrived.
  \<open>k_fork\<close> returns zero in the child: the world is the one the calling process sees.
  \<open>k_execve\<close> succeeds by replacing the program.
  \<open>k_waitpid\<close> takes the process to wait for and whether \<open>WNOHANG\<close> is given; \<open>k_select\<close>
  takes and returns the read set.  \<open>k_fgets\<close> and \<open>k_feof\<close> are the standard input stream of
  the C library: the bytes stored before the terminating zero, or \<open>None\<close> for \<open>NULL\<close>.
  \<open>k_malloc\<close> says whether an allocation succeeds now.
  \<open>k_uninit\<close> is not a call: it is the content of memory the program never wrote.
\<close>

record 'w kernel =
  k_read :: "int \<Rightarrow> nat \<Rightarrow> 'w \<Rightarrow> byte list sysres \<times> 'w"
  k_write :: "int \<Rightarrow> byte list \<Rightarrow> 'w \<Rightarrow> nat sysres \<times> 'w"
  k_close :: "int \<Rightarrow> 'w \<Rightarrow> unit sysres \<times> 'w"
  k_sendmsg :: "int \<Rightarrow> byte list \<Rightarrow> int option \<Rightarrow> 'w \<Rightarrow> nat sysres \<times> 'w"
  k_recvmsg :: "int \<Rightarrow> nat \<Rightarrow> nat \<Rightarrow> 'w \<Rightarrow> (byte list \<times> int option) sysres \<times> 'w"
  k_epoll_create :: "'w \<Rightarrow> int sysres \<times> 'w"
  k_epoll_ctl :: "int \<Rightarrow> epoll_op \<Rightarrow> int \<Rightarrow> u32 \<Rightarrow> 'w \<Rightarrow> unit sysres \<times> 'w"
  k_epoll_wait :: "int \<Rightarrow> nat \<Rightarrow> int \<Rightarrow> 'w \<Rightarrow> (u32 \<times> int) list sysres \<times> 'w"
  k_fcntl_getfd :: "int \<Rightarrow> 'w \<Rightarrow> u32 sysres \<times> 'w"
  k_fcntl_setfl :: "int \<Rightarrow> u32 \<Rightarrow> 'w \<Rightarrow> unit sysres \<times> 'w"
  k_socket :: "domain \<Rightarrow> 'w \<Rightarrow> int sysres \<times> 'w"
  k_setsockopt_reuseaddr :: "int \<Rightarrow> 'w \<Rightarrow> unit sysres \<times> 'w"
  k_bind :: "int \<Rightarrow> sockaddr \<Rightarrow> 'w \<Rightarrow> unit sysres \<times> 'w"
  k_listen :: "int \<Rightarrow> nat \<Rightarrow> 'w \<Rightarrow> unit sysres \<times> 'w"
  k_accept :: "int \<Rightarrow> 'w \<Rightarrow> (int \<times> sockaddr) sysres \<times> 'w"
  k_connect :: "int \<Rightarrow> sockaddr \<Rightarrow> 'w \<Rightarrow> unit sysres \<times> 'w"
  k_gethostbyname :: "string \<Rightarrow> 'w \<Rightarrow> (32 word) sysres \<times> 'w"
  k_unlink :: "string \<Rightarrow> 'w \<Rightarrow> unit sysres \<times> 'w"
  k_stat :: "string \<Rightarrow> 'w \<Rightarrow> stat sysres \<times> 'w"
  k_chmod :: "string \<Rightarrow> u32 \<Rightarrow> 'w \<Rightarrow> unit sysres \<times> 'w"
  k_signal_ignore :: "nat \<Rightarrow> 'w \<Rightarrow> unit sysres \<times> 'w"
  k_access :: "string \<Rightarrow> 'w \<Rightarrow> unit sysres \<times> 'w"
  k_fork :: "'w \<Rightarrow> int sysres \<times> 'w"
  k_execve :: "byte list \<Rightarrow> byte list list \<Rightarrow> 'w \<Rightarrow> unit sysres \<times> 'w"
  k_waitpid :: "int \<Rightarrow> bool \<Rightarrow> 'w \<Rightarrow> int sysres \<times> 'w"
  k_select :: "int \<Rightarrow> int set \<Rightarrow> 'w \<Rightarrow> (int \<times> int set) sysres \<times> 'w"
  k_fgets :: "nat \<Rightarrow> 'w \<Rightarrow> byte list option \<times> 'w"
  k_feof :: "'w \<Rightarrow> bool"
  k_time :: "'w \<Rightarrow> int"
  k_getpid :: "'w \<Rightarrow> nat"
  k_malloc :: "'w \<Rightarrow> bool"
  k_uninit :: "nat \<Rightarrow> 'w \<Rightarrow> byte list"

abbreviation sys_read :: "'w kernel \<Rightarrow> int \<Rightarrow> nat \<Rightarrow> 'w proc \<Rightarrow> byte list option \<times> 'w proc" where
  "sys_read k fd n \<equiv> syscall (k_read k fd n)"

abbreviation sys_write :: "'w kernel \<Rightarrow> int \<Rightarrow> byte list \<Rightarrow> 'w proc \<Rightarrow> nat option \<times> 'w proc" where
  "sys_write k fd bs \<equiv> syscall (k_write k fd bs)"

abbreviation sys_close :: "'w kernel \<Rightarrow> int \<Rightarrow> 'w proc \<Rightarrow> unit option \<times> 'w proc" where
  "sys_close k fd \<equiv> syscall (k_close k fd)"

section \<open>Laws of byte streams\<close>

text \<open>
  \<open>incoming fd w\<close> is the sequence of bytes that \<open>read\<close> will still deliver on \<open>fd\<close>, up to
  the end of the stream; \<open>patience w\<close> bounds how often the kernel still answers with a
  transient error (\<open>EINTR\<close>, \<open>EAGAIN\<close>) before it makes progress.
\<close>

locale read_kernel =
  fixes k :: "'w kernel"
    and incoming :: "int \<Rightarrow> 'w \<Rightarrow> byte list"
    and patience :: "'w \<Rightarrow> nat"
  assumes read_Ok: "k_read k fd n w = (Ok bs, w') \<Longrightarrow>
      length bs \<le> n \<and> incoming fd w = bs @ incoming fd w' \<and> patience w' \<le> patience w"
    and read_eof: "k_read k fd n w = (Ok [], w') \<Longrightarrow> 0 < n \<Longrightarrow> incoming fd w = []"
    and read_Fail: "k_read k fd n w = (Fail e, w') \<Longrightarrow>
      incoming fd w' = incoming fd w \<and> patience w' \<le> patience w"
    and read_transient: "k_read k fd n w = (Fail e, w') \<Longrightarrow> e = EINTR \<or> e = EAGAIN \<Longrightarrow>
      patience w' < patience w"
begin

lemma sys_read_Some:
  assumes "sys_read k fd n s = (Some bs, s')"
  shows "length bs \<le> n" and "incoming fd (world s) = bs @ incoming fd (world s')"
    and "patience (world s') \<le> patience (world s)"
    and "bs = [] \<Longrightarrow> 0 < n \<Longrightarrow> incoming fd (world s) = []"
  using syscall_SomeD [OF assms] read_Ok read_eof by blast+

lemma sys_read_None:
  assumes "sys_read k fd n s = (None, s')"
  shows "incoming fd (world s') = incoming fd (world s)"
    and "patience (world s') \<le> patience (world s)"
    and "errno s' = EINTR \<or> errno s' = EAGAIN \<Longrightarrow> patience (world s') < patience (world s)"
  using syscall_NoneD [OF assms] read_Fail read_transient by blast+

text \<open>Every read that transfers bytes or fails transiently uses up something finite.\<close>

lemma sys_read_energy:
  assumes "sys_read k fd n s = (r, s')"
  shows "patience (world s') + length (incoming fd (world s'))
       \<le> patience (world s) + length (incoming fd (world s))"
  using assms sys_read_Some(2,3) [of fd n s _ s'] sys_read_None(1,2) [of fd n s s']
  by (cases r) (auto simp: add_mono)

lemma sys_read_energy_Some:
  assumes "sys_read k fd n s = (Some bs, s')" and "bs \<noteq> []"
  shows "patience (world s') + length (incoming fd (world s'))
       < patience (world s) + length (incoming fd (world s))"
  using sys_read_Some(2,3) [OF assms(1)] assms(2) by (cases bs) simp_all

lemma sys_read_energy_None:
  assumes "sys_read k fd n s = (None, s')" and "errno s' = EINTR \<or> errno s' = EAGAIN"
  shows "patience (world s') + length (incoming fd (world s'))
       < patience (world s) + length (incoming fd (world s))"
  using sys_read_None [OF assms(1)] assms(2) by simp

end

text \<open>
  A world is \<open>calm\<close> when the only error it still answers a \<open>read\<close> with is \<open>EAGAIN\<close>: no
  signal interrupts the process and no connection is reset.
\<close>

locale calm_kernel = read_kernel k incoming patience
  for k :: "'w kernel" and incoming :: "int \<Rightarrow> 'w \<Rightarrow> byte list" and patience :: "'w \<Rightarrow> nat" +
  fixes calm :: "'w \<Rightarrow> bool"
  assumes calm_read: "calm w \<Longrightarrow> k_read k fd n w = (r, w') \<Longrightarrow>
      calm w' \<and> (\<forall>e. r = Fail e \<longrightarrow> e = EAGAIN)"
begin

lemma calm_sys_read:
  assumes "sys_read k fd n s = (r, s')" and "calm (world s)"
  shows "calm (world s')" and "r = None \<Longrightarrow> errno s' = EAGAIN"
  using assms calm_read [of "world s"] syscall_SomeD [of "k_read k fd n" s _ s']
    syscall_NoneD [of "k_read k fd n" s s'] by (cases r; fastforce)+

end

text \<open>\<open>outgoing fd w\<close> is the sequence of bytes accepted from the program on \<open>fd\<close> so far.\<close>

locale write_kernel =
  fixes k :: "'w kernel"
    and outgoing :: "int \<Rightarrow> 'w \<Rightarrow> byte list"
    and patience :: "'w \<Rightarrow> nat"
  assumes write_Ok: "k_write k fd bs w = (Ok n, w') \<Longrightarrow>
      n \<le> length bs \<and> outgoing fd w' = outgoing fd w @ take n bs \<and> patience w' \<le> patience w"
    and write_progress: "k_write k fd bs w = (Ok n, w') \<Longrightarrow> bs \<noteq> [] \<Longrightarrow> 0 < n"
    and write_Fail: "k_write k fd bs w = (Fail e, w') \<Longrightarrow>
      outgoing fd w' = outgoing fd w \<and> patience w' \<le> patience w"
    and write_transient: "k_write k fd bs w = (Fail e, w') \<Longrightarrow> e = EINTR \<or> e = EAGAIN \<Longrightarrow>
      patience w' < patience w"
begin

lemma sys_write_Some:
  assumes "sys_write k fd bs s = (Some n, s')"
  shows "n \<le> length bs" and "outgoing fd (world s') = outgoing fd (world s) @ take n bs"
    and "patience (world s') \<le> patience (world s)"
    and "bs \<noteq> [] \<Longrightarrow> 0 < n"
  using syscall_SomeD [OF assms] write_Ok write_progress by blast+

lemma sys_write_None:
  assumes "sys_write k fd bs s = (None, s')"
  shows "outgoing fd (world s') = outgoing fd (world s)"
    and "patience (world s') \<le> patience (world s)"
    and "errno s' = EINTR \<or> errno s' = EAGAIN \<Longrightarrow> patience (world s') < patience (world s)"
  using syscall_NoneD [OF assms] write_Fail write_transient by blast+

end

text \<open>A connected stream socket: both directions, which do not disturb each other.\<close>

locale stream_kernel = read_kernel k incoming patience + write_kernel k outgoing patience
  for k :: "'w kernel" and incoming outgoing :: "int \<Rightarrow> 'w \<Rightarrow> byte list"
    and patience :: "'w \<Rightarrow> nat" +
  assumes read_frame: "k_read k fd n w = (r, w') \<Longrightarrow> outgoing fd' w' = outgoing fd' w"
    and write_frame: "k_write k fd bs w = (r', w') \<Longrightarrow> incoming fd' w' = incoming fd' w"


locale calm_stream = stream_kernel k incoming outgoing patience + calm_kernel k incoming patience calm
  for k :: "'w kernel" and incoming outgoing :: "int \<Rightarrow> 'w \<Rightarrow> byte list"
    and patience :: "'w \<Rightarrow> nat" and calm :: "'w \<Rightarrow> bool" +
  assumes calm_write: "calm w \<Longrightarrow> k_write k fd bs w = (r', w') \<Longrightarrow>
      calm w' \<and> (\<forall>e. r' = Fail e \<longrightarrow> e = EAGAIN)"
begin

lemma calm_sys_write:
  assumes "sys_write k fd bs s = (r, s')" and "calm (world s)"
  shows "calm (world s')" and "r = None \<Longrightarrow> errno s' = EAGAIN"
  using assms calm_write [of "world s"] syscall_SomeD [of "k_write k fd bs" s _ s']
    syscall_NoneD [of "k_write k fd bs" s s'] by (cases r; fastforce)+

end

text \<open>
  A blocking socket with a peer that does not reset the connection: in a \<open>steady\<close> world the
  only error is an interruption by a signal.
\<close>

locale steady_stream = stream_kernel k incoming outgoing patience
  for k :: "'w kernel" and incoming outgoing :: "int \<Rightarrow> 'w \<Rightarrow> byte list"
    and patience :: "'w \<Rightarrow> nat" +
  fixes steady :: "'w \<Rightarrow> bool"
  assumes steady_read: "steady w \<Longrightarrow> k_read k fd n w = (r, w') \<Longrightarrow>
      steady w' \<and> (\<forall>e. r = Fail e \<longrightarrow> e = EINTR)"
    and steady_write: "steady w \<Longrightarrow> k_write k fd bs w = (r', w') \<Longrightarrow>
      steady w' \<and> (\<forall>e. r' = Fail e \<longrightarrow> e = EINTR)"

text \<open>
  A program that talks to a terminal and a peer.  \<open>typed w\<close> is what will be read from the
  standard input; \<open>fgets\<close> takes one line of it, cut to the room in its buffer, and leaves
  the sockets alone, as does \<open>close\<close> except for the descriptor it closes.
\<close>

locale terminal_stream = steady_stream k incoming outgoing patience steady
  for k :: "'w kernel" and incoming outgoing :: "int \<Rightarrow> 'w \<Rightarrow> byte list"
    and patience :: "'w \<Rightarrow> nat" and steady :: "'w \<Rightarrow> bool" +
  fixes typed :: "'w \<Rightarrow> byte list"
  assumes fgets_line: "k_fgets k n w = (r, w') \<Longrightarrow> 1 < n \<Longrightarrow>
      r = (if typed w = [] then None else Some (next_line (n - 1) (typed w)))
      \<and> typed w' = drop (length (next_line (n - 1) (typed w))) (typed w)"
    and fgets_frame: "k_fgets k n w = (r, w') \<Longrightarrow>
      incoming fd w' = incoming fd w \<and> outgoing fd w' = outgoing fd w \<and> (steady w \<longrightarrow> steady w')"
    and read_typed: "k_read k fd n w = (r_read, w') \<Longrightarrow> typed w' = typed w"
    and write_typed: "k_write k fd bs w = (r_write, w') \<Longrightarrow> typed w' = typed w"

locale closing_stream = steady_stream k incoming outgoing patience steady
  for k :: "'w kernel" and incoming outgoing :: "int \<Rightarrow> 'w \<Rightarrow> byte list"
    and patience :: "'w \<Rightarrow> nat" and steady :: "'w \<Rightarrow> bool" +
  assumes close_frame: "k_close k fd w = (r, w') \<Longrightarrow> fd' \<noteq> fd \<Longrightarrow>
      incoming fd' w' = incoming fd' w \<and> outgoing fd' w' = outgoing fd' w \<and> (steady w \<longrightarrow> steady w')"

text \<open>\<open>select\<close> reduces the set it is given to the ready descriptors and counts them.\<close>

locale select_kernel =
  fixes k :: "'w kernel"
  assumes select_Ok: "k_select k n fds w = (Ok (m, fds'), w') \<Longrightarrow> fds' \<subseteq> fds \<and> m = int (card fds')"
begin

lemma sys_select:
  assumes "syscall (k_select k n fds) s = (Some (m, fds'), s')"
  shows "fds' \<subseteq> fds" and "m = int (card fds')"
  using syscall_SomeD [OF assms] select_Ok by blast+

end

text \<open>
  Descriptor numbers: \<open>opened w\<close> are the ones in use.  A new one is non-negative and unused,
  \<open>close\<close> gives one back, and the other calls of a server leave them alone.
\<close>

locale fd_kernel =
  fixes k :: "'w kernel"
    and opened :: "'w \<Rightarrow> int set"
  assumes accept_opens: "k_accept k fd w = (Ok (fd', a), w') \<Longrightarrow>
      0 \<le> fd' \<and> fd' \<notin> opened w \<and> opened w' = insert fd' (opened w)"
    and accept_failed: "k_accept k fd w = (Fail e, w') \<Longrightarrow> opened w' = opened w"
    and socket_opens: "k_socket k d w = (Ok fd, w') \<Longrightarrow>
      0 \<le> fd \<and> fd \<notin> opened w \<and> opened w' = insert fd (opened w)"
    and close_closes: "k_close k fd w = (r_close, w') \<Longrightarrow> opened w' = opened w - {fd}"
    and setsockopt_keeps: "k_setsockopt_reuseaddr k fd w = (r_opt, w') \<Longrightarrow> opened w' = opened w"
    and bind_keeps: "k_bind k fd a w = (r_bind, w') \<Longrightarrow> opened w' = opened w"
    and listen_keeps: "k_listen k fd n w = (r_listen, w') \<Longrightarrow> opened w' = opened w"
    and read_keeps: "k_read k fd n w = (r_read, w') \<Longrightarrow> opened w' = opened w"
    and write_keeps: "k_write k fd bs w = (r_write, w') \<Longrightarrow> opened w' = opened w"
    and select_keeps: "k_select k m fds w = (r_select, w') \<Longrightarrow> opened w' = opened w"
begin

lemma sys_keeps:
  "syscall (k_setsockopt_reuseaddr k fd) s = (r_opt, s') \<Longrightarrow> opened (world s') = opened (world s)"
  "syscall (k_bind k fd a) s = (r_bind, s') \<Longrightarrow> opened (world s') = opened (world s)"
  "syscall (k_listen k fd n) s = (r_listen, s') \<Longrightarrow> opened (world s') = opened (world s)"
  "syscall (k_select k m fds) s = (r_select, s') \<Longrightarrow> opened (world s') = opened (world s)"
  "opened (world (snd (syscall (k_close k fd) s))) = opened (world s) - {fd}"
  using setsockopt_keeps bind_keeps listen_keeps select_keeps close_closes
  by (auto simp: syscall_def split: prod.splits sysres.splits)

end

section \<open>Laws of child processes\<close>

text \<open>
  \<open>children w\<close> are the children not yet reaped and \<open>ended w\<close> those among them that have
  terminated.  A wait for any child reaps one; with \<open>WNOHANG\<close> (\<open>True\<close>) it returns zero when
  none has ended; without, it sleeps, and may be interrupted.
\<close>

locale wait_kernel =
  fixes k :: "'w kernel"
    and children :: "'w \<Rightarrow> int set"
    and ended :: "'w \<Rightarrow> int set"
    and patience :: "'w \<Rightarrow> nat"
  assumes finite_children: "finite (children w)"
    and ended_children: "ended w \<subseteq> children w"
    and wait_reaps: "k_waitpid k (- 1) nohang w = (Ok p, w') \<Longrightarrow> p \<noteq> 0 \<Longrightarrow>
      0 < p \<and> p \<in> children w \<and> children w' = children w - {p}"
    and wait_none: "k_waitpid k (- 1) nohang w = (Ok 0, w') \<Longrightarrow>
      nohang \<and> ended w' = {} \<and> children w' = children w"
    and wait_Fail: "k_waitpid k (- 1) nohang w = (Fail e, w') \<Longrightarrow>
      children w' = children w
      \<and> (e = ECHILD \<and> children w = {} \<or> e = EINTR \<and> \<not> nohang \<and> patience w' < patience w)"

section \<open>Laws of messages with descriptors\<close>

text \<open>
  \<open>sent fd w\<close> is the log of messages accepted on \<open>fd\<close>, each with its passed descriptor;
  \<open>inbox fd w\<close> is the sequence of bytes still to be received on \<open>fd\<close>.
\<close>

locale msg_kernel =
  fixes k :: "'w kernel"
    and sent :: "int \<Rightarrow> 'w \<Rightarrow> (byte list \<times> int option) list"
    and inbox :: "int \<Rightarrow> 'w \<Rightarrow> byte list"
    and patience :: "'w \<Rightarrow> nat"
  assumes sendmsg_Ok: "k_sendmsg k fd bs c w = (Ok n, w') \<Longrightarrow>
      n \<le> length bs \<and> sent fd w' = sent fd w @ [(take n bs, c)]"
    and sendmsg_progress: "k_sendmsg k fd bs c w = (Ok n, w') \<Longrightarrow> bs \<noteq> [] \<Longrightarrow> 0 < n"
    and sendmsg_Fail: "k_sendmsg k fd bs c w = (Fail e, w') \<Longrightarrow> sent fd w' = sent fd w"
    and sendmsg_transient: "k_sendmsg k fd bs c w = (Fail e, w') \<Longrightarrow> e = EINTR \<or> e = EAGAIN \<Longrightarrow>
      patience w' < patience w"
    and recvmsg_Ok: "k_recvmsg k fd m cl w = (Ok (bs, c), w') \<Longrightarrow>
      length bs \<le> m \<and> inbox fd w = bs @ inbox fd w'"
    and recvmsg_sent: "k_recvmsg k fd m cl w = (r, w') \<Longrightarrow> sent fd' w' = sent fd' w"
    and recvmsg_Fail: "k_recvmsg k fd m cl w = (Fail e, w') \<Longrightarrow> inbox fd w' = inbox fd w"
    and recvmsg_transient: "k_recvmsg k fd m cl w = (Fail e, w') \<Longrightarrow> e = EINTR \<or> e = EAGAIN \<Longrightarrow>
      patience w' < patience w"
begin

lemma sys_sendmsg_Some:
  assumes "syscall (k_sendmsg k fd bs c) s = (Some n, s')"
  shows "n \<le> length bs" and "sent fd (world s') = sent fd (world s) @ [(take n bs, c)]"
    and "bs \<noteq> [] \<Longrightarrow> 0 < n"
  using syscall_SomeD [OF assms] sendmsg_Ok sendmsg_progress by blast+

lemma sys_sendmsg_None:
  assumes "syscall (k_sendmsg k fd bs c) s = (None, s')"
  shows "sent fd (world s') = sent fd (world s)"
    and "errno s' = EINTR \<or> errno s' = EAGAIN \<Longrightarrow> patience (world s') < patience (world s)"
  using syscall_NoneD [OF assms] sendmsg_Fail sendmsg_transient by blast+

lemma sys_recvmsg_sent: "sent fd' (world (snd (syscall (k_recvmsg k fd m cl) s))) = sent fd' (world s)"
  using recvmsg_sent by (auto simp: syscall_def split: prod.splits sysres.splits)

lemma sys_recvmsg_Some:
  assumes "syscall (k_recvmsg k fd m cl) s = (Some (bs, c), s')"
  shows "length bs \<le> m" and "inbox fd (world s) = bs @ inbox fd (world s')"
  using syscall_SomeD [OF assms] recvmsg_Ok by blast+

lemma sys_recvmsg_None:
  assumes "syscall (k_recvmsg k fd m cl) s = (None, s')"
  shows "inbox fd (world s') = inbox fd (world s)"
    and "errno s' = EINTR \<or> errno s' = EAGAIN \<Longrightarrow> patience (world s') < patience (world s)"
  using syscall_NoneD [OF assms] recvmsg_Fail recvmsg_transient by blast+

end

text \<open>
  Passing a descriptor over a Unix-domain socket.  \<open>messages fd w\<close> is the queue of messages
  to be received on \<open>fd\<close>, each with its descriptor.  Ancillary data are a barrier: a receive
  never crosses into a message that carries a descriptor, delivers the descriptor of the
  head message with its first bytes if there is room for it, and once only.  In a calm
  world the only errors are transient.
\<close>

locale passing_kernel = msg_kernel k sent inbox patience
  for k :: "'w kernel" and sent :: "int \<Rightarrow> 'w \<Rightarrow> (byte list \<times> int option) list"
    and inbox :: "int \<Rightarrow> 'w \<Rightarrow> byte list" and patience :: "'w \<Rightarrow> nat" +
  fixes messages :: "int \<Rightarrow> 'w \<Rightarrow> (byte list \<times> int option) list"
    and calm :: "'w \<Rightarrow> bool"
  assumes recvmsg_head: "messages fd w = (b, c) # q \<Longrightarrow> b \<noteq> [] \<Longrightarrow> \<forall>m \<in> set q. snd m \<noteq> None \<Longrightarrow>
      0 < n \<Longrightarrow> k_recvmsg k fd n cl w = (Ok (bs, c'), w') \<Longrightarrow>
      \<exists>j. 0 < j \<and> j \<le> length b \<and> bs = take j b \<and> c' = (if 20 \<le> cl then c else None)
        \<and> messages fd w' = (if j < length b then (drop j b, None) # q else q)"
    and recvmsg_kept: "k_recvmsg k fd n cl w = (Fail e, w') \<Longrightarrow> messages fd w' = messages fd w"
    and calm_recvmsg: "calm w \<Longrightarrow> k_recvmsg k fd n cl w = (r, w') \<Longrightarrow>
      calm w' \<and> (\<forall>e. r = Fail e \<longrightarrow> e = EINTR \<or> e = EAGAIN)"
begin

lemma sys_recvmsg_head:
  assumes "syscall (k_recvmsg k fd n cl) s = (Some (bs, c'), s')"
    and "messages fd (world s) = (b, c) # q" and "b \<noteq> []" and "\<forall>m \<in> set q. snd m \<noteq> None" and "0 < n"
  obtains j where "0 < j" and "j \<le> length b" and "bs = take j b"
    and "c' = (if 20 \<le> cl then c else None)"
    and "messages fd (world s') = (if j < length b then (drop j b, None) # q else q)"
  using syscall_SomeD [OF assms(1)] recvmsg_head [OF assms(2-5)] by blast

lemma sys_recvmsg_calm:
  assumes "syscall (k_recvmsg k fd n cl) s = (r, s')" and "calm (world s)"
  shows "calm (world s')"
    and "r = None \<Longrightarrow> (errno s' = EINTR \<or> errno s' = EAGAIN)
         \<and> messages fd (world s') = messages fd (world s) \<and> patience (world s') < patience (world s)"
  using assms calm_recvmsg [of "world s"] syscall_SomeD [of "k_recvmsg k fd n cl" s _ s']
    syscall_NoneD [of "k_recvmsg k fd n cl" s s'] recvmsg_kept recvmsg_transient
  by (cases r; fastforce)+

end

section \<open>Laws of event registration\<close>

text \<open>
  \<open>plain_call k A w w'\<close> holds when one call other than \<open>epoll_ctl\<close>, and reading, writing or
  closing no descriptor outside \<open>A\<close>, takes the world from \<open>w\<close> to \<open>w'\<close>, and \<open>plain k A s s'\<close>
  when a sequence of such calls does.
\<close>

inductive plain_call :: "'w kernel \<Rightarrow> int set \<Rightarrow> 'w \<Rightarrow> 'w \<Rightarrow> bool" for k A where
  plain_read: "fd \<in> A \<Longrightarrow> k_read k fd n w = (r_read, w') \<Longrightarrow> plain_call k A w w'"
| plain_write: "fd \<in> A \<Longrightarrow> k_write k fd bs w = (r_write, w') \<Longrightarrow> plain_call k A w w'"
| plain_close: "fd \<in> A \<Longrightarrow> k_close k fd w = (r_close, w') \<Longrightarrow> plain_call k A w w'"
| plain_sendmsg: "k_sendmsg k fd bs c w = (r_sendmsg, w') \<Longrightarrow> plain_call k A w w'"
| plain_recvmsg: "k_recvmsg k fd n cl w = (r_recvmsg, w') \<Longrightarrow> plain_call k A w w'"
| plain_epoll_create: "k_epoll_create k w = (r_epoll_create, w') \<Longrightarrow> plain_call k A w w'"
| plain_epoll_wait: "k_epoll_wait k fd n t w = (r_epoll_wait, w') \<Longrightarrow> plain_call k A w w'"
| plain_getfd: "k_fcntl_getfd k fd w = (r_getfd, w') \<Longrightarrow> plain_call k A w w'"
| plain_setfl: "k_fcntl_setfl k fd fl w = (r_setfl, w') \<Longrightarrow> plain_call k A w w'"
| plain_socket: "k_socket k d w = (r_socket, w') \<Longrightarrow> plain_call k A w w'"
| plain_setsockopt: "k_setsockopt_reuseaddr k fd w = (r_setsockopt, w') \<Longrightarrow> plain_call k A w w'"
| plain_bind: "k_bind k fd a w = (r_bind, w') \<Longrightarrow> plain_call k A w w'"
| plain_listen: "k_listen k fd n w = (r_listen, w') \<Longrightarrow> plain_call k A w w'"
| plain_accept: "k_accept k fd w = (r_accept, w') \<Longrightarrow> plain_call k A w w'"
| plain_connect: "k_connect k fd a w = (r_connect, w') \<Longrightarrow> plain_call k A w w'"
| plain_gethostbyname: "k_gethostbyname k h w = (r_gethostbyname, w') \<Longrightarrow> plain_call k A w w'"
| plain_unlink: "k_unlink k p w = (r_unlink, w') \<Longrightarrow> plain_call k A w w'"
| plain_stat: "k_stat k p w = (r_stat, w') \<Longrightarrow> plain_call k A w w'"
| plain_chmod: "k_chmod k p m w = (r_chmod, w') \<Longrightarrow> plain_call k A w w'"
| plain_signal: "k_signal_ignore k n w = (r_signal, w') \<Longrightarrow> plain_call k A w w'"
| plain_access: "k_access k p w = (r_access, w') \<Longrightarrow> plain_call k A w w'"

definition plain :: "'w kernel \<Rightarrow> int set \<Rightarrow> 'w proc \<Rightarrow> 'w proc \<Rightarrow> bool" where
  "plain k A s s' \<longleftrightarrow> (plain_call k A)\<^sup>*\<^sup>* (world s) (world s')"

lemma plain_refl [simp, intro]: "plain k A s s"
  by (simp add: plain_def)

lemma plain_errno [simp]: "plain k A s (s'\<lparr>errno := e\<rparr>) \<longleftrightarrow> plain k A s s'"
  by (simp add: plain_def)

lemma plain_trans: "plain k A s s' \<Longrightarrow> plain k A s' s'' \<Longrightarrow> plain k A s s''"
  unfolding plain_def by (rule rtranclp_trans)

lemma plain_call_mono: "plain_call k A w w' \<Longrightarrow> A \<subseteq> B \<Longrightarrow> plain_call k B w w'"
  by (induction rule: plain_call.induct) (blast intro: plain_call.intros)+

lemma plain_mono: "plain k A s s' \<Longrightarrow> A \<subseteq> B \<Longrightarrow> plain k B s s'"
  unfolding plain_def by (erule rtranclp_mono [THEN predicate2D, rotated]) (blast intro: plain_call_mono)

lemma plain_step:
  assumes "syscall f s = (r, s')" and "\<And>x w'. f (world s) = (x, w') \<Longrightarrow> plain_call k A (world s) w'"
    and "plain k A s0 s"
  shows "plain k A s0 s'"
proof -
  have "plain_call k A (world s) (world s')"
    using assms(1,2) by (auto simp: syscall_def split: prod.splits sysres.splits)
  with assms(3) show ?thesis unfolding plain_def by simp
qed

lemma plain_calls:
  "syscall (k_read k fd n) s = (r_read, s') \<Longrightarrow> plain k A s0 s \<Longrightarrow> fd \<in> A \<Longrightarrow> plain k A s0 s'"
  "syscall (k_write k fd bs) s = (r_write, s') \<Longrightarrow> plain k A s0 s \<Longrightarrow> fd \<in> A \<Longrightarrow> plain k A s0 s'"
  "syscall (k_close k fd) s = (r_close, s') \<Longrightarrow> plain k A s0 s \<Longrightarrow> fd \<in> A \<Longrightarrow> plain k A s0 s'"
  "syscall (k_sendmsg k fd bs c) s = (r_sendmsg, s') \<Longrightarrow> plain k A s0 s \<Longrightarrow> plain k A s0 s'"
  "syscall (k_recvmsg k fd n cl) s = (r_recvmsg, s') \<Longrightarrow> plain k A s0 s \<Longrightarrow> plain k A s0 s'"
  "syscall (k_epoll_create k) s = (r_epoll_create, s') \<Longrightarrow> plain k A s0 s \<Longrightarrow> plain k A s0 s'"
  "syscall (k_epoll_wait k fd n t) s = (r_epoll_wait, s') \<Longrightarrow> plain k A s0 s \<Longrightarrow> plain k A s0 s'"
  "syscall (k_fcntl_getfd k fd) s = (r_getfd, s') \<Longrightarrow> plain k A s0 s \<Longrightarrow> plain k A s0 s'"
  "syscall (k_fcntl_setfl k fd fl) s = (r_setfl, s') \<Longrightarrow> plain k A s0 s \<Longrightarrow> plain k A s0 s'"
  "syscall (k_socket k d) s = (r_socket, s') \<Longrightarrow> plain k A s0 s \<Longrightarrow> plain k A s0 s'"
  "syscall (k_setsockopt_reuseaddr k fd) s = (r_setsockopt, s') \<Longrightarrow> plain k A s0 s \<Longrightarrow> plain k A s0 s'"
  "syscall (k_bind k fd a) s = (r_bind, s') \<Longrightarrow> plain k A s0 s \<Longrightarrow> plain k A s0 s'"
  "syscall (k_listen k fd n) s = (r_listen, s') \<Longrightarrow> plain k A s0 s \<Longrightarrow> plain k A s0 s'"
  "syscall (k_accept k fd) s = (r_accept, s') \<Longrightarrow> plain k A s0 s \<Longrightarrow> plain k A s0 s'"
  "syscall (k_connect k fd a) s = (r_connect, s') \<Longrightarrow> plain k A s0 s \<Longrightarrow> plain k A s0 s'"
  "syscall (k_gethostbyname k h) s = (r_gethostbyname, s') \<Longrightarrow> plain k A s0 s \<Longrightarrow> plain k A s0 s'"
  "syscall (k_unlink k p) s = (r_unlink, s') \<Longrightarrow> plain k A s0 s \<Longrightarrow> plain k A s0 s'"
  "syscall (k_stat k p) s = (r_stat, s') \<Longrightarrow> plain k A s0 s \<Longrightarrow> plain k A s0 s'"
  "syscall (k_chmod k p m) s = (r_chmod, s') \<Longrightarrow> plain k A s0 s \<Longrightarrow> plain k A s0 s'"
  "syscall (k_signal_ignore k n) s = (r_signal, s') \<Longrightarrow> plain k A s0 s \<Longrightarrow> plain k A s0 s'"
  "syscall (k_access k p) s = (r_access, s') \<Longrightarrow> plain k A s0 s \<Longrightarrow> plain k A s0 s'"
  by (erule plain_step; (rule plain_call.intros; assumption | assumption))+

lemmas plain_call1 = plain_calls [OF _ plain_refl]

lemma plain_calls_snd:
  "plain k A s0 s \<Longrightarrow> plain k A s0 (snd (syscall (k_unlink k p) s))"
  "plain k A s0 s \<Longrightarrow> fd \<in> A \<Longrightarrow> plain k A s0 (snd (syscall (k_close k fd) s))"
  "plain k A s0 s \<Longrightarrow> plain k A s0 (snd (syscall (k_recvmsg k fd n cl) s))"
  by (rule plain_calls [OF surjective_pairing]; assumption)+

text \<open>
  \<open>interest e fd w\<close> is the mask \<open>fd\<close> is registered with at the epoll instance \<open>e\<close>.  A
  registration is made and altered by \<open>epoll_ctl\<close> only (\<open>close\<close> may drop it); a
  modification fails only for a descriptor that is not registered; a descriptor is reported
  once per wait, is non-negative, and is reported readable only if registered for that (bit 0 is
  \<open>EPOLLIN\<close>).
\<close>

locale epoll_kernel =
  fixes k :: "'w kernel"
    and interest :: "int \<Rightarrow> int \<Rightarrow> 'w \<Rightarrow> u32 option"
  assumes ctl_Ok: "k_epoll_ctl k e c fd m w = (Ok u, w') \<Longrightarrow>
      interest e fd' w' = (if fd' = fd then if c = EPOLL_CTL_DEL then None else Some m
                           else interest e fd' w)"
    and ctl_Fail: "k_epoll_ctl k e c fd m w = (Fail x, w') \<Longrightarrow>
      interest e fd' w' = interest e fd' w \<and> (c = EPOLL_CTL_MOD \<longrightarrow> interest e fd w = None)"
    and wait_Ok: "k_epoll_wait k e n t w = (Ok evs, w') \<Longrightarrow>
      distinct (map snd evs) \<and> length evs \<le> n \<and>
      (\<forall>ev \<in> set evs. 0 \<le> snd ev \<and> (bit (fst ev) 0 \<longrightarrow> (\<exists>i. interest e (snd ev) w = Some i \<and> bit i 0)))"
    and plain_keeps: "plain_call k A w w' \<Longrightarrow>
      interest e fd w' = interest e fd w \<or> interest e fd w' = None"
begin

lemma plain_interest:
  assumes "plain k A s s'"
  shows "interest e fd (world s') = interest e fd (world s) \<or> interest e fd (world s') = None"
  using assms unfolding plain_def
  by (induction rule: rtranclp_induct) (simp, metis plain_keeps)

lemma sys_ctl:
  assumes "syscall (k_epoll_ctl k e c fd m) s = (r, s')"
  shows "interest e fd' (world s') = interest e fd' (world s) \<and> (c = EPOLL_CTL_MOD \<longrightarrow> interest e fd (world s) = None)
       \<or> interest e fd' (world s') = (if fd' = fd then if c = EPOLL_CTL_DEL then None else Some m
                           else interest e fd' (world s))"
  using assms ctl_Ok ctl_Fail
  by (cases r) (auto dest!: syscall_SomeD syscall_NoneD split: if_splits)

end

end
