(* ===== verification/Sim_Kernel.thy ===== *)
theory Sim_Kernel
  imports Kernel
begin

text \<open>
  A concrete kernel that satisfies the laws of \<open>Kernel\<close>, for evaluating the program's
  definitions on concrete inputs.  Each descriptor has a queue of bytes still to be
  delivered and a log of bytes accepted; the Unix-domain side keeps queues of messages
  with their passed descriptor.  A schedule decides call by call whether a transfer is
  interrupted, would block, or moves at most a given number of bytes; once the schedule
  is used up, transfers are as large as possible.  Any finite pattern of short transfers
  and transient errors is a schedule.
\<close>

datatype sched = Intr | Again | Chunk nat

record sim =
  inq :: "int \<Rightarrow> byte list"
  outq :: "int \<Rightarrow> byte list"
  schedule :: "sched list"
  msg_in :: "int \<Rightarrow> (byte list \<times> int option) list"
  msg_out :: "int \<Rightarrow> (byte list \<times> int option) list"
  closed :: "int list"
  registered :: "(int \<times> u32) list"
  ready :: "(u32 \<times> int) list list"
  backlog :: "(int \<times> sockaddr) list"
  files :: "(string \<times> stat) list"
  pids :: "int list"
  running :: "int list"
  zombies :: "int list"
  selects :: "int list list"
  tty :: "byte list"
  open_fds :: "int list"
  clock :: int
  next_fd :: int

text \<open>The largest transfer the schedule allows now, or the transient error it dictates.\<close>

definition grant :: "nat \<Rightarrow> sim \<Rightarrow> nat sysres \<times> sim" where
  "grant n w = (case schedule w of
     [] \<Rightarrow> (Ok n, w)
   | Intr # r \<Rightarrow> (Fail EINTR, w\<lparr>schedule := r\<rparr>)
   | Again # r \<Rightarrow> (Fail EAGAIN, w\<lparr>schedule := r\<rparr>)
   | Chunk m # r \<Rightarrow> (Ok (min n (Suc m)), w\<lparr>schedule := r\<rparr>))"

definition sim_read :: "int \<Rightarrow> nat \<Rightarrow> sim \<Rightarrow> byte list sysres \<times> sim" where
  "sim_read fd n w = (case grant n w of
     (Fail e, w') \<Rightarrow> (Fail e, w')
   | (Ok m, w') \<Rightarrow> (Ok (take m (inq w' fd)), w'\<lparr>inq := (inq w')(fd := drop m (inq w' fd))\<rparr>))"

definition sim_write :: "int \<Rightarrow> byte list \<Rightarrow> sim \<Rightarrow> nat sysres \<times> sim" where
  "sim_write fd bs w = (case grant (length bs) w of
     (Fail e, w') \<Rightarrow> (Fail e, w')
   | (Ok m, w') \<Rightarrow> (Ok m, w'\<lparr>outq := (outq w')(fd := outq w' fd @ take m bs)\<rparr>))"

definition sim_sendmsg :: "int \<Rightarrow> byte list \<Rightarrow> int option \<Rightarrow> sim \<Rightarrow> nat sysres \<times> sim" where
  "sim_sendmsg fd bs c w = (case grant (length bs) w of
     (Fail e, w') \<Rightarrow> (Fail e, w')
   | (Ok m, w') \<Rightarrow> (Ok m, w'\<lparr>msg_out := (msg_out w')(fd := msg_out w' fd @ [(take m bs, c)])\<rparr>))"

definition sim_recvmsg :: "int \<Rightarrow> nat \<Rightarrow> nat \<Rightarrow> sim \<Rightarrow> (byte list \<times> int option) sysres \<times> sim" where
  "sim_recvmsg fd n clen w = (case grant n w of
     (Fail e, w') \<Rightarrow> (Fail e, w')
   | (Ok m, w') \<Rightarrow> (case msg_in w' fd of
       [] \<Rightarrow> (Ok ([], None), w')
     | (bs, c) # r \<Rightarrow>
         (Ok (take m bs, if 20 \<le> clen then c else None),
          w'\<lparr>msg_in := (msg_in w')(fd :=
             (if length bs \<le> m then r else (drop m bs, None) # r))\<rparr>)))"

definition sim_uninit :: "nat \<Rightarrow> sim \<Rightarrow> byte list" where
  "sim_uninit n w = replicate n 0xAA"

text \<open>Of the prepared events, those of registered descriptors, each descriptor once.\<close>

fun admit :: "(int \<times> u32) list \<Rightarrow> int list \<Rightarrow> (u32 \<times> int) list \<Rightarrow> (u32 \<times> int) list" where
  "admit regs seen [] = []"
| "admit regs seen ((m, fd) # evs) = (case map_of regs fd of
     None \<Rightarrow> admit regs seen evs
   | Some i \<Rightarrow> if fd < 0 \<or> fd \<in> set seen \<or> (bit m 0 \<and> \<not> bit i 0) then admit regs seen evs
              else (m, fd) # admit regs (fd # seen) evs)"

text \<open>
  Without \<open>WNOHANG\<close> the caller sleeps until a child has ended, here the first that still
  runs if none has.
\<close>

definition reap :: "int \<Rightarrow> sim \<Rightarrow> sim" where
  "reap q w = w\<lparr>zombies := removeAll q (zombies w), running := removeAll q (running w)\<rparr>"

definition sim_waitpid :: "int \<Rightarrow> bool \<Rightarrow> sim \<Rightarrow> int sysres \<times> sim" where
  "sim_waitpid p nohang w =
     (let mine = (\<lambda>q. 0 < q \<and> (p = - 1 \<or> q = p)) in
      case filter mine (zombies w) of
        q # _ \<Rightarrow> (Ok q, reap q w)
      | [] \<Rightarrow> (case filter mine (running w) of
          [] \<Rightarrow> (Fail ECHILD, w)
        | q # _ \<Rightarrow> if nohang then (Ok 0, w) else (Ok q, reap q w)))"

text \<open>One line of the input, cut to leave room for the terminating zero.\<close>

definition sim_fgets :: "nat \<Rightarrow> sim \<Rightarrow> byte list option \<times> sim" where
  "sim_fgets n w =
     (let line = next_line (n - 1) (tty w) in
      (if line = [] then None else Some line, w\<lparr>tty := drop (length line) (tty w)\<rparr>))"

definition sim_kernel :: "sim kernel" where
  "sim_kernel = \<lparr>
     k_read = sim_read, k_write = sim_write,
     k_close = (\<lambda>fd w. if fd < 0 then (Fail (EOTHER 9), w) else (Ok (), w\<lparr>closed := fd # closed w\<rparr>)),
     k_sendmsg = sim_sendmsg, k_recvmsg = sim_recvmsg,
     k_epoll_create = (\<lambda>w. (Ok (next_fd w), w\<lparr>next_fd := next_fd w + 1\<rparr>)),
     k_epoll_ctl = (\<lambda>ep c fd m w. (Ok (), w\<lparr>registered :=
        (case c of EPOLL_CTL_DEL \<Rightarrow> filter (\<lambda>(f, _). f \<noteq> fd) (registered w)
         | _ \<Rightarrow> (fd, m) # filter (\<lambda>(f, _). f \<noteq> fd) (registered w))\<rparr>)),
     k_epoll_wait = (\<lambda>ep n t w. case ready w of
        [] \<Rightarrow> (Ok [], w) | evs # r \<Rightarrow> (Ok (take n (admit (registered w) [] evs)), w\<lparr>ready := r\<rparr>)),
     k_fcntl_getfd = (\<lambda>fd w. (Ok 0, w)),
     k_fcntl_setfl = (\<lambda>fd fl w. (Ok (), w)),
     k_socket = (\<lambda>d w. (Ok (next_fd w), w\<lparr>next_fd := next_fd w + 1\<rparr>)),
     k_setsockopt_reuseaddr = (\<lambda>fd w. (Ok (), w)),
     k_bind = (\<lambda>fd a w. (Ok (), w)),
     k_listen = (\<lambda>fd n w. (Ok (), w)),
     k_accept = (\<lambda>fd w. case backlog w of
        [] \<Rightarrow> (Fail EAGAIN, w) | c # r \<Rightarrow> (Ok c, w\<lparr>backlog := r\<rparr>)),
     k_connect = (\<lambda>fd a w. (Ok (), w)),
     k_gethostbyname = (\<lambda>h w. (Ok 0x7F000001, w)),
     k_unlink = (\<lambda>p w. (Ok (), w\<lparr>files := filter (\<lambda>(q, _). q \<noteq> p) (files w)\<rparr>)),
     k_stat = (\<lambda>p w. (case map_of (files w) p of
        None \<Rightarrow> Fail (EOTHER 2) | Some st \<Rightarrow> Ok st, w)),
     k_chmod = (\<lambda>p m w. (Ok (), w)),
     k_signal_ignore = (\<lambda>n w. (Ok (), w)),
     k_access = (\<lambda>p w. (case map_of (files w) p of
        None \<Rightarrow> Fail (EOTHER 2) | Some st \<Rightarrow> Ok (), w)),
     k_fork = (\<lambda>w. case pids w of
        [] \<Rightarrow> (Fail EAGAIN, w)
      | p # r \<Rightarrow> (Ok p, w\<lparr>pids := r, running := (if 0 < p then p # running w else [])\<rparr>)),
     k_execve = (\<lambda>path args w. (if path = chars ''/bin/date'' then Ok () else Fail (EOTHER 2), w)),
     k_waitpid = sim_waitpid,
     k_select = (\<lambda>n rs w. case selects w of
        [] \<Rightarrow> (Fail EINTR, w)
      | fds # r \<Rightarrow> (Ok (int (card (set fds \<inter> rs)), set fds \<inter> rs), w\<lparr>selects := r\<rparr>)),
     k_fgets = sim_fgets,
     k_feof = (\<lambda>w. tty w = []),
     k_time = clock, k_getpid = (\<lambda>w. 4242),
     k_malloc = (\<lambda>w. True), k_uninit = sim_uninit \<rparr>"

text \<open>The fields, so that evaluation never unfolds the whole record.\<close>

lemma sim_fields [simp]:
  "k_read sim_kernel = sim_read"
  "k_write sim_kernel = sim_write"
  "k_close sim_kernel = (\<lambda>fd w. if fd < 0 then (Fail (EOTHER 9), w) else (Ok (), w\<lparr>closed := fd # closed w\<rparr>))"
  "k_sendmsg sim_kernel = sim_sendmsg"
  "k_recvmsg sim_kernel = sim_recvmsg"
  "k_epoll_create sim_kernel = (\<lambda>w. (Ok (next_fd w), w\<lparr>next_fd := next_fd w + 1\<rparr>))"
  "k_epoll_ctl sim_kernel = (\<lambda>ep c fd m w. (Ok (), w\<lparr>registered :=
        (case c of EPOLL_CTL_DEL \<Rightarrow> filter (\<lambda>(f, _). f \<noteq> fd) (registered w)
         | _ \<Rightarrow> (fd, m) # filter (\<lambda>(f, _). f \<noteq> fd) (registered w))\<rparr>))"
  "k_epoll_wait sim_kernel = (\<lambda>ep n t w. case ready w of
        [] \<Rightarrow> (Ok [], w) | evs # r \<Rightarrow> (Ok (take n (admit (registered w) [] evs)), w\<lparr>ready := r\<rparr>))"
  "k_fcntl_getfd sim_kernel = (\<lambda>fd w. (Ok 0, w))"
  "k_fcntl_setfl sim_kernel = (\<lambda>fd fl w. (Ok (), w))"
  "k_socket sim_kernel = (\<lambda>d w. (Ok (next_fd w), w\<lparr>next_fd := next_fd w + 1\<rparr>))"
  "k_setsockopt_reuseaddr sim_kernel = (\<lambda>fd w. (Ok (), w))"
  "k_bind sim_kernel = (\<lambda>fd a w. (Ok (), w))"
  "k_listen sim_kernel = (\<lambda>fd n w. (Ok (), w))"
  "k_accept sim_kernel = (\<lambda>fd w. case backlog w of
        [] \<Rightarrow> (Fail EAGAIN, w) | c # r \<Rightarrow> (Ok c, w\<lparr>backlog := r\<rparr>))"
  "k_connect sim_kernel = (\<lambda>fd a w. (Ok (), w))"
  "k_gethostbyname sim_kernel = (\<lambda>h w. (Ok 0x7F000001, w))"
  "k_unlink sim_kernel = (\<lambda>p w. (Ok (), w\<lparr>files := filter (\<lambda>(q, _). q \<noteq> p) (files w)\<rparr>))"
  "k_stat sim_kernel = (\<lambda>p w. (case map_of (files w) p of
        None \<Rightarrow> Fail (EOTHER 2) | Some st \<Rightarrow> Ok st, w))"
  "k_chmod sim_kernel = (\<lambda>p m w. (Ok (), w))"
  "k_signal_ignore sim_kernel = (\<lambda>n w. (Ok (), w))"
  "k_access sim_kernel = (\<lambda>p w. (case map_of (files w) p of
        None \<Rightarrow> Fail (EOTHER 2) | Some st \<Rightarrow> Ok (), w))"
  "k_fork sim_kernel = (\<lambda>w. case pids w of
        [] \<Rightarrow> (Fail EAGAIN, w)
      | p # r \<Rightarrow> (Ok p, w\<lparr>pids := r, running := (if 0 < p then p # running w else [])\<rparr>))"
  "k_execve sim_kernel = (\<lambda>path args w. (if path = chars ''/bin/date'' then Ok () else Fail (EOTHER 2), w))"
  "k_waitpid sim_kernel = sim_waitpid"
  "k_select sim_kernel = (\<lambda>n rs w. case selects w of
        [] \<Rightarrow> (Fail EINTR, w)
      | fds # r \<Rightarrow> (Ok (int (card (set fds \<inter> rs)), set fds \<inter> rs), w\<lparr>selects := r\<rparr>))"
  "k_fgets sim_kernel = sim_fgets"
  "k_feof sim_kernel = (\<lambda>w. tty w = [])"
  "k_time sim_kernel = clock"
  "k_getpid sim_kernel = (\<lambda>w. 4242)"
  "k_malloc sim_kernel = (\<lambda>w. True)"
  "k_uninit sim_kernel = sim_uninit"
  by (simp_all add: sim_kernel_def)

lemmas sim_defs = sim_read_def sim_write_def sim_sendmsg_def sim_recvmsg_def
  grant_def syscall_def

text \<open>A world with empty queues, in which witnesses set the fields they need.\<close>

definition quiet :: sim where
  "quiet = \<lparr>inq = (\<lambda>_. []), outq = (\<lambda>_. []), schedule = [], msg_in = (\<lambda>_. []),
     msg_out = (\<lambda>_. []), closed = [], registered = [], ready = [], backlog = [], files = [],
     pids = [], running = [], zombies = [], selects = [], tty = [], open_fds = [],
     clock = 1000, next_fd = 3\<rparr>"

definition sim_incoming :: "int \<Rightarrow> sim \<Rightarrow> byte list" where
  "sim_incoming fd w = inq w fd"

definition sim_outgoing :: "int \<Rightarrow> sim \<Rightarrow> byte list" where
  "sim_outgoing fd w = outq w fd"

definition sim_patience :: "sim \<Rightarrow> nat" where
  "sim_patience w = length (schedule w)"

lemmas sim_obs = sim_incoming_def sim_outgoing_def sim_patience_def

lemma grant_Ok: "grant n w = (Ok m, w') \<Longrightarrow>
    m \<le> n \<and> (0 < n \<longrightarrow> 0 < m) \<and> inq w' = inq w \<and> outq w' = outq w \<and> msg_in w' = msg_in w
    \<and> msg_out w' = msg_out w \<and> sim_patience w' \<le> sim_patience w"
  by (auto simp: grant_def sim_patience_def split: list.splits sched.splits)

lemma grant_Fail: "grant n w = (Fail e, w') \<Longrightarrow>
    inq w' = inq w \<and> outq w' = outq w \<and> msg_in w' = msg_in w \<and> msg_out w' = msg_out w
    \<and> sim_patience w' < sim_patience w"
  by (auto simp: grant_def sim_patience_def split: list.splits sched.splits)

lemma sim_read_cases:
  assumes "sim_read fd n w = (r, w')"
  obtains (fail) e where "r = Fail e" and "grant n w = (Fail e, w')"
  | (ok) m v where "grant n w = (Ok m, v)" and "r = Ok (take m (inq v fd))"
      and "w' = v\<lparr>inq := (inq v)(fd := drop m (inq v fd))\<rparr>"
  using assms by (auto simp: sim_read_def split: prod.splits sysres.splits)

lemma sim_write_cases:
  assumes "sim_write fd bs w = (r, w')"
  obtains (fail) e where "r = Fail e" and "grant (length bs) w = (Fail e, w')"
  | (ok) m v where "grant (length bs) w = (Ok m, v)" and "r = Ok m"
      and "w' = v\<lparr>outq := (outq v)(fd := outq v fd @ take m bs)\<rparr>"
  using assms by (auto simp: sim_write_def split: prod.splits sysres.splits)

interpretation sim_k: stream_kernel sim_kernel sim_incoming sim_outgoing sim_patience
proof
  show "length bs \<le> n \<and> sim_incoming fd w = bs @ sim_incoming fd w' \<and> sim_patience w' \<le> sim_patience w"
    if "k_read sim_kernel fd n w = (Ok bs, w')" for fd n w bs w'
    using that by (auto simp: sim_obs dest!: grant_Ok elim!: sim_read_cases)
  show "sim_incoming fd w = []" if "k_read sim_kernel fd n w = (Ok [], w')" "0 < n" for fd n w w'
    using that by (auto simp: sim_obs dest!: grant_Ok elim!: sim_read_cases)
  show "sim_incoming fd w' = sim_incoming fd w \<and> sim_patience w' \<le> sim_patience w"
    if "k_read sim_kernel fd n w = (Fail e, w')" for fd n w e w'
    using that by (auto simp: sim_obs dest!: grant_Fail elim!: sim_read_cases)
  show "sim_patience w' < sim_patience w"
    if "k_read sim_kernel fd n w = (Fail e, w')" "e = EINTR \<or> e = EAGAIN" for fd n w e w'
    using that by (auto dest!: grant_Fail elim!: sim_read_cases)
  show "n \<le> length bs \<and> sim_outgoing fd w' = sim_outgoing fd w @ take n bs
      \<and> sim_patience w' \<le> sim_patience w"
    if "k_write sim_kernel fd bs w = (Ok n, w')" for fd bs w n w'
    using that by (auto simp: sim_obs dest!: grant_Ok elim!: sim_write_cases)
  show "0 < n" if "k_write sim_kernel fd bs w = (Ok n, w')" "bs \<noteq> []" for fd bs w n w'
    using that by (auto dest!: grant_Ok elim!: sim_write_cases)
  show "sim_outgoing fd w' = sim_outgoing fd w \<and> sim_patience w' \<le> sim_patience w"
    if "k_write sim_kernel fd bs w = (Fail e, w')" for fd bs w e w'
    using that by (auto simp: sim_obs dest!: grant_Fail elim!: sim_write_cases)
  show "sim_patience w' < sim_patience w"
    if "k_write sim_kernel fd bs w = (Fail e, w')" "e = EINTR \<or> e = EAGAIN" for fd bs w e w'
    using that by (auto dest!: grant_Fail elim!: sim_write_cases)
  show "sim_outgoing fd' w' = sim_outgoing fd' w"
    if "k_read sim_kernel fd n w = (r, w')" for fd n w r w' fd'
    using that by (auto simp: sim_obs dest!: grant_Ok grant_Fail elim!: sim_read_cases)
  show "sim_incoming fd' w' = sim_incoming fd' w"
    if "k_write sim_kernel fd bs w = (r, w')" for fd bs w r w' fd'
    using that by (auto simp: sim_obs dest!: grant_Ok grant_Fail elim!: sim_write_cases)
qed

definition sim_calm :: "sim \<Rightarrow> bool" where
  "sim_calm w \<longleftrightarrow> Intr \<notin> set (schedule w)"

lemma grant_calm: "grant n w = (r, w') \<Longrightarrow> sim_calm w \<Longrightarrow>
    sim_calm w' \<and> (\<forall>e. r = Fail e \<longrightarrow> e = EAGAIN)"
  by (auto simp: grant_def sim_calm_def split: list.splits sched.splits)

interpretation sim_calm_k: calm_stream sim_kernel sim_incoming sim_outgoing sim_patience sim_calm
proof
  show "sim_calm w' \<and> (\<forall>e. r = Fail e \<longrightarrow> e = EAGAIN)"
    if "sim_calm w" and "k_read sim_kernel fd n w = (r, w')" for w fd n r w'
    using that(2) grant_calm [OF _ that(1)]
    by (auto simp: sim_calm_def elim!: sim_read_cases)
  show "sim_calm w' \<and> (\<forall>e. r' = Fail e \<longrightarrow> e = EAGAIN)"
    if "sim_calm w" and "k_write sim_kernel fd bs w = (r', w')" for w fd bs r' w'
    using that(2) grant_calm [OF _ that(1)]
    by (auto simp: sim_calm_def elim!: sim_write_cases)
qed

definition sim_steady :: "sim \<Rightarrow> bool" where
  "sim_steady w \<longleftrightarrow> Again \<notin> set (schedule w)"

lemma grant_steady: "grant n w = (r, w') \<Longrightarrow> sim_steady w \<Longrightarrow>
    sim_steady w' \<and> (\<forall>e. r = Fail e \<longrightarrow> e = EINTR)"
  by (auto simp: grant_def sim_steady_def split: list.splits sched.splits)

interpretation sim_steady_k: steady_stream sim_kernel sim_incoming sim_outgoing sim_patience sim_steady
proof
  show "sim_steady w' \<and> (\<forall>e. r = Fail e \<longrightarrow> e = EINTR)"
    if "sim_steady w" and "k_read sim_kernel fd n w = (r, w')" for w fd n r w'
    using that(2) grant_steady [OF _ that(1)]
    by (auto simp: sim_steady_def elim!: sim_read_cases)
  show "sim_steady w' \<and> (\<forall>e. r' = Fail e \<longrightarrow> e = EINTR)"
    if "sim_steady w" and "k_write sim_kernel fd bs w = (r', w')" for w fd bs r' w'
    using that(2) grant_steady [OF _ that(1)]
    by (auto simp: sim_steady_def elim!: sim_write_cases)
qed

definition sim_typed :: "sim \<Rightarrow> byte list" where
  "sim_typed w = tty w"

lemma grant_frame: "grant n w = (r, w') \<Longrightarrow> tty w' = tty w"
  by (auto simp: grant_def split: list.splits sched.splits)

interpretation sim_terminal: terminal_stream sim_kernel sim_incoming sim_outgoing sim_patience sim_steady sim_typed
proof
  show "r = (if sim_typed w = [] then None else Some (next_line (n - 1) (sim_typed w)))
      \<and> sim_typed w' = drop (length (next_line (n - 1) (sim_typed w))) (sim_typed w)"
    if c: "k_fgets sim_kernel n w = (r, w')" and n: "1 < n" for n w r w'
  proof -
    from n obtain m where "n - 1 = Suc m" by (cases "n - 1") auto
    with c show ?thesis by (cases "tty w") (auto simp: sim_fgets_def sim_typed_def Let_def)
  qed
qed (auto simp: sim_fgets_def Let_def sim_obs sim_steady_def sim_typed_def
    elim!: sim_read_cases sim_write_cases dest: grant_frame)

interpretation sim_closing: closing_stream sim_kernel sim_incoming sim_outgoing sim_patience sim_steady
  by unfold_locales (auto simp: sim_obs sim_steady_def split: if_splits)

interpretation sim_select: select_kernel sim_kernel
  by unfold_locales (auto split: list.splits)

definition sim_children :: "sim \<Rightarrow> int set" where
  "sim_children w = {p \<in> set (running w) \<union> set (zombies w). 0 < p}"

definition sim_ended :: "sim \<Rightarrow> int set" where
  "sim_ended w = {p \<in> set (zombies w). 0 < p}"

interpretation sim_wait: wait_kernel sim_kernel sim_children sim_ended sim_patience
proof
  show "0 < p \<and> p \<in> sim_children w \<and> sim_children w' = sim_children w - {p}"
    if "k_waitpid sim_kernel (- 1) nohang w = (Ok p, w')" "p \<noteq> 0" for nohang w p w'
    using that by (auto simp: sim_waitpid_def sim_children_def reap_def Let_def
        split: list.splits if_splits dest!: filter_eq_ConsD)
  show "nohang \<and> sim_ended w' = {} \<and> sim_children w' = sim_children w"
    if "k_waitpid sim_kernel (- 1) nohang w = (Ok 0, w')" for nohang w w'
    using that by (auto simp: sim_waitpid_def sim_ended_def filter_empty_conv Let_def
        split: list.splits if_splits dest!: filter_eq_ConsD)
  show "sim_children w' = sim_children w
      \<and> (e = ECHILD \<and> sim_children w = {} \<or> e = EINTR \<and> \<not> nohang \<and> sim_patience w' < sim_patience w)"
    if "k_waitpid sim_kernel (- 1) nohang w = (Fail e, w')" for nohang w e w'
    using that by (auto simp: sim_waitpid_def sim_children_def filter_empty_conv Let_def
        split: list.splits if_splits)
qed (auto simp: sim_children_def sim_ended_def)

definition sim_sent :: "int \<Rightarrow> sim \<Rightarrow> (byte list \<times> int option) list" where
  "sim_sent fd w = msg_out w fd"

definition sim_inbox :: "int \<Rightarrow> sim \<Rightarrow> byte list" where
  "sim_inbox fd w = concat (map fst (msg_in w fd))"

lemma sim_sendmsg_cases:
  assumes "sim_sendmsg fd bs c w = (r, w')"
  obtains (fail) e where "r = Fail e" and "grant (length bs) w = (Fail e, w')"
  | (ok) m v where "grant (length bs) w = (Ok m, v)" and "r = Ok m"
      and "w' = v\<lparr>msg_out := (msg_out v)(fd := msg_out v fd @ [(take m bs, c)])\<rparr>"
  using assms by (auto simp: sim_sendmsg_def split: prod.splits sysres.splits)

lemma sim_recvmsg_cases:
  assumes "sim_recvmsg fd n cl w = (r, w')"
  obtains (fail) e where "r = Fail e" and "grant n w = (Fail e, w')"
  | (eof) m where "grant n w = (Ok m, w')" and "r = Ok ([], None)" and "msg_in w' fd = []"
  | (ok) m v bs c q where "grant n w = (Ok m, v)" and "msg_in v fd = (bs, c) # q"
      and "r = Ok (take m bs, if 20 \<le> cl then c else None)"
      and "w' = v\<lparr>msg_in := (msg_in v)(fd := (if length bs \<le> m then q else (drop m bs, None) # q))\<rparr>"
  using assms by (auto simp: sim_recvmsg_def split: prod.splits sysres.splits list.splits)

interpretation sim_msg: msg_kernel sim_kernel sim_sent sim_inbox sim_patience
proof
  show "n \<le> length bs \<and> sim_sent fd w' = sim_sent fd w @ [(take n bs, c)]"
    if "k_sendmsg sim_kernel fd bs c w = (Ok n, w')" for fd bs c w n w'
    using that by (auto simp: sim_sent_def dest!: grant_Ok elim!: sim_sendmsg_cases)
  show "0 < n" if "k_sendmsg sim_kernel fd bs c w = (Ok n, w')" "bs \<noteq> []" for fd bs c w n w'
    using that by (auto dest!: grant_Ok elim!: sim_sendmsg_cases)
  show "sim_sent fd w' = sim_sent fd w"
    if "k_sendmsg sim_kernel fd bs c w = (Fail e, w')" for fd bs c w e w'
    using that by (auto simp: sim_sent_def dest!: grant_Fail elim!: sim_sendmsg_cases)
  show "sim_patience w' < sim_patience w"
    if "k_sendmsg sim_kernel fd bs c w = (Fail e, w')" "e = EINTR \<or> e = EAGAIN" for fd bs c w e w'
    using that by (auto dest!: grant_Fail elim!: sim_sendmsg_cases)
  show "length bs \<le> m \<and> sim_inbox fd w = bs @ sim_inbox fd w'"
    if "k_recvmsg sim_kernel fd m cl w = (Ok (bs, c), w')" for fd m cl w bs c w'
    using that by (auto simp: sim_inbox_def dest!: grant_Ok elim!: sim_recvmsg_cases)
  show "sim_sent fd' w' = sim_sent fd' w"
    if "k_recvmsg sim_kernel fd m cl w = (r, w')" for fd m cl w r w' fd'
    using that by (auto simp: sim_sent_def dest!: grant_Ok grant_Fail elim!: sim_recvmsg_cases)
  show "sim_inbox fd w' = sim_inbox fd w"
    if "k_recvmsg sim_kernel fd m cl w = (Fail e, w')" for fd m cl w e w'
    using that by (auto simp: sim_inbox_def dest!: grant_Fail elim!: sim_recvmsg_cases)
  show "sim_patience w' < sim_patience w"
    if "k_recvmsg sim_kernel fd m cl w = (Fail e, w')" "e = EINTR \<or> e = EAGAIN" for fd m cl w e w'
    using that by (auto dest!: grant_Fail elim!: sim_recvmsg_cases)
qed

definition sim_messages :: "int \<Rightarrow> sim \<Rightarrow> (byte list \<times> int option) list" where
  "sim_messages fd w = msg_in w fd"

definition sim_any :: "sim \<Rightarrow> bool" where "sim_any w \<longleftrightarrow> True"

lemma grant_transient: "grant n w = (Fail e, w') \<Longrightarrow> e = EINTR \<or> e = EAGAIN"
  by (auto simp: grant_def split: list.splits sched.splits)

interpretation sim_passing: passing_kernel sim_kernel sim_sent sim_inbox sim_patience sim_messages sim_any
proof
  show "\<exists>j. 0 < j \<and> j \<le> length b \<and> bs = take j b \<and> c' = (if 20 \<le> cl then c else None)
        \<and> sim_messages fd w' = (if j < length b then (drop j b, None) # q else q)"
    if "sim_messages fd w = (b, c) # q" "b \<noteq> []" "0 < n"
      "k_recvmsg sim_kernel fd n cl w = (Ok (bs, c'), w')" for fd w b c q n cl bs c' w'
    using that(4)
    unfolding sim_fields
  proof (cases rule: sim_recvmsg_cases)
    case (ok m v b0 c0 q0)
    with that(1) have "b0 = b" "c0 = c" "q0 = q" by (auto simp: sim_messages_def dest!: grant_Ok)
    with ok that(2,3) show ?thesis
      by (intro exI [of _ "min m (length b)"]) (auto simp: sim_messages_def dest!: grant_Ok)
  next
    case (eof m)
    with that(1) grant_Ok [OF eof(1)] show ?thesis by (simp add: sim_messages_def)
  qed simp
  show "sim_messages fd w' = sim_messages fd w"
    if "k_recvmsg sim_kernel fd n cl w = (Fail e, w')" for fd n cl w e w'
    using that by (auto simp: sim_messages_def dest!: grant_Fail elim!: sim_recvmsg_cases)
  show "sim_any w' \<and> (\<forall>e. r = Fail e \<longrightarrow> e = EINTR \<or> e = EAGAIN)"
    if "k_recvmsg sim_kernel fd n cl w = (r, w')" for fd n cl w r w'
    using that by (auto simp: sim_any_def dest!: grant_transient elim!: sim_recvmsg_cases)
qed

definition sim_interest :: "int \<Rightarrow> int \<Rightarrow> sim \<Rightarrow> u32 option" where
  "sim_interest e fd w = map_of (registered w) fd"

lemma admit_sound:
  "distinct (map snd (admit regs seen evs)) \<and> snd ` set (admit regs seen evs) \<inter> set seen = {} \<and>
   (\<forall>ev \<in> set (admit regs seen evs). 0 \<le> snd ev \<and>
      (bit (fst ev) 0 \<longrightarrow> (\<exists>i. map_of regs (snd ev) = Some i \<and> bit i 0)))"
  by (induction regs seen evs rule: admit.induct) (auto split: option.splits)

lemma map_of_filter_neq: "map_of (filter (\<lambda>(f, _). f \<noteq> fd) xs) fd' = (if fd' = fd then None else map_of xs fd')"
  by (induction xs) auto

lemma sim_plain_interest: "plain_call sim_kernel A w w' \<Longrightarrow> registered w' = registered w"
  by (induction rule: plain_call.induct)
    (auto simp: sim_read_def sim_write_def sim_sendmsg_def sim_recvmsg_def grant_def
      split: list.splits sched.splits if_splits)

interpretation sim_epoll: epoll_kernel sim_kernel sim_interest
proof
  show "distinct (map snd evs) \<and> length evs \<le> n \<and>
      (\<forall>ev \<in> set evs. 0 \<le> snd ev \<and>
         (bit (fst ev) 0 \<longrightarrow> (\<exists>i. sim_interest e (snd ev) w = Some i \<and> bit i 0)))"
    if "k_epoll_wait sim_kernel e n t w = (Ok evs, w')" for e n t w evs w'
    using that admit_sound [of "registered w" "[]"]
    by (auto simp: sim_interest_def take_map [symmetric] split: list.splits dest!: in_set_takeD)
qed (auto simp: sim_interest_def map_of_filter_neq dest: sim_plain_interest split: epoll_op.splits)

text \<open>
  A variant that keeps track of the descriptors in use: a proposed number is taken only if
  it is free.
\<close>

definition take_fd :: "int \<Rightarrow> 'a \<Rightarrow> sim \<Rightarrow> 'a sysres \<times> sim" where
  "take_fd fd x w =
     (if 0 \<le> fd \<and> fd \<notin> set (open_fds w) then (Ok x, w\<lparr>open_fds := fd # open_fds w\<rparr>)
      else (Fail (EOTHER 24), w))"

definition sim_fd_kernel :: "sim kernel" where
  "sim_fd_kernel = sim_kernel\<lparr>
     k_accept := (\<lambda>fd w. case backlog w of
        [] \<Rightarrow> (Fail EAGAIN, w) | c # r \<Rightarrow> take_fd (fst c) c (w\<lparr>backlog := r\<rparr>)),
     k_socket := (\<lambda>d w. take_fd (next_fd w) (next_fd w) (w\<lparr>next_fd := next_fd w + 1\<rparr>)),
     k_close := (\<lambda>fd w. (Ok (), w\<lparr>open_fds := removeAll fd (open_fds w)\<rparr>))\<rparr>"

definition sim_opened :: "sim \<Rightarrow> int set" where
  "sim_opened w = set (open_fds w)"

lemma grant_open_fds: "grant n w = (r, w') \<Longrightarrow> open_fds w' = open_fds w"
  by (auto simp: grant_def split: list.splits sched.splits)

interpretation sim_fd: fd_kernel sim_fd_kernel sim_opened
  by unfold_locales
    (auto simp: sim_fd_kernel_def sim_opened_def take_fd_def grant_open_fds
      split: list.splits if_splits elim!: sim_read_cases sim_write_cases)

lemma sim_fd_fields:
  "k_read sim_fd_kernel = k_read sim_kernel" "k_write sim_fd_kernel = k_write sim_kernel"
  "k_sendmsg sim_fd_kernel = k_sendmsg sim_kernel" "k_recvmsg sim_fd_kernel = k_recvmsg sim_kernel"
  "k_epoll_create sim_fd_kernel = k_epoll_create sim_kernel" "k_epoll_ctl sim_fd_kernel = k_epoll_ctl sim_kernel"
  "k_epoll_wait sim_fd_kernel = k_epoll_wait sim_kernel" "k_fcntl_getfd sim_fd_kernel = k_fcntl_getfd sim_kernel"
  "k_fcntl_setfl sim_fd_kernel = k_fcntl_setfl sim_kernel"
  "k_setsockopt_reuseaddr sim_fd_kernel = k_setsockopt_reuseaddr sim_kernel" "k_bind sim_fd_kernel = k_bind sim_kernel"
  "k_listen sim_fd_kernel = k_listen sim_kernel" "k_connect sim_fd_kernel = k_connect sim_kernel"
  "k_gethostbyname sim_fd_kernel = k_gethostbyname sim_kernel" "k_unlink sim_fd_kernel = k_unlink sim_kernel"
  "k_stat sim_fd_kernel = k_stat sim_kernel" "k_chmod sim_fd_kernel = k_chmod sim_kernel"
  "k_signal_ignore sim_fd_kernel = k_signal_ignore sim_kernel" "k_access sim_fd_kernel = k_access sim_kernel"
  "k_uninit sim_fd_kernel = k_uninit sim_kernel" "k_getpid sim_fd_kernel = k_getpid sim_kernel"
  "k_accept sim_fd_kernel = (\<lambda>fd w. case backlog w of
        [] \<Rightarrow> (Fail EAGAIN, w) | c # r \<Rightarrow> take_fd (fst c) c (w\<lparr>backlog := r\<rparr>))"
  "k_socket sim_fd_kernel = (\<lambda>d w. take_fd (next_fd w) (next_fd w) (w\<lparr>next_fd := next_fd w + 1\<rparr>))"
  "k_close sim_fd_kernel = (\<lambda>fd w. (Ok (), w\<lparr>open_fds := removeAll fd (open_fds w)\<rparr>))"
  by (simp_all add: sim_fd_kernel_def)

text \<open>What a call that leaves a descriptor alone keeps of it.\<close>

lemma sim_fd_plain:
  assumes "plain_call sim_fd_kernel A w w'"
  shows "registered w' = registered w"
    and "fd \<notin> A \<Longrightarrow> fd \<in> sim_opened w \<Longrightarrow> fd \<in> sim_opened w' \<and> inq w' fd = inq w fd \<and> outq w' fd = outq w fd"
  using assms
  by (induction rule: plain_call.induct)
    (auto simp: sim_fd_fields sim_read_def sim_write_def sim_sendmsg_def sim_recvmsg_def grant_def take_fd_def sim_opened_def
      split: list.splits sched.splits if_splits)

interpretation sim_fd_stream: calm_stream sim_fd_kernel sim_incoming sim_outgoing sim_patience sim_calm
  by (unfold_locales; unfold sim_fd_fields;
      fact sim_k.read_Ok sim_k.read_eof sim_k.read_Fail sim_k.read_transient sim_k.write_Ok sim_k.write_progress
        sim_k.write_Fail sim_k.write_transient sim_k.read_frame sim_k.write_frame sim_calm_k.calm_read
        sim_calm_k.calm_write)

interpretation sim_fd_epoll: epoll_kernel sim_fd_kernel sim_interest
proof
  show "sim_interest e fd w' = sim_interest e fd w \<or> sim_interest e fd w' = None"
    if "plain_call sim_fd_kernel A w w'" for A w w' e fd
    using sim_fd_plain(1) [OF that] by (simp add: sim_interest_def)
qed (unfold sim_fd_fields; fact sim_epoll.ctl_Ok sim_epoll.ctl_Fail sim_epoll.wait_Ok)+

interpretation sim_fd_select: select_kernel sim_fd_kernel
  by unfold_locales (auto simp: sim_fd_kernel_def split: list.splits)

end
