(* ===== verification/Inet_Conn.thy ===== *)
theory Inet_Conn
  imports Sim_Kernel
begin

text \<open>
  The TCP connection object of the server (\<open>hot_upgrade_demo/inet_conn.h\<close>,
  \<open>inet_conn.cc\<close>): a request is a four-byte length followed by that many bytes, read
  incrementally into a one-megabyte buffer; the reply is the request body, written back
  incrementally.

  The lemmas show that no byte of the stream is lost or invented by \<open>GetRequest\<close> and
  \<open>SendReply\<close> whatever the sizes of the kernel's transfers, that repeated calls deliver
  exactly the framed message, that the position fields stay inside the buffers, and for
  which length fields the overflow guard of \<open>GetRequest\<close> fails.
\<close>

section \<open>Data\<close>

datatype ReadStatus =
  kReadHalf | kReadAll | kReadError | kReadClose | kFullError | kParseError | kDealError

datatype WriteStatus = kWriteHalf | kWriteAll | kWriteError

definition READ_BUFFER_SIZE :: size_t where "READ_BUFFER_SIZE = 1024 * 1024"

definition HEADER_LEN :: size_t where "HEADER_LEN = 4"

record InetConn =
  conn_fd :: int
  ip_port :: string
  last_read_pos :: size_t
  read_buf :: "nat \<Rightarrow> byte"
  last_write_pos :: size_t
  reply :: "byte list"

text \<open>The constructor leaves the array as the allocator delivered it (\<open>junk\<close>).\<close>

definition new_InetConn :: "(nat \<Rightarrow> byte) \<Rightarrow> int \<Rightarrow> string \<Rightarrow> InetConn" where
  "new_InetConn junk fd ip = \<lparr>conn_fd = fd, ip_port = ip, last_read_pos = 0,
     read_buf = junk, last_write_pos = 0, reply = []\<rparr>"

section \<open>Operations\<close>

text \<open>
  Field names drop the trailing underscore of the C++ members (\<open>fd_\<close> is \<open>conn_fd\<close>).
\<close>

definition O_NONBLOCK :: u32 where "O_NONBLOCK = 0x800"

text \<open>
  The inner \<open>fcntl\<close> returns \<open>-1\<close> on failure, which \<open>|\<close> turns into all ones; the result is
  converted to \<open>bool\<close>, so a failure (\<open>return -1\<close>) is \<open>true\<close> and success is \<open>false\<close>.
\<close>

definition SetNonblock :: "'w kernel \<Rightarrow> InetConn \<Rightarrow> 'w proc \<Rightarrow> bool \<times> 'w proc" where
  "SetNonblock k c s =
     (let (r, s1) = syscall (k_fcntl_getfd k (conn_fd c)) s;
          flags = (case r of None \<Rightarrow> - 1 | Some f \<Rightarrow> f)
      in case syscall (k_fcntl_setfl k (conn_fd c) (flags OR O_NONBLOCK)) s1 of
           (None, s2) \<Rightarrow> (True, s2)
         | (Some _, s2) \<Rightarrow> (False, s2))"

definition EmptyReadBuf :: "InetConn \<Rightarrow> bool" where
  "EmptyReadBuf c \<longleftrightarrow> last_read_pos c = 0"

definition IpPort :: "InetConn \<Rightarrow> string" where
  "IpPort c = ip_port c"

text \<open>
  \<open>read(conn_fd, read_buf + last_read_pos, cnt)\<close> followed by the five-way treatment of its
  result that \<open>GetRequest\<close> performs twice: \<open>Inl\<close> is the early return, \<open>Inr\<close> the connection
  with the position advanced.  A transfer that does not fit the array is a fault.
\<close>

definition read_step :: "'w kernel \<Rightarrow> size_t \<Rightarrow> InetConn \<Rightarrow> 'w proc
    \<Rightarrow> ((ReadStatus + InetConn) \<times> 'w proc) outcome" where
  "read_step k cnt c s = (case sys_read k (conn_fd c) (unat cnt) s of
     (None, s') \<Rightarrow> Ret (Inl (if errno s' = EAGAIN then kReadHalf else kReadError), s')
   | (Some bs, s') \<Rightarrow>
       if bs = [] then Ret (Inl kReadClose, s')
       else if unat READ_BUFFER_SIZE < unat (last_read_pos c) + length bs then Fault BufferOverflow
       else Ret (Inr (c\<lparr>read_buf := store (read_buf c) (unat (last_read_pos c)) bs,
                        last_read_pos := last_read_pos c + of_nat (length bs)\<rparr>), s'))"

text \<open>\<open>int request_len; memcpy(&request_len, read_buf, HEADER_LEN)\<close>, then widened to \<open>size_t\<close>.\<close>

definition request_len :: "InetConn \<Rightarrow> int32" where
  "request_len c = word32_of_bytes (load (read_buf c) 0 4)"

definition GetHeader :: "'w kernel \<Rightarrow> InetConn \<Rightarrow> 'w proc
    \<Rightarrow> (ReadStatus option \<times> InetConn \<times> 'w proc) outcome" where
  "GetHeader k c s =
     (if last_read_pos c < HEADER_LEN then
        case read_step k (HEADER_LEN - last_read_pos c) c s of
          Ret (Inl st, s') \<Rightarrow> Ret (Some st, c, s')
        | Ret (Inr c', s') \<Rightarrow>
            Ret (if last_read_pos c' < HEADER_LEN then Some kReadHalf else None, c', s')
        | Exit n \<Rightarrow> Exit n
        | Fault f \<Rightarrow> Fault f
      else Ret (None, c, s))"

definition GetBody :: "'w kernel \<Rightarrow> InetConn \<Rightarrow> 'w proc
    \<Rightarrow> (ReadStatus \<times> InetConn \<times> 'w proc) outcome" where
  "GetBody k c s =
     (let len = scast (request_len c) :: size_t in
      if READ_BUFFER_SIZE < len + HEADER_LEN then Ret (kFullError, c, s)
      else case read_step k (len + HEADER_LEN - last_read_pos c) c s of
          Ret (Inl st, s') \<Rightarrow> Ret (st, c, s')
        | Ret (Inr c', s') \<Rightarrow>
            if last_read_pos c' < HEADER_LEN + len then Ret (kReadHalf, c', s')
            else if sint (request_len c) < 0 then Fault LengthError
            else Ret (kReadAll, c'\<lparr>reply := load (read_buf c') 4 (unat len),
                                   last_read_pos := 0\<rparr>, s')
        | Exit n \<Rightarrow> Exit n
        | Fault f \<Rightarrow> Fault f)"

definition GetRequest :: "'w kernel \<Rightarrow> InetConn \<Rightarrow> 'w proc
    \<Rightarrow> (ReadStatus \<times> InetConn \<times> 'w proc) outcome" where
  "GetRequest k c s = (case GetHeader k c s of
       Ret (Some st, c', s') \<Rightarrow> Ret (st, c', s')
     | Ret (None, c', s') \<Rightarrow> GetBody k c' s'
     | Exit n \<Rightarrow> Exit n
     | Fault f \<Rightarrow> Fault f)"

definition SendReply :: "'w kernel \<Rightarrow> InetConn \<Rightarrow> 'w proc \<Rightarrow> WriteStatus \<times> InetConn \<times> 'w proc" where
  "SendReply k c s =
     (let cnt = of_nat (length (reply c)) - last_write_pos c :: size_t in
      case sys_write k (conn_fd c) (take (unat cnt) (drop (unat (last_write_pos c)) (reply c))) s of
        (None, s') \<Rightarrow> (if errno s' = EAGAIN then kWriteHalf else kWriteError, c, s')
      | (Some n, s') \<Rightarrow>
          (let c' = c\<lparr>last_write_pos := last_write_pos c + of_nat n\<rparr> in
           if last_write_pos c' < of_nat (length (reply c)) then (kWriteHalf, c', s')
           else (kWriteAll, c'\<lparr>reply := [], last_write_pos := 0\<rparr>, s')))"

lemmas InetConn_eval = GetRequest_def GetHeader_def GetBody_def read_step_def new_InetConn_def
  request_len_def load_4 store_def word32_of_bytes_def HEADER_LEN_def READ_BUFFER_SIZE_def Let_def
  sim_defs

section \<open>Vocabulary of the specification\<close>

text \<open>
  \<open>frame\<close> is the wire format of a request.  \<open>received\<close> is the part of the current frame
  already in the buffer, \<open>unsent\<close> the part of the reply not yet accepted by the kernel.
  \<open>conn_inv\<close> bounds the read position by the end of the frame being received once its
  length is known; \<open>reply_inv\<close> bounds the write position by the reply.  \<open>wraps\<close> singles out
  the length fields \<open>-4, \<dots>, -1\<close>, for which the unsigned sum in the guard of \<open>GetRequest\<close>
  wraps around.
\<close>

definition frame :: "byte list \<Rightarrow> byte list" where
  "frame msg = bytes_of_word32 (of_nat (length msg)) @ msg"

definition received :: "InetConn \<Rightarrow> byte list" where
  "received c = load (read_buf c) 0 (unat (last_read_pos c))"

definition unsent :: "InetConn \<Rightarrow> byte list" where
  "unsent c = drop (unat (last_write_pos c)) (reply c)"

definition conn_inv :: "InetConn \<Rightarrow> bool" where
  "conn_inv c \<longleftrightarrow> unat (last_read_pos c) \<le> 4 \<or>
     (0 \<le> sint (request_len c) \<and> sint (request_len c) + 4 \<le> 1048576
      \<and> unat (last_read_pos c) < nat (sint (request_len c)) + 4)"

definition reply_inv :: "InetConn \<Rightarrow> bool" where
  "reply_inv c \<longleftrightarrow> length (reply c) \<le> 1048576 \<and>
     (unat (last_write_pos c) < length (reply c) \<or> last_write_pos c = 0)"

definition wraps :: "byte list \<Rightarrow> bool" where
  "wraps bs \<longleftrightarrow> 4 \<le> length bs \<and> - 4 \<le> sint (word32_of_bytes (take 4 bs))
     \<and> sint (word32_of_bytes (take 4 bs)) < 0"

text \<open>
  The event loop calls \<open>GetRequest\<close> once per readable event as long as it answers
  \<open>kReadHalf\<close>, and \<open>SendReply\<close> once per writable event as long as it answers \<open>kWriteHalf\<close>.
\<close>

fun pump :: "nat \<Rightarrow> 'w kernel \<Rightarrow> InetConn \<Rightarrow> 'w proc \<Rightarrow> (ReadStatus \<times> InetConn \<times> 'w proc) outcome" where
  "pump 0 k c s = GetRequest k c s"
| "pump (Suc n) k c s = (case GetRequest k c s of
     Ret (kReadHalf, c', s') \<Rightarrow> pump n k c' s' | r \<Rightarrow> r)"

fun push :: "nat \<Rightarrow> 'w kernel \<Rightarrow> InetConn \<Rightarrow> 'w proc \<Rightarrow> WriteStatus \<times> InetConn \<times> 'w proc" where
  "push 0 k c s = SendReply k c s"
| "push (Suc n) k c s = (case SendReply k c s of
     (kWriteHalf, c', s') \<Rightarrow> push n k c' s' | r \<Rightarrow> r)"

section \<open>Arithmetic of the length field\<close>

lemma uint_frame_end: "uint (scast r + 4 :: 64 word) = (sint (r :: 32 word) + 4) mod 2 ^ 64"
proof -
  have "scast r + 4 = (word_of_int (sint r + 4) :: 64 word)"
    by simp
  moreover have "uint (word_of_int (sint r + 4) :: 64 word) = (sint r + 4) mod 2 ^ LENGTH(64)"
    by (rule uint_word_of_int)
  ultimately show ?thesis by simp
qed

lemma unat_frame_end:
  assumes "- 4 \<le> sint (r :: 32 word)"
  shows "unat (scast r + 4 :: 64 word) = nat (sint r + 4)"
proof -
  have "(sint r + 4) mod 2 ^ 64 = sint r + 4"
    using assms sint32_bounds [of r] by (intro mod_pos_pos_trivial) auto
  then show ?thesis by (metis uint_frame_end unat_eq_nat_uint)
qed

lemma frame_end_negative:
  assumes "sint (r :: 32 word) < - 4"
  shows "2 ^ 63 < uint (scast r + 4 :: 64 word)"
proof -
  have "(sint r + 4) mod 2 ^ 64 = (sint r + 4 + 2 ^ 64) mod 2 ^ 64" by (simp only: mod_add_self2)
  also have "\<dots> = sint r + 4 + 2 ^ 64"
    using assms sint32_bounds [of r] by (intro mod_pos_pos_trivial) auto
  finally show ?thesis
    using sint32_bounds [of r] by (simp add: uint_frame_end)
qed

lemma guard_iff:
  "READ_BUFFER_SIZE < scast (r :: int32) + HEADER_LEN \<longleftrightarrow> sint r < - 4 \<or> 1048576 < sint r + 4"
proof (cases "sint r < - 4")
  case True
  then show ?thesis using frame_end_negative [OF True]
    by (simp add: READ_BUFFER_SIZE_def HEADER_LEN_def word_less_def)
next
  case False
  then have "unat (scast r + 4 :: size_t) = nat (sint r + 4)"
    by (intro unat_frame_end) simp
  with False show ?thesis
    by (auto simp add: READ_BUFFER_SIZE_def HEADER_LEN_def word_less_nat_alt)
qed

lemma unat_READ_BUFFER_SIZE [simp]: "unat READ_BUFFER_SIZE = 1048576"
  by (simp add: READ_BUFFER_SIZE_def)

lemma unat_HEADER_LEN [simp]: "unat HEADER_LEN = 4"
  by (simp add: HEADER_LEN_def)

lemma unat_add_small:
  "unat (p :: size_t) + n \<le> 1048576 \<Longrightarrow> unat (p + of_nat n) = unat p + n"
  by (simp add: unat_word_ariths unat_of_nat)

section \<open>One read\<close>

lemma read_step_InrD:
  assumes "read_step k cnt c s = Ret (Inr c', s')"
  obtains bs where "sys_read k (conn_fd c) (unat cnt) s = (Some bs, s')" and "bs \<noteq> []"
    and "unat (last_read_pos c) + length bs \<le> 1048576"
    and "c' = c\<lparr>read_buf := store (read_buf c) (unat (last_read_pos c)) bs,
               last_read_pos := last_read_pos c + of_nat (length bs)\<rparr>"
    and "unat (last_read_pos c') = unat (last_read_pos c) + length bs"
    and "received c' = received c @ bs"
proof -
  from assms obtain bs where *: "sys_read k (conn_fd c) (unat cnt) s = (Some bs, s')" "bs \<noteq> []"
      "unat (last_read_pos c) + length bs \<le> 1048576"
    and c': "c' = c\<lparr>read_buf := store (read_buf c) (unat (last_read_pos c)) bs,
               last_read_pos := last_read_pos c + of_nat (length bs)\<rparr>"
    by (auto simp: read_step_def split: prod.splits option.splits if_splits)
  moreover from * c' have pos: "unat (last_read_pos c') = unat (last_read_pos c) + length bs"
    by (simp add: unat_add_small)
  moreover from pos have "received c' = received c @ bs"
    by (simp add: received_def c' mem_simps)
  ultimately show thesis using that by blast
qed

lemma read_step_InlD:
  assumes "read_step k cnt c s = Ret (Inl st, s')"
  shows "sys_read k (conn_fd c) (unat cnt) s = (None, s') \<and>
           st = (if errno s' = EAGAIN then kReadHalf else kReadError)
       \<or> sys_read k (conn_fd c) (unat cnt) s = (Some [], s') \<and> st = kReadClose"
  using assms by (auto simp: read_step_def split: prod.splits option.splits if_splits)

lemma request_len_stable:
  assumes "4 \<le> unat (last_read_pos c)"
  shows "request_len (c\<lparr>read_buf := store (read_buf c) (unat (last_read_pos c)) bs,
           last_read_pos := p\<rparr>) = request_len c"
  using assms by (simp add: request_len_def load_store_below)

lemma request_len_received:
  "4 \<le> unat (last_read_pos c) \<Longrightarrow> request_len c = word32_of_bytes (take 4 (received c))"
  by (simp add: request_len_def received_def take_load)

lemma unat_remaining:
  assumes "0 \<le> sint (r :: 32 word)" and "unat p \<le> nat (sint r) + 4"
  shows "unat (scast r + HEADER_LEN - p :: size_t) = nat (sint r) + 4 - unat p"
proof -
  have e: "unat (scast r + HEADER_LEN :: size_t) = nat (sint r) + 4"
    using assms(1) unat_frame_end [of r] by (simp add: HEADER_LEN_def nat_add_distrib)
  with assms have "p \<le> scast r + HEADER_LEN" by (simp add: word_le_nat_alt)
  then show ?thesis by (simp add: unat_sub e)
qed

lemma GetRequest_cases:
  assumes "GetRequest k c s = Ret (st, c', s')"
  obtains (header) "GetHeader k c s = Ret (Some st, c', s')"
    | (body) d t where "GetHeader k c s = Ret (None, d, t)" and "GetBody k d t = Ret (st, c', s')"
  using assms by (auto simp: GetRequest_def split: outcome.splits option.splits prod.splits)

text \<open>What every \<open>read\<close> of the connection keeps, \<open>GetRequest\<close> keeps; likewise \<open>SendReply\<close>.\<close>

lemma syscall_keeps:
  assumes "syscall f s = (r, s')" and "\<And>x w'. f (world s) = (x, w') \<Longrightarrow> P w'"
  shows "P (world s')"
  using assms by (auto simp: syscall_def split: prod.splits sysres.splits)

lemma read_step_reads:
  assumes "read_step k cnt c s = Ret (r, s')"
    and "\<And>n w x w'. k_read k (conn_fd c) n w = (x, w') \<Longrightarrow> P w \<Longrightarrow> P w'" and "P (world s)"
  shows "P (world s')"
proof -
  obtain q where q: "sys_read k (conn_fd c) (unat cnt) s = (q, s')"
    using assms(1) by (auto simp: read_step_def split: prod.splits option.splits if_splits)
  from q show ?thesis by (rule syscall_keeps) (use assms(2,3) in blast)
qed

lemma read_step_fd: "read_step k cnt c s = Ret (Inr c', s') \<Longrightarrow> conn_fd c' = conn_fd c"
  by (auto elim: read_step_InrD)

lemma GetHeader_fd: "GetHeader k c s = Ret (r, d, t) \<Longrightarrow> conn_fd d = conn_fd c"
  by (auto simp: GetHeader_def split: outcome.splits sum.splits if_splits dest: read_step_fd)

lemma GetRequest_reads:
  assumes "GetRequest k c s = Ret (st, c', s')"
    and P: "\<And>n w x w'. k_read k (conn_fd c) n w = (x, w') \<Longrightarrow> P w \<Longrightarrow> P w'" and "P (world s)"
  shows "P (world s')"
proof -
  have h: "P (world t)" if "GetHeader k c s = Ret (r, d, t)" for r d t
    using that assms(3) P by (auto simp: GetHeader_def split: outcome.splits sum.splits if_splits
        dest!: read_step_reads [where P = P])
  have b: "P (world s')" if "GetBody k d t = Ret (st, c', s')" "P (world t)" "conn_fd d = conn_fd c" for d t
    using that P by (auto simp: GetBody_def Let_def split: outcome.splits sum.splits if_splits
        dest!: read_step_reads [where P = P])
  from assms(1) show ?thesis
    by (cases rule: GetRequest_cases) (use h b GetHeader_fd in blast)+
qed

lemma SendReply_writes:
  assumes "SendReply k c s = (st, c', s')"
    and P: "\<And>bs w x w'. k_write k (conn_fd c) bs w = (x, w') \<Longrightarrow> P w \<Longrightarrow> P w'" and "P (world s)"
  shows "P (world s')"
proof -
  obtain q bs where q: "sys_write k (conn_fd c) bs s = (q, s')"
    using assms(1) by (auto simp: SendReply_def Let_def split: prod.splits option.splits if_splits)
  from q show ?thesis by (rule syscall_keeps) (use assms(2,3) in blast)
qed

context read_kernel
begin

abbreviation (input) stream :: "InetConn \<Rightarrow> 'w proc \<Rightarrow> byte list" where
  "stream c s \<equiv> received c @ incoming (conn_fd c) (world s)"

abbreviation (input) energy :: "InetConn \<Rightarrow> 'w proc \<Rightarrow> nat" where
  "energy c s \<equiv> patience (world s) + length (incoming (conn_fd c) (world s))"

abbreviation (input) keeps :: "InetConn \<Rightarrow> 'w proc \<Rightarrow> InetConn \<Rightarrow> 'w proc \<Rightarrow> bool" where
  "keeps c s c' s' \<equiv> stream c' s' = stream c s \<and> conn_fd c' = conn_fd c \<and> reply c' = reply c
     \<and> last_write_pos c' = last_write_pos c \<and> energy c' s' \<le> energy c s"

lemma read_step_Inr:
  assumes "read_step k cnt c s = Ret (Inr c', s')"
  shows "keeps c s c' s'" and "energy c' s' < energy c s"
    and "unat (last_read_pos c) < unat (last_read_pos c')"
    and "unat (last_read_pos c') \<le> unat (last_read_pos c) + unat cnt"
    and "4 \<le> unat (last_read_pos c) \<Longrightarrow> request_len c' = request_len c"
proof -
  from assms obtain bs where bs: "sys_read k (conn_fd c) (unat cnt) s = (Some bs, s')" "bs \<noteq> []"
    and c': "c' = c\<lparr>read_buf := store (read_buf c) (unat (last_read_pos c)) bs,
               last_read_pos := last_read_pos c + of_nat (length bs)\<rparr>"
    and pos: "unat (last_read_pos c') = unat (last_read_pos c) + length bs"
    and rcv: "received c' = received c @ bs"
    by (rule read_step_InrD)
  show e: "energy c' s' < energy c s"
    using sys_read_energy_Some [OF bs] by (simp add: c')
  show "keeps c s c' s'"
    using e sys_read_Some(2) [OF bs(1)] rcv by (simp add: c')
  show "unat (last_read_pos c) < unat (last_read_pos c')" using pos bs(2) by simp
  show "unat (last_read_pos c') \<le> unat (last_read_pos c) + unat cnt"
    using pos sys_read_Some(1) [OF bs(1)] by simp
  show "request_len c' = request_len c" if "4 \<le> unat (last_read_pos c)"
    unfolding c' using that by (rule request_len_stable)
qed

lemma read_step_Inl:
  assumes "read_step k cnt c s = Ret (Inl st, s')"
  shows "keeps c s c s'" and "st = kReadHalf \<Longrightarrow> energy c s' < energy c s"
    and "st \<in> {kReadHalf, kReadError, kReadClose}"
    and "st = kReadClose \<Longrightarrow> 0 < cnt \<Longrightarrow> incoming (conn_fd c) (world s) = []"
proof -
  obtain r where r: "sys_read k (conn_fd c) (unat cnt) s = (r, s')"
    and cases: "r = None \<and> st = (if errno s' = EAGAIN then kReadHalf else kReadError)
      \<or> r = Some [] \<and> st = kReadClose"
    using read_step_InlD [OF assms] by blast
  have "incoming (conn_fd c) (world s') = incoming (conn_fd c) (world s)"
    using cases r sys_read_Some(2) sys_read_None(1) by fastforce
  with sys_read_energy [OF r] show "keeps c s c s'" by simp
  show "energy c s' < energy c s" if "st = kReadHalf"
    using that cases r sys_read_energy_None by (auto split: if_splits)
  show "st \<in> {kReadHalf, kReadError, kReadClose}" using cases by auto
  show "incoming (conn_fd c) (world s) = []" if "st = kReadClose" "0 < cnt"
    using that cases r sys_read_Some(4) by (auto simp: unat_gt_0 split: if_splits)
qed

lemma read_step_no_fault:
  assumes "unat (last_read_pos c) + unat cnt \<le> 1048576"
  shows "\<exists>r. read_step k cnt c s = Ret r"
  using assms by (auto simp: read_step_def split: prod.splits option.splits dest!: sys_read_Some(1))

lemma GetHeader_cases:
  assumes "GetHeader k c s = Ret (r, c', s')"
  obtains (full) "4 \<le> unat (last_read_pos c)" and "r = None" and "c' = c" and "s' = s"
    | (stop) st where "unat (last_read_pos c) < 4" and "r = Some st" and "c' = c"
        and "read_step k (HEADER_LEN - last_read_pos c) c s = Ret (Inl st, s')"
    | (part) "unat (last_read_pos c) < 4" and "unat (last_read_pos c') \<le> 4"
        and "read_step k (HEADER_LEN - last_read_pos c) c s = Ret (Inr c', s')"
        and "r = (if unat (last_read_pos c') < 4 then Some kReadHalf else None)"
proof (cases "last_read_pos c < HEADER_LEN")
  case True
  then have cnt: "unat (last_read_pos c) + unat (HEADER_LEN - last_read_pos c) = 4"
    by (simp add: unat_sub word_less_nat_alt word_le_nat_alt)
  from True assms consider st where "read_step k (HEADER_LEN - last_read_pos c) c s = Ret (Inl st, s')"
      "r = Some st" "c' = c"
    | "read_step k (HEADER_LEN - last_read_pos c) c s = Ret (Inr c', s')"
      "r = (if unat (last_read_pos c') < 4 then Some kReadHalf else None)"
    by (auto simp: GetHeader_def word_less_nat_alt split: outcome.splits sum.splits prod.splits)
  then show thesis
  proof cases
    case 1
    then show thesis using stop True by (simp add: word_less_nat_alt)
  next
    case 2
    then show thesis using part True read_step_Inr(4) [OF 2(1)] cnt by (simp add: word_less_nat_alt)
  qed
next
  case False
  with assms show thesis
    by (intro full) (auto simp: GetHeader_def word_less_nat_alt)
qed

lemma GetHeader_keeps:
  assumes "GetHeader k c s = Ret (r, c', s')" and "conn_inv c"
  shows "keeps c s c' s'" and "conn_inv c'"
    and "r = Some kReadHalf \<Longrightarrow> energy c' s' < energy c s"
    and "r \<in> {None, Some kReadHalf, Some kReadError, Some kReadClose}"
    and "r = None \<Longrightarrow> 4 \<le> unat (last_read_pos c')"
proof -
  have "keeps c s c' s' \<and> conn_inv c' \<and> (r = Some kReadHalf \<longrightarrow> energy c' s' < energy c s)
    \<and> r \<in> {None, Some kReadHalf, Some kReadError, Some kReadClose}
    \<and> (r = None \<longrightarrow> 4 \<le> unat (last_read_pos c'))"
    using assms(1)
  proof (cases rule: GetHeader_cases)
    case full
    then show ?thesis using assms(2) by simp
  next
    case (stop st)
    then show ?thesis using read_step_Inl [OF stop(4)] assms(2) by auto
  next
    case part
    then show ?thesis using read_step_Inr [OF part(3)] by (auto simp: conn_inv_def)
  qed
  then show "keeps c s c' s'" and "conn_inv c'"
    and "r = Some kReadHalf \<Longrightarrow> energy c' s' < energy c s"
    and "r \<in> {None, Some kReadHalf, Some kReadError, Some kReadClose}"
    and "r = None \<Longrightarrow> 4 \<le> unat (last_read_pos c')" by blast+
qed

text \<open>The length field passes the guard of \<open>GetRequest\<close>.\<close>

abbreviation (input) fits :: "InetConn \<Rightarrow> bool" where
  "fits c \<equiv> - 4 \<le> sint (request_len c) \<and> sint (request_len c) + 4 \<le> 1048576"

lemma GetBody_cases:
  assumes "GetBody k c s = Ret (st, c', s')" and pos: "4 \<le> unat (last_read_pos c)"
  obtains (full) "\<not> fits c" and "st = kFullError" and "c' = c" and "s' = s"
    | (stop) "fits c" and "c' = c"
        and "read_step k (scast (request_len c) + HEADER_LEN - last_read_pos c) c s = Ret (Inl st, s')"
    | (half) "fits c" and "0 \<le> sint (request_len c)" and "st = kReadHalf"
        and "read_step k (scast (request_len c) + HEADER_LEN - last_read_pos c) c s = Ret (Inr c', s')"
        and "unat (last_read_pos c') < nat (sint (request_len c)) + 4"
    | (all) d where "fits c" and "0 \<le> sint (request_len c)" and "st = kReadAll"
        and "read_step k (scast (request_len c) + HEADER_LEN - last_read_pos c) c s = Ret (Inr d, s')"
        and "nat (sint (request_len c)) + 4 \<le> unat (last_read_pos d)"
        and "c' = d\<lparr>reply := load (read_buf d) 4 (nat (sint (request_len c))), last_read_pos := 0\<rparr>"
proof (cases "fits c")
  case False
  then have "READ_BUFFER_SIZE < scast (request_len c) + HEADER_LEN"
    by (auto simp: guard_iff)
  with assms False show thesis by (intro full) (auto simp: GetBody_def)
next
  case True
  let ?rd = "read_step k (scast (request_len c) + HEADER_LEN - last_read_pos c) c s"
  from True have g: "\<not> READ_BUFFER_SIZE < scast (request_len c) + HEADER_LEN"
    by (auto simp: guard_iff)
  have e: "unat (HEADER_LEN + scast (request_len c)) = nat (sint (request_len c) + 4)"
    using unat_frame_end [of "request_len c"] True by (simp add: HEADER_LEN_def add.commute)
  from assms(1) g consider "?rd = Ret (Inl st, s')" "c' = c"
    | d where "?rd = Ret (Inr d, s')" "last_read_pos d < HEADER_LEN + scast (request_len c)"
        "st = kReadHalf" "c' = d"
    | d where "?rd = Ret (Inr d, s')" "\<not> last_read_pos d < HEADER_LEN + scast (request_len c)"
        "0 \<le> sint (request_len c)" "st = kReadAll"
        "c' = d\<lparr>reply := load (read_buf d) 4 (unat (scast (request_len c) :: size_t)), last_read_pos := 0\<rparr>"
    by (auto simp: GetBody_def Let_def split: outcome.splits sum.splits prod.splits if_splits)
  then show thesis
  proof cases
    case 1
    then show thesis using stop True by blast
  next
    case (2 d)
    then have lt: "unat (last_read_pos d) < nat (sint (request_len c) + 4)"
      using e by (simp add: word_less_nat_alt)
    with read_step_Inr(3) [OF 2(1)] pos have "0 \<le> sint (request_len c)" by linarith
    with lt 2 True show thesis by (intro half) (auto simp: nat_add_distrib)
  next
    case (3 d)
    then have "nat (sint (request_len c)) + 4 \<le> unat (last_read_pos d)"
      using e by (simp add: word_less_nat_alt nat_add_distrib)
    with 3 True show thesis by (intro all) (auto simp: unat_scast_nonneg)
  qed
qed

lemma GetBody_keeps:
  assumes "GetBody k c s = Ret (st, c', s')" and "conn_inv c" and "4 \<le> unat (last_read_pos c)"
    and "st \<noteq> kReadAll"
  shows "keeps c s c' s'" and "conn_inv c'"
    and "st = kReadHalf \<Longrightarrow> energy c' s' < energy c s"
proof -
  have "keeps c s c' s' \<and> conn_inv c' \<and> (st = kReadHalf \<longrightarrow> energy c' s' < energy c s)"
    using assms(1,3)
  proof (cases rule: GetBody_cases)
    case full
    then show ?thesis using assms(2) by simp
  next
    case stop
    then show ?thesis using read_step_Inl [OF stop(3)] assms(2) by auto
  next
    case half
    then show ?thesis using read_step_Inr [OF half(4)] assms(3) by (auto simp: conn_inv_def)
  next
    case all
    then show ?thesis using assms(4) by simp
  qed
  then show "keeps c s c' s'" and "conn_inv c'"
    and "st = kReadHalf \<Longrightarrow> energy c' s' < energy c s" by blast+
qed

lemma GetBody_all:
  assumes "GetBody k c s = Ret (kReadAll, c', s')" and "conn_inv c" and "4 \<le> unat (last_read_pos c)"
  shows "stream c s = frame (reply c') @ incoming (conn_fd c) (world s')"
    and "last_read_pos c' = 0" and "conn_fd c' = conn_fd c" and "last_write_pos c' = last_write_pos c"
    and "reply c' \<noteq> []" and "length (reply c') + 4 \<le> 1048576"
proof -
  from assms(1,3) obtain d where f: "fits c" and nn: "0 \<le> sint (request_len c)"
    and rd: "read_step k (scast (request_len c) + HEADER_LEN - last_read_pos c) c s = Ret (Inr d, s')"
    and ge: "nat (sint (request_len c)) + 4 \<le> unat (last_read_pos d)"
    and c': "c' = d\<lparr>reply := load (read_buf d) 4 (nat (sint (request_len c))), last_read_pos := 0\<rparr>"
    by (cases rule: GetBody_cases) (auto dest: read_step_Inl(3))
  let ?n = "nat (sint (request_len c))"
  note Inr = read_step_Inr [OF rd]
  have "unat (last_read_pos c) \<le> ?n + 4"
    using assms(2,3) by (auto simp: conn_inv_def)
  then have "unat (last_read_pos d) \<le> ?n + 4"
    using Inr(4) unat_remaining [OF nn] by fastforce
  with ge have pos: "unat (last_read_pos d) = 4 + ?n" by simp
  have hdr: "load (read_buf d) 0 4 = bytes_of_word32 (of_nat ?n)"
    using Inr(5) [OF assms(3)] nn bytes_of_word32_inverse [of "load (read_buf d) 0 4"]
    by (simp add: request_len_def word32_of_nonneg)
  then have "received d = frame (reply c')"
    by (simp add: received_def pos load_split [of _ 0 4] frame_def c')
  with Inr(1) show "stream c s = frame (reply c') @ incoming (conn_fd c) (world s')" by auto
  show "reply c' \<noteq> []" using Inr(3) pos assms(3) by (simp add: c' flip: length_0_conv)
  show "length (reply c') + 4 \<le> 1048576" using f nn by (simp add: c')
  show "last_read_pos c' = 0" "conn_fd c' = conn_fd c" "last_write_pos c' = last_write_pos c"
    using Inr(1) by (simp_all add: c')
qed

lemma GetRequest_keeps:
  assumes "GetRequest k c s = Ret (st, c', s')" and "conn_inv c" and "st \<noteq> kReadAll"
  shows "keeps c s c' s'" and "conn_inv c'" and "st = kReadHalf \<Longrightarrow> energy c' s' < energy c s"
proof -
  have "keeps c s c' s' \<and> conn_inv c' \<and> (st = kReadHalf \<longrightarrow> energy c' s' < energy c s)"
    using assms(1)
  proof (cases rule: GetRequest_cases)
    case header
    then show ?thesis using GetHeader_keeps [OF header assms(2)] by auto
  next
    case (body d t)
    note h = GetHeader_keeps [OF body(1) assms(2)]
    note b = GetBody_keeps [OF body(2) h(2) h(5) assms(3)]
    from h b show ?thesis by fastforce
  qed
  then show "keeps c s c' s'" and "conn_inv c'" and "st = kReadHalf \<Longrightarrow> energy c' s' < energy c s"
    by blast+
qed

lemma GetRequest_all:
  assumes "GetRequest k c s = Ret (kReadAll, c', s')" and "conn_inv c"
  shows "stream c s = frame (reply c') @ incoming (conn_fd c) (world s')"
    and "last_read_pos c' = 0" and "conn_fd c' = conn_fd c" and "last_write_pos c' = last_write_pos c"
    and "reply c' \<noteq> []" and "length (reply c') + 4 \<le> 1048576"
proof -
  from assms obtain d t where h: "GetHeader k c s = Ret (None, d, t)" 
    and b: "GetBody k d t = Ret (kReadAll, c', s')"
    by (cases rule: GetRequest_cases) (auto dest: GetHeader_keeps(4))
  note H = GetHeader_keeps [OF h assms(2)]
  note B = GetBody_all [OF b H(2) H(5)]
  from H(1) B show "stream c s = frame (reply c') @ incoming (conn_fd c) (world s')"
    and "last_read_pos c' = 0" and "conn_fd c' = conn_fd c" and "last_write_pos c' = last_write_pos c"
    and "reply c' \<noteq> []" and "length (reply c') + 4 \<le> 1048576"
    by auto
qed

lemma GetHeader_no_fault: "\<exists>r. GetHeader k c s = Ret r"
proof (cases "last_read_pos c < HEADER_LEN")
  case True
  then have "unat (last_read_pos c) + unat (HEADER_LEN - last_read_pos c) = 4"
    by (simp add: unat_sub word_less_nat_alt word_le_nat_alt)
  then obtain r where "read_step k (HEADER_LEN - last_read_pos c) c s = Ret r"
    using read_step_no_fault by fastforce
  then show ?thesis by (auto simp: GetHeader_def split: sum.splits prod.splits)
qed (simp add: GetHeader_def)

lemma GetBody_no_fault:
  assumes "conn_inv c" and "4 \<le> unat (last_read_pos c)"
    and "\<not> (- 4 \<le> sint (request_len c) \<and> sint (request_len c) < 0)"
  shows "\<exists>r. GetBody k c s = Ret r"
proof (cases "fits c")
  case True
  with assms have nn: "0 \<le> sint (request_len c)" by auto
  have "unat (last_read_pos c) \<le> nat (sint (request_len c)) + 4"
    using assms(1,2) by (auto simp: conn_inv_def)
  from unat_remaining [OF nn this] True nn this
  have "unat (last_read_pos c) + unat (scast (request_len c) + HEADER_LEN - last_read_pos c) \<le> 1048576"
    by linarith
  then obtain r where "read_step k (scast (request_len c) + HEADER_LEN - last_read_pos c) c s = Ret r"
    using read_step_no_fault by blast
  with nn show ?thesis by (auto simp: GetBody_def Let_def split: sum.splits prod.splits)
qed (auto simp: GetBody_def guard_iff Let_def)

end

lemma wraps_request_len:
  assumes "4 \<le> unat (last_read_pos c)"
  shows "wraps (received c @ rest) \<longleftrightarrow> - 4 \<le> sint (request_len c) \<and> sint (request_len c) < 0"
proof -
  have "length (received c) = unat (last_read_pos c)" by (simp add: received_def)
  with assms show ?thesis by (simp add: wraps_def request_len_received)
qed

context read_kernel
begin

lemma GetRequest_no_fault:
  assumes "conn_inv c" and "\<not> wraps (stream c s)"
  shows "\<exists>r. GetRequest k c s = Ret r"
proof -
  obtain r d t where h: "GetHeader k c s = Ret (r, d, t)"
    using GetHeader_no_fault [of c s] by auto
  note H = GetHeader_keeps [OF h assms(1)]
  show ?thesis
  proof (cases r)
    case None
    with H(1,5) assms(2) have "\<not> (- 4 \<le> sint (request_len d) \<and> sint (request_len d) < 0)"
      by (metis wraps_request_len)
    with None H(2,5) obtain q where "GetBody k d t = Ret q"
      using GetBody_no_fault [of d t] by blast
    with h None show ?thesis by (cases q) (simp add: GetRequest_def)
  next
    case (Some st)
    with h show ?thesis by (simp add: GetRequest_def)
  qed
qed

end

section \<open>Delivery of whole frames\<close>

lemma frame_inject:
  assumes "frame a @ x = frame b @ y" and "length a < 2 ^ 32" and "length b < 2 ^ 32"
  shows "a = b" and "x = y"
proof -
  from assms(1) have "bytes_of_word32 (of_nat (length a)) = bytes_of_word32 (of_nat (length b))"
    and rest: "a @ x = b @ y"
    by (simp_all add: frame_def append_eq_append_conv)
  then have "(of_nat (length a) :: 32 word) = of_nat (length b)"
    by (metis word32_of_bytes_inverse)
  then have "unat (of_nat (length a) :: 32 word) = unat (of_nat (length b) :: 32 word)" by simp
  with assms(2,3) have "length a = length b" by (simp add: unat_of_nat)
  with rest show "a = b" and "x = y" by simp_all
qed

lemma length_frame [simp]: "length (frame msg) = length msg + 4"
  by (simp add: frame_def)

lemma frame_len_sint:
  assumes "length msg + 4 \<le> 1048576"
  shows "sint (word32_of_bytes (take 4 (frame msg @ rest))) = int (length msg)"
proof -
  have "take 4 (frame msg @ rest) = bytes_of_word32 (of_nat (length msg))"
    by (simp add: frame_def)
  moreover have "sint (of_nat (length msg) :: 32 word) = int (length msg)"
    using assms by (simp add: signed_of_nat signed_take_bit_int_eq_self)
  ultimately show ?thesis by simp
qed

text \<open>What the invariant says while a well-formed frame is on the wire.\<close>

context read_kernel
begin

lemma stream_request_len:
  assumes "stream c s = frame msg @ rest" and "length msg + 4 \<le> 1048576"
    and "4 \<le> unat (last_read_pos c)"
  shows "sint (request_len c) = int (length msg)"
proof -
  have "length (received c) = unat (last_read_pos c)" by (simp add: received_def)
  with assms(3) have "take 4 (received c) = take 4 (stream c s)" by simp
  with assms frame_len_sint [OF assms(2)] show ?thesis by (simp add: request_len_received)
qed

lemma stream_pos:
  assumes "stream c s = frame msg @ rest" and "length msg + 4 \<le> 1048576"
    and "msg \<noteq> []" and "conn_inv c"
  shows "unat (last_read_pos c) < length msg + 4"
proof (cases "4 \<le> unat (last_read_pos c)")
  case True
  from stream_request_len [OF assms(1,2) True] assms(3,4) True show ?thesis
    by (cases msg) (auto simp: conn_inv_def)
qed simp

lemma stream_open:
  assumes "stream c s = frame msg @ rest" and "length msg + 4 \<le> 1048576"
    and "msg \<noteq> []" and "conn_inv c"
  shows "incoming (conn_fd c) (world s) \<noteq> []"
proof
  assume "incoming (conn_fd c) (world s) = []"
  with assms(1) have "length (received c) = length (frame msg @ rest)" by simp
  with stream_pos [OF assms] show False by (simp add: received_def)
qed

end

context calm_kernel
begin

lemma read_step_calm:
  assumes "read_step k cnt c s = Ret (r, s')" and "calm (world s)"
  shows "calm (world s')" and "r \<noteq> Inl kReadError"
proof -
  obtain q where q: "sys_read k (conn_fd c) (unat cnt) s = (q, s')"
    using assms(1) by (auto simp: read_step_def split: prod.splits option.splits if_splits)
  note C = calm_sys_read [OF q assms(2)]
  show "calm (world s')" by (rule C(1))
  show "r \<noteq> Inl kReadError"
    using assms(1) q C(2) by (auto simp: read_step_def split: option.splits if_splits)
qed

lemma GetRequest_calm:
  assumes "GetRequest k c s = Ret (st, c', s')" and "calm (world s)" and "conn_inv c"
    and str: "stream c s = frame msg @ rest" and msg: "msg \<noteq> []" "length msg + 4 \<le> 1048576"
  shows "st \<in> {kReadHalf, kReadAll}" and "calm (world s')"
proof -
  have "st \<in> {kReadHalf, kReadAll} \<and> calm (world s')"
    using assms(1)
  proof (cases rule: GetRequest_cases)
    case header
    then show ?thesis
    proof (cases rule: GetHeader_cases)
      case (stop st')
      from stop(1) have "0 < HEADER_LEN - last_read_pos c"
        by (simp add: word_less_nat_alt unat_sub word_le_nat_alt)
      with stop read_step_Inl(3,4) [OF stop(4)] read_step_calm [OF stop(4) assms(2)]
        stream_open [OF str msg(2,1) assms(3)] show ?thesis by auto
    qed (auto dest: read_step_calm(1) [OF _ assms(2)] split: if_splits)
  next
    case (body d t)
    note H = GetHeader_keeps [OF body(1) assms(3)]
    have ct: "calm (world t)" using body(1) 
      by (cases rule: GetHeader_cases) (auto dest: read_step_calm(1) [OF _ assms(2)] simp: assms(2))
    have strd: "stream d t = frame msg @ rest" using H(1) str by auto
    note L = stream_request_len [OF strd msg(2) H(5) [OF refl]]
      and pos = stream_pos [OF strd msg(2,1) H(2)]
    from body(2) H(5) [OF refl] show ?thesis
    proof (cases rule: GetBody_cases)
      case full
      then show ?thesis using L msg(2) by simp
    next
      case stop
      have "unat (scast (request_len d) + HEADER_LEN - last_read_pos d) = length msg + 4 - unat (last_read_pos d)"
        using unat_remaining [of "request_len d" "last_read_pos d"] L pos by simp
      with pos have "0 < scast (request_len d) + HEADER_LEN - last_read_pos d"
        by (simp add: word_less_nat_alt)
      with stop read_step_Inl(3,4) [OF stop(3)] read_step_calm [OF stop(3) ct]
        stream_open [OF strd msg(2,1) H(2)] show ?thesis by auto
    qed (auto dest: read_step_calm(1) [OF _ ct])
  qed
  then show "st \<in> {kReadHalf, kReadAll}" and "calm (world s')" by blast+
qed

lemma pump_delivers:
  assumes "calm (world s)" and "conn_inv c" and "stream c s = frame msg @ rest"
    and "msg \<noteq> []" and "length msg + 4 \<le> 1048576" and "energy c s \<le> n"
  shows "\<exists>c' s'. pump n k c s = Ret (kReadAll, c', s') \<and> reply c' = msg \<and> last_read_pos c' = 0
    \<and> conn_fd c' = conn_fd c \<and> last_write_pos c' = last_write_pos c
    \<and> incoming (conn_fd c) (world s') = rest"
  using assms
proof (induction n arbitrary: c s)
  case (Suc n)
  have "\<not> wraps (stream c s)"
    using frame_len_sint [OF Suc.prems(5)] Suc.prems(3) by (simp add: wraps_def)
  then obtain st c' s' where g: "GetRequest k c s = Ret (st, c', s')"
    using GetRequest_no_fault [OF Suc.prems(2)] by (metis prod_cases3)
  note C = GetRequest_calm [OF g Suc.prems(1-5)]
  show ?case
  proof (cases "st = kReadAll")
    case True
    note A = GetRequest_all [OF g [unfolded True] Suc.prems(2)]
    have "reply c' = msg" and "incoming (conn_fd c) (world s') = rest"
      using frame_inject [of "reply c'" _ msg rest] A(1,6) Suc.prems(3,5) by auto
    with g True A show ?thesis by simp
  next
    case False
    with C(1) have half: "st = kReadHalf" by simp
    note K = GetRequest_keeps [OF g Suc.prems(2) False]
    have "energy c' s' \<le> n" using K(3) [OF half] Suc.prems(6) by simp
    with Suc.IH [OF C(2) K(2), of] K(1) Suc.prems(3-5) g half show ?thesis by auto
  qed
next
  case 0
  then show ?case using stream_open [of c s msg rest] by simp
qed

end

section \<open>Sending the reply\<close>

lemma SendReply_unfold:
  assumes "reply_inv c"
  shows "SendReply k c s = (case sys_write k (conn_fd c) (unsent c) s of
        (None, s') \<Rightarrow> (if errno s' = EAGAIN then kWriteHalf else kWriteError, c, s')
      | (Some n, s') \<Rightarrow>
          if last_write_pos c + of_nat n < of_nat (length (reply c))
          then (kWriteHalf, c\<lparr>last_write_pos := last_write_pos c + of_nat n\<rparr>, s')
          else (kWriteAll, c\<lparr>reply := [], last_write_pos := 0\<rparr>, s'))"
proof -
  have l: "unat (of_nat (length (reply c)) :: size_t) = length (reply c)"
    using assms by (simp add: reply_inv_def unat_of_nat)
  have "last_write_pos c \<le> of_nat (length (reply c))"
    using assms by (auto simp: reply_inv_def word_le_nat_alt l)
  then have "unat (of_nat (length (reply c)) - last_write_pos c) = length (unsent c)"
    by (simp add: unat_sub l unsent_def)
  then show ?thesis by (auto simp: SendReply_def Let_def simp flip: unsent_def split: prod.split option.split)
qed

context write_kernel
begin

lemma SendReply_keeps:
  assumes "SendReply k c s = (st, c', s')" and "reply_inv c"
  shows "outgoing (conn_fd c) (world s') @ unsent c' = outgoing (conn_fd c) (world s) @ unsent c"
    and "reply_inv c'" and "conn_fd c' = conn_fd c" and "last_read_pos c' = last_read_pos c"
    and "st = kWriteAll \<Longrightarrow> reply c' = [] \<and> last_write_pos c' = 0"
    and "st = kWriteHalf \<Longrightarrow>
      patience (world s') + length (unsent c') < patience (world s) + length (unsent c)"
proof -
  let ?P = "outgoing (conn_fd c) (world s') @ unsent c' = outgoing (conn_fd c) (world s) @ unsent c
    \<and> reply_inv c' \<and> conn_fd c' = conn_fd c \<and> last_read_pos c' = last_read_pos c
    \<and> (st = kWriteAll \<longrightarrow> reply c' = [] \<and> last_write_pos c' = 0)
    \<and> (st = kWriteHalf \<longrightarrow>
      patience (world s') + length (unsent c') < patience (world s) + length (unsent c))"
  have ?P
  proof (cases "sys_write k (conn_fd c) (unsent c) s")
    case (Pair r t)
    show ?thesis
    proof (cases r)
      case None
      with Pair assms have "c' = c" "s' = t" "st = (if errno t = EAGAIN then kWriteHalf else kWriteError)"
        by (auto simp: SendReply_unfold)
      with sys_write_None [OF Pair [unfolded None]] assms(2) show ?thesis by (auto split: if_splits)
    next
      case (Some n)
      note W = sys_write_Some [OF Pair [unfolded Some]]
      have len: "length (unsent c) = length (reply c) - unat (last_write_pos c)"
        by (simp add: unsent_def)
      have small: "length (reply c) \<le> 1048576" using assms(2) by (simp add: reply_inv_def)
      have le: "unat (last_write_pos c) + n \<le> length (reply c)"
        using W(1) assms(2) len by (auto simp: reply_inv_def)
      then have pos: "unat (last_write_pos c + of_nat n) = unat (last_write_pos c) + n"
        using small by (intro unat_add_small) simp
      have tot: "unat (of_nat (length (reply c)) :: size_t) = length (reply c)"
        using small by (simp add: unat_of_nat)
      show ?thesis
      proof (cases "unat (last_write_pos c) + n < length (reply c)")
        case True
        with Pair Some assms have e: "st = kWriteHalf" "s' = t"
            "c' = c\<lparr>last_write_pos := last_write_pos c + of_nat n\<rparr>"
          by (simp_all add: SendReply_unfold word_less_nat_alt pos tot)
        have u: "unsent c' = drop n (unsent c)" by (simp add: unsent_def e pos add.commute)
        have "0 < n" using W(4) True by (auto simp: unsent_def)
        with e u W(2,3) True small len show ?thesis
          by (auto simp: reply_inv_def pos)
      next
        case False
        with Pair Some assms have e: "st = kWriteAll" "s' = t"
            "c' = c\<lparr>reply := [], last_write_pos := 0\<rparr>"
          by (simp_all add: SendReply_unfold word_less_nat_alt pos tot)
        have "take n (unsent c) = unsent c" using False len by simp
        with e W(2) show ?thesis by (simp add: unsent_def reply_inv_def)
      qed
    qed
  qed
  then show "outgoing (conn_fd c) (world s') @ unsent c' = outgoing (conn_fd c) (world s) @ unsent c"
    and "reply_inv c'" and "conn_fd c' = conn_fd c" and "last_read_pos c' = last_read_pos c"
    and "st = kWriteAll \<Longrightarrow> reply c' = [] \<and> last_write_pos c' = 0"
    and "st = kWriteHalf \<Longrightarrow>
      patience (world s') + length (unsent c') < patience (world s) + length (unsent c)"
    by blast+
qed

end

context calm_stream
begin

lemma SendReply_calm:
  assumes "SendReply k c s = (st, c', s')" and "calm (world s)" and "reply_inv c"
  shows "calm (world s')" and "st \<noteq> kWriteError"
proof -
  obtain r t where w: "sys_write k (conn_fd c) (unsent c) s = (r, t)" by fastforce
  note C = calm_sys_write [OF w assms(2)]
  show "calm (world s')" and "st \<noteq> kWriteError"
    using assms(1) C by (auto simp: SendReply_unfold [OF assms(3)] w split: option.splits if_splits)
qed

lemma push_delivers:
  assumes "calm (world s)" and "reply_inv c" and "patience (world s) + length (unsent c) \<le> n"
  shows "\<exists>c' s'. push n k c s = (kWriteAll, c', s') \<and> calm (world s')
    \<and> outgoing (conn_fd c) (world s') = outgoing (conn_fd c) (world s) @ unsent c
    \<and> reply c' = [] \<and> last_write_pos c' = 0"
  using assms
proof (induction n arbitrary: c s)
  case 0
  obtain st c' s' where g: "SendReply k c s = (st, c', s')" by (metis prod_cases3)
  note C = SendReply_calm [OF g 0(1,2)] and K = SendReply_keeps [OF g 0(2)]
  from K(6) C(2) 0(3) have "st = kWriteAll" by (cases st) auto
  with g C K show ?case by (simp add: unsent_def)
next
  case (Suc n)
  obtain st c' s' where g: "SendReply k c s = (st, c', s')" by (metis prod_cases3)
  note C = SendReply_calm [OF g Suc.prems(1,2)] and K = SendReply_keeps [OF g Suc.prems(2)]
  show ?case
  proof (cases st)
    case kWriteHalf
    with K(6) Suc.prems(3) have "patience (world s') + length (unsent c') \<le> n" by simp
    from Suc.IH [OF C(1) K(2) this] K(1,3) g kWriteHalf show ?thesis by auto
  qed (use g C K in \<open>auto simp: unsent_def\<close>)
qed

end

context calm_stream
begin

text \<open>Receiving leaves the outgoing streams alone.\<close>

lemma GetRequest_frames:
  assumes "GetRequest k c s = Ret (st, c', s')" and "calm (world s)"
  shows "calm (world s') \<and> outgoing fd (world s') = outgoing fd (world s)"
  by (rule GetRequest_reads [OF assms(1)]) (use assms(2) calm_read read_frame in auto)

lemma pump_frames:
  "pump n k c s = Ret (st, c', s') \<Longrightarrow> calm (world s) \<Longrightarrow>
   calm (world s') \<and> outgoing fd (world s') = outgoing fd (world s)"
proof (induction n arbitrary: c s)
  case 0
  then show ?case using GetRequest_frames by simp
next
  case (Suc n)
  from Suc.prems(1) obtain st1 c1 s1 where g: "GetRequest k c s = Ret (st1, c1, s1)"
    by (auto split: outcome.splits)
  note F = GetRequest_frames [OF g Suc.prems(2)]
  show ?case
  proof (cases "st1 = kReadHalf")
    case True
    with Suc.IH [of c1 s1] Suc.prems(1) g F show ?thesis by simp
  next
    case False
    with Suc.prems(1) g F show ?thesis by (cases st1) auto
  qed
qed

end

section \<open>Properties\<close>

lemma new_InetConn_inv [simp]:
  "conn_inv (new_InetConn junk fd ip)" "reply_inv (new_InetConn junk fd ip)"
  "received (new_InetConn junk fd ip) = []" "conn_fd (new_InetConn junk fd ip) = fd"
  by (simp_all add: new_InetConn_def conn_inv_def reply_inv_def received_def)

text \<open>
  C11: whatever the sizes of the kernel's transfers, \<open>GetRequest\<close> neither loses nor invents
  a byte of the stream.  If it answers \<open>kReadAll\<close>, the bytes consumed since the last
  request are exactly the frame of the reply it stored (which is never empty and fits the
  buffer) and the position is reset; otherwise the buffered bytes followed by the bytes
  still to come are the same sequence as before.  The position invariant is kept.
\<close>

theorem GetRequest_stream:
  assumes "read_kernel k incoming patience" and "conn_inv c"
    and "GetRequest k c s = Ret (st, c', s')"
  shows "conn_inv c' \<and> conn_fd c' = conn_fd c \<and>
    (if st = kReadAll
     then received c @ incoming (conn_fd c) (world s)
            = frame (reply c') @ incoming (conn_fd c) (world s')
          \<and> last_read_pos c' = 0 \<and> 0 < length (reply c') \<and> length (reply c') + 4 \<le> 1048576
     else received c' @ incoming (conn_fd c) (world s')
            = received c @ incoming (conn_fd c) (world s) \<and> reply c' = reply c)"
proof (cases "st = kReadAll")
  case True
  note A = read_kernel.GetRequest_all [OF assms(1) assms(3) [unfolded True] assms(2)]
  from A(2) have "conn_inv c'" by (simp add: conn_inv_def)
  with A True show ?thesis by simp
next
  case False
  with read_kernel.GetRequest_keeps [OF assms(1,3,2) False] show ?thesis by auto
qed

text \<open>
  requests are delivered.  If the stream holds a frame of a non-empty message that fits
  the buffer, then after at most as many readable events as there are bytes and transient
  errors left, \<open>GetRequest\<close> has answered \<open>kReadAll\<close> with exactly that message as the reply,
  the position is back at zero and the stream stands right behind the frame.
\<close>

theorem request_delivered:
  assumes "calm_kernel k incoming patience calm" and "calm (world s)" and "conn_inv c"
    and "received c @ incoming (conn_fd c) (world s) = frame msg @ rest"
    and "msg \<noteq> []" and "length msg + 4 \<le> 1048576"
    and "patience (world s) + length (incoming (conn_fd c) (world s)) \<le> n"
  shows "\<exists>c' s'. pump n k c s = Ret (kReadAll, c', s') \<and> reply c' = msg \<and> last_read_pos c' = 0
    \<and> incoming (conn_fd c) (world s') = rest"
  using calm_kernel.pump_delivers [OF assms] by blast

theorem request_delivered_witness:
  "\<exists>c' s'. pump 40 sim_kernel (new_InetConn (\<lambda>_. 0xFF) 5 ''peer'')
      \<lparr>errno = EINTR, world = quiet\<lparr>inq := (\<lambda>_. frame [104, 105] @ [9]),
         schedule := [Chunk 1, Again, Chunk 0, Chunk 4, Chunk 0]\<rparr>\<rparr>
      = Ret (kReadAll, c', s') \<and> reply c' = [104, 105] \<and> last_read_pos c' = 0
      \<and> sim_incoming 5 (world s') = [9]"
  using request_delivered [OF sim_calm_k.calm_kernel_axioms, where rest = "[9]" and msg = "[104, 105]"
      and c = "new_InetConn (\<lambda>_. 0xFF) 5 ''peer''" and n = 40
      and s = "\<lparr>errno = EINTR, world = quiet\<lparr>inq := (\<lambda>_. frame [104, 105] @ [9]),
         schedule := [Chunk 1, Again, Chunk 0, Chunk 4, Chunk 0]\<rparr>\<rparr>"]
  by (simp add: sim_calm_def sim_obs frame_def)

theorem GetRequest_stream_witness:
  "\<exists>c' s'. GetRequest sim_kernel (new_InetConn (\<lambda>_. 0xFF) 5 ''peer'')
      \<lparr>errno = EINTR, world = quiet\<lparr>inq := (\<lambda>_. frame [104, 105])\<rparr>\<rparr> = Ret (kReadAll, c', s')
    \<and> frame [104, 105] = frame (reply c') @ sim_incoming 5 (world s')"
proof -
  let ?c = "new_InetConn (\<lambda>_. 0xFF) 5 ''peer''"
  let ?s = "\<lparr>errno = EINTR, world = quiet\<lparr>inq := (\<lambda>_. frame [104, 105])\<rparr>\<rparr>"
  have "(case GetRequest sim_kernel ?c ?s of Ret (st, _) \<Rightarrow> st = kReadAll | _ \<Rightarrow> False)"
    by (simp add: InetConn_eval quiet_def frame_def bytes_of_word32_def)
  then obtain c' s' where g: "GetRequest sim_kernel ?c ?s = Ret (kReadAll, c', s')"
    by (auto split: outcome.splits)
  with GetRequest_stream [OF sim_k.read_kernel_axioms _ g] show ?thesis
    by (auto simp: sim_obs)
qed

text \<open>
  replies are delivered.  However the kernel splits the transfers, after at most as many
  writable events as there are unsent bytes and transient errors left, \<open>SendReply\<close> has
  answered \<open>kWriteAll\<close>, exactly the unsent part of the reply has been appended to the
  outgoing stream, and the reply buffer is cleared for the next request.
\<close>

theorem reply_delivered:
  assumes "calm_stream k incoming outgoing patience calm" and "calm (world s)" and "reply_inv c"
    and "patience (world s) + length (unsent c) \<le> n"
  shows "\<exists>c' s'. push n k c s = (kWriteAll, c', s')
    \<and> outgoing (conn_fd c) (world s') = outgoing (conn_fd c) (world s) @ unsent c
    \<and> reply c' = [] \<and> last_write_pos c' = 0"
  using calm_stream.push_delivers [OF assms] by blast

theorem reply_delivered_witness:
  "\<exists>c' s'. push 9 sim_kernel ((new_InetConn (\<lambda>_. 0) 5 ''peer'')\<lparr>reply := [1, 2, 3]\<rparr>)
      \<lparr>errno = EINTR, world = quiet\<lparr>outq := (\<lambda>_. [7]), schedule := [Chunk 0, Again, Chunk 0]\<rparr>\<rparr>
      = (kWriteAll, c', s') \<and> sim_outgoing 5 (world s') = [7, 1, 2, 3]
      \<and> reply c' = [] \<and> last_write_pos c' = 0"
  using reply_delivered [OF sim_calm_k.calm_stream_axioms, where n = 9
      and c = "(new_InetConn (\<lambda>_. 0) 5 ''peer'')\<lparr>reply := [1, 2, 3]\<rparr>"
      and s = "\<lparr>errno = EINTR, world = quiet\<lparr>outq := (\<lambda>_. [7]), schedule := [Chunk 0, Again, Chunk 0]\<rparr>\<rparr>"]
  by (simp add: sim_calm_def sim_obs unsent_def reply_inv_def new_InetConn_def)

text \<open>
  C16: memory safety of \<open>GetRequest\<close>.  Unless the length field of the frame being received
  is one of \<open>-4, \<dots>, -1\<close>, no call stores outside the one-megabyte buffer or builds a
  string of invalid length, whatever the peer sends and however it is split.
\<close>

theorem GetRequest_memory_safe:
  assumes "read_kernel k incoming patience" and "conn_inv c"
    and "\<not> wraps (received c @ incoming (conn_fd c) (world s))"
  shows "\<exists>st c' s'. GetRequest k c s = Ret (st, c', s')"
  using read_kernel.GetRequest_no_fault [OF assms] by (metis prod_cases3)

theorem GetRequest_memory_safe_witness:
  "\<exists>st c' s'. GetRequest sim_kernel (new_InetConn (\<lambda>_. 0) 5 ''peer'')
     \<lparr>errno = EINTR, world = quiet\<lparr>inq := (\<lambda>_. [0xFF, 0xFF, 0xFF, 0x7F, 1, 2, 3])\<rparr>\<rparr> = Ret (st, c', s')"
  using GetRequest_memory_safe [OF sim_k.read_kernel_axioms, where c = "new_InetConn (\<lambda>_. 0) 5 ''peer''"
      and s = "\<lparr>errno = EINTR, world = quiet\<lparr>inq := (\<lambda>_. [0xFF, 0xFF, 0xFF, 0x7F, 1, 2, 3])\<rparr>\<rparr>"]
  by (simp add: wraps_def sim_obs word32_of_bytes_def)

text \<open>
  C37: the excluded length fields do break the guard.  With the header complete and a length
  field of \<open>-m\<close> for \<open>1 \<le> m \<le> 4\<close>, the guard passes, \<open>read\<close> is asked for \<open>2^64 - m\<close> bytes,
  and as soon as the kernel transfers any, the call overruns the buffer or throws
  \<open>std::length_error\<close>.
\<close>

theorem GetRequest_wrapping_length:
  assumes "last_read_pos c = 4" and "sint (request_len c) = - int m" and "1 \<le> m" and "m \<le> 4"
    and "sys_read k (conn_fd c) (2 ^ 64 - m) s = (Some bs, s')" and "bs \<noteq> []"
  shows "GetRequest k c s = Fault BufferOverflow \<or> GetRequest k c s = Fault LengthError"
proof -
  have "uint (scast (request_len c) :: size_t) = sint (request_len c) mod 2 ^ LENGTH(64)"
    by (rule uint_scast64)
  also have "\<dots> = (- int m + 2 ^ LENGTH(64)) mod 2 ^ LENGTH(64)"
    using assms(2) by (simp only: mod_add_self2)
  also have "\<dots> = - int m + 2 ^ LENGTH(64)"
    using assms(3,4) by (intro mod_pos_pos_trivial) auto
  finally have cnt: "unat (scast (request_len c) :: size_t) = 2 ^ 64 - m"
    using assms(4) by (simp add: unat_eq_nat_uint nat_diff_distrib)
  have "unat (HEADER_LEN + scast (request_len c)) = nat (sint (request_len c) + 4)"
    using unat_frame_end [of "request_len c"] assms(2,4) by (simp add: HEADER_LEN_def add.commute)
  then have e: "unat (HEADER_LEN + scast (request_len c)) \<le> 3" using assms(2,3) by simp
  have low: "\<not> last_read_pos d < HEADER_LEN + scast (request_len c)"
    if "unat (last_read_pos d) = 4 + length bs" for d
    using e that by (simp add: word_less_nat_alt)
  have g: "\<not> READ_BUFFER_SIZE < scast (request_len c) + HEADER_LEN"
    using assms(2,4) by (simp add: guard_iff)
  have pos: "unat (4 + of_nat (length bs) :: size_t) = 4 + length bs" if "4 + length bs \<le> 1048576"
    using that unat_add_small [of 4 "length bs"] by simp
  show ?thesis
    using assms(1,5,6) g cnt low [of "c\<lparr>last_read_pos := 4 + of_nat (length bs)\<rparr>"] pos assms(2,3)
    by (auto simp: GetRequest_def GetHeader_def GetBody_def read_step_def Let_def HEADER_LEN_def)
qed

theorem GetRequest_wrapping_length_witness:
  "GetRequest sim_kernel ((new_InetConn (\<lambda>_. 0xFF) 5 ''peer'')\<lparr>last_read_pos := 4\<rparr>)
     \<lparr>errno = EINTR, world = quiet\<lparr>inq := (\<lambda>_. [1])\<rparr>\<rparr> \<in> {Fault BufferOverflow, Fault LengthError}"
proof -
  let ?c = "(new_InetConn (\<lambda>_. 0xFF) 5 ''peer'')\<lparr>last_read_pos := 4\<rparr>"
  let ?s = "\<lparr>errno = EINTR, world = quiet\<lparr>inq := (\<lambda>_. [1])\<rparr>\<rparr>"
  have "GetRequest sim_kernel ?c ?s = Fault BufferOverflow
      \<or> GetRequest sim_kernel ?c ?s = Fault LengthError"
    by (rule GetRequest_wrapping_length [where m = 1 and bs = "[1]"
          and s' = "?s\<lparr>world := quiet\<lparr>inq := (\<lambda>_. [1])(5 := [])\<rparr>\<rparr>"])
      (simp_all add: request_len_def load_4 word32_of_bytes_def new_InetConn_def sim_defs quiet_def)
  then show ?thesis by simp
qed

text \<open>
  an empty request is treated as a closed connection.  With the header complete and a
  length field of zero, \<open>read\<close> is asked for zero bytes; when it succeeds, the answer is
  \<open>kReadClose\<close>, never \<open>kReadAll\<close>, and the connection is left as it was.
\<close>

theorem GetRequest_zero_length:
  assumes "read_kernel k incoming patience" and "last_read_pos c = 4" and "request_len c = 0"
    and "sys_read k (conn_fd c) 0 s = (Some bs, s')"
  shows "GetRequest k c s = Ret (kReadClose, c, s')"
proof -
  have "bs = []" using read_kernel.sys_read_Some(1) [OF assms(1,4)] by simp
  with assms show ?thesis
    by (simp add: GetRequest_def GetHeader_def GetBody_def read_step_def HEADER_LEN_def
        READ_BUFFER_SIZE_def)
qed

theorem GetRequest_zero_length_witness:
  "GetRequest sim_kernel ((new_InetConn (\<lambda>_. 0) 5 ''peer'')\<lparr>last_read_pos := 4\<rparr>)
     \<lparr>errno = EINTR, world = quiet\<rparr>
   = Ret (kReadClose, (new_InetConn (\<lambda>_. 0) 5 ''peer'')\<lparr>last_read_pos := 4\<rparr>,
          \<lparr>errno = EINTR, world = quiet\<lparr>inq := inq quiet\<rparr>\<rparr>)"
  by (rule GetRequest_zero_length [OF sim_k.read_kernel_axioms, where bs = "[]"])
    (simp_all add: InetConn_eval quiet_def fun_eq_iff)

end
