(* ===== verification/Unix_Socket.thy ===== *)
theory Unix_Socket
  imports Sim_Kernel
begin

text \<open>
  Unix-domain sockets (\<open>hot_upgrade_demo/unix_socket.h\<close>, \<open>unix_socket.cc\<close>): listening,
  accepting with the check of the client's socket file, connecting, and passing a
  descriptor with a status byte.

  The lemmas show that every error path closes the socket and restores \<open>errno\<close>, that an
  accepted client passed the ownership and freshness checks, and what a status byte or a
  descriptor passed by \<open>send_fd\<close> becomes in \<open>recv_fd\<close>.
\<close>

section \<open>Data\<close>

definition MSG_DATA_BUF_LEN :: int where "MSG_DATA_BUF_LEN = 1024"

definition reply_ok :: string where "reply_ok = ''ok''"

datatype MsgRequestType = kAuth | kTransferListenFd | kTransferAdminListenFd | kTransferSessionFd

text \<open>The enumerators' values, which travel in the messages.\<close>

fun msg_type_code :: "MsgRequestType \<Rightarrow> u32" where
  "msg_type_code kAuth = 0"
| "msg_type_code kTransferListenFd = 1"
| "msg_type_code kTransferAdminListenFd = 2"
| "msg_type_code kTransferSessionFd = 3"

datatype SendMsgStatus = kSendMsgOk | kSendMsgError

datatype RecvMsgStatus = kRecvMsgOk | kRecvMSGParseError | kRecvMsgError | kRecvMsgClose

definition QLEN :: nat where "QLEN = 10"
definition STALE :: int where "STALE = 30"
definition MAXLINE :: nat where "MAXLINE = 1024"
definition CLI_PATH :: string where "CLI_PATH = ''/var/tmp/''"
definition S_IRWXU :: u32 where "S_IRWXU = 0x1C0"
definition S_IRWXG :: u32 where "S_IRWXG = 0x38"
definition S_IRWXO :: u32 where "S_IRWXO = 0x7"
definition CLI_PERM :: u32 where "CLI_PERM = S_IRWXU"

text \<open>\<open>CMSG_LEN(sizeof(int))\<close> on 64-bit Linux: a 16-byte header and the descriptor.\<close>

definition CONTROLLEN :: nat where "CONTROLLEN = 20"

text \<open>\<open>sizeof(sun_path)\<close> in \<open>struct sockaddr_un\<close>.\<close>

definition SUN_PATH_LEN :: nat where "SUN_PATH_LEN = 108"

section \<open>Listening, accepting, connecting\<close>

text \<open>The shared tail of the three functions: close, keeping \<open>errno\<close>.\<close>

definition errout :: "'w kernel \<Rightarrow> int \<Rightarrow> int \<Rightarrow> 'w proc \<Rightarrow> int \<times> 'w proc" where
  "errout k fd rval s = (let err = errno s; (_, s') = sys_close k fd s in (rval, s'\<lparr>errno := err\<rparr>))"

text \<open>\<open>strcpy(un.sun_path, name)\<close> writes \<open>strlen(name) + 1\<close> bytes.\<close>

definition unix_server_listen :: "'w kernel \<Rightarrow> string \<Rightarrow> 'w proc \<Rightarrow> (int \<times> 'w proc) outcome" where
  "unix_server_listen k name s = (case syscall (k_socket k AF_UNIX) s of
     (None, s1) \<Rightarrow> Ret (errout k (- 1) (- 1) s1)
   | (Some fd, s1) \<Rightarrow>
       (let s2 = snd (syscall (k_unlink k name) s1) in
        if SUN_PATH_LEN \<le> length name then Fault BufferOverflow
        else case syscall (k_bind k fd (SockUn name)) s2 of
          (None, s3) \<Rightarrow> Ret (errout k fd (- 2) s3)
        | (Some _, s3) \<Rightarrow> (case syscall (k_listen k fd QLEN) s3 of
          (None, s4) \<Rightarrow> Ret (errout k fd (- 3) s4)
        | (Some _, s4) \<Rightarrow> Ret (fd, s4))))"

text \<open>
  What \<open>accept\<close> leaves in \<open>len\<close>, less the offset of \<open>sun_path\<close>: for a socket bound to a path
  the kernel counts the path and a terminating zero, for an unnamed one nothing.
\<close>

definition sun_path_len :: "sockaddr \<Rightarrow> nat" where
  "sun_path_len un = (case un of SockUn p \<Rightarrow> if p = [] then 0 else length p + 1 | SockIn _ _ \<Rightarrow> 0)"

text \<open>
  The zero of \<open>un.sun_path[len] = 0\<close> is stored behind the one that is already counted, so a
  path of 107 bytes, the longest that fits with its zero, makes it overflow.  \<open>uidptr\<close> says
  whether the caller passed a place for the user id; the second component of the result is
  what was stored there.
\<close>

definition unix_server_accept ::
  "'w kernel \<Rightarrow> int \<Rightarrow> bool \<Rightarrow> 'w proc \<Rightarrow> ((int \<times> nat option) \<times> 'w proc) outcome" where
  "unix_server_accept k listenfd uidptr s = (case syscall (k_accept k listenfd) s of
     (None, s1) \<Rightarrow> Exit (- 1)
   | (Some (clifd, un), s1) \<Rightarrow>
       (let path = (case un of SockUn p \<Rightarrow> p | SockIn _ _ \<Rightarrow> []);
            fail = (\<lambda>rval s. case errout k clifd rval s of (r, s') \<Rightarrow> Ret ((r, None), s')) in
        if SUN_PATH_LEN \<le> sun_path_len un then Fault BufferOverflow
        else case syscall (k_stat k path) s1 of
          (None, s2) \<Rightarrow> fail (- 2) s2
        | (Some statbuf, s2) \<Rightarrow>
            if st_mode statbuf AND (S_IRWXG OR S_IRWXO) \<noteq> 0 \<or> st_mode statbuf AND S_IRWXU \<noteq> S_IRWXU
            then fail (- 4) s2
            else let staletime = k_time k (world s2) - STALE in
              if st_atime statbuf < staletime \<or> st_ctime statbuf < staletime
                 \<or> st_mtime statbuf < staletime
              then fail (- 5) s2
              else Ret ((clifd, if uidptr then Some (st_uid statbuf) else None),
                        snd (syscall (k_unlink k path) s2))))"

text \<open>\<open>sprintf(un.sun_path, "%s%05d", CLI_PATH, getpid())\<close>\<close>

definition client_path :: "nat \<Rightarrow> string" where
  "client_path pid = (let ds = to_string pid in
     CLI_PATH @ replicate (5 - length ds) CHR ''0'' @ ds)"

definition unix_client_conn :: "'w kernel \<Rightarrow> string \<Rightarrow> 'w proc \<Rightarrow> (int \<times> 'w proc) outcome" where
  "unix_client_conn k name s = (case syscall (k_socket k AF_UNIX) s of
     (None, s1) \<Rightarrow> Exit (- 1)
   | (Some fd, s1) \<Rightarrow>
       (let path = client_path (k_getpid k (world s1));
            s2 = snd (syscall (k_unlink k path) s1) in
        case syscall (k_bind k fd (SockUn path)) s2 of
          (None, s3) \<Rightarrow> Ret (errout k fd (- 2) s3)
        | (Some _, s3) \<Rightarrow> (case syscall (k_chmod k path CLI_PERM) s3 of
          (None, s4) \<Rightarrow> Ret (errout k fd (- 3) s4)
        | (Some _, s4) \<Rightarrow>
            if SUN_PATH_LEN \<le> length name then Fault BufferOverflow
            else (case syscall (k_connect k fd (SockUn name)) s4 of
          (None, s5) \<Rightarrow> Ret (errout k fd (- 4) s5)
        | (Some _, s5) \<Rightarrow> Ret (fd, s5)))))"

section \<open>Passing a descriptor or a status\<close>

text \<open>
  The two-byte message and its control part.  A negative argument is a status: its
  negation narrowed to \<open>char\<close>, with zero replaced by one.
\<close>

definition send_fd_message :: "int \<Rightarrow> byte list \<times> int option" where
  "send_fd_message fd_to_send =
     (if fd_to_send < 0
      then let b = of_int (- fd_to_send) :: byte in ([0, if b = 0 then 1 else b], None)
      else ([0, 0], Some fd_to_send))"

text \<open>\<open>cmptr\<close> is whether the static control buffer has been allocated.\<close>

definition send_fd :: "'w kernel \<Rightarrow> bool \<Rightarrow> int \<Rightarrow> int \<Rightarrow> 'w proc \<Rightarrow> (int \<times> bool \<times> 'w proc) outcome" where
  "send_fd k cmptr fd fd_to_send s =
     (if \<not> fd_to_send < 0 \<and> \<not> cmptr \<and> \<not> k_malloc k (world s) then Exit (- 1)
      else let (buf, ctl) = send_fd_message fd_to_send in
        case syscall (k_sendmsg k fd buf ctl) s of
          (None, s') \<Rightarrow> Exit (- 1)
        | (Some n, s') \<Rightarrow>
            if n \<noteq> 2 then Exit (- 1)
            else Ret (0, cmptr \<or> \<not> fd_to_send < 0, s'))"

text \<open>
  The scan of the received bytes.  \<open>i\<close> is \<open>ptr - buf\<close>; the result is the final \<open>nr\<close>, the
  status and the descriptor, both \<open>None\<close> if no zero byte was met.
\<close>

function recv_scan :: "byte list \<Rightarrow> int option \<Rightarrow> nat \<Rightarrow> nat \<Rightarrow> (nat \<times> int) option
    \<Rightarrow> (nat \<times> (nat \<times> int) option) outcome" where
  "recv_scan buf ctl i nr st =
     (if i < nr then
        if buf ! i = 0 then
          if i + 1 \<noteq> nr - 1 then Exit (- 1)
          else let status = unat (buf ! (i + 1)) in
            if status = 0 then (case ctl of
                None \<Rightarrow> Exit (- 1)
              | Some newfd \<Rightarrow> recv_scan buf ctl (i + 1) (nr - 2) (Some (status, newfd)))
            else recv_scan buf ctl (i + 1) (nr - 2) (Some (status, - int status))
        else recv_scan buf ctl (i + 1) nr st
      else Ret (nr, st))"
  by pat_completeness auto
termination
  by (relation "measure (\<lambda>(buf, ctl, i, nr, st). nr - i)") auto

declare recv_scan.simps [simp del]

definition recv_fd :: "'w kernel \<Rightarrow> bool \<Rightarrow> (int \<Rightarrow> byte list \<Rightarrow> 'w proc \<Rightarrow> int \<times> 'w proc) \<Rightarrow> int
    \<Rightarrow> 'w proc \<Rightarrow> (int \<times> bool \<times> 'w proc) outcome" where
  "recv_fd k cmptr userfunc fd s =
     (if \<not> cmptr \<and> \<not> k_malloc k (world s) then Exit (- 1)
      else case syscall (k_recvmsg k fd MAXLINE CONTROLLEN) s of
        (None, s1) \<Rightarrow> Exit (- 1)
      | (Some (buf, ctl), s1) \<Rightarrow>
          if buf = [] then Exit (- 1)
          else case recv_scan buf ctl 0 (length buf) None of
            Exit n \<Rightarrow> Exit n
          | Fault f \<Rightarrow> Fault f
          | Ret (nr, st) \<Rightarrow>
              (let (r, s2) = (if 0 < nr then userfunc 2 (take nr buf) s1 else (int nr, s1)) in
               if r \<noteq> int nr then Exit (- 1)
               else case st of
                 Some (_, newfd) \<Rightarrow> Ret (newfd, True, s2)
               | None \<Rightarrow> Fault NoReturnValue))"

section \<open>Properties\<close>

lemma recv_scan_two:
  "recv_scan [0, b] ctl 0 2 None =
     (if b = 0 then (case ctl of None \<Rightarrow> Exit (- 1) | Some newfd \<Rightarrow> Ret (0, Some (0, newfd)))
      else Ret (0, Some (unat b, - int (unat b))))"
  by (auto simp: recv_scan.simps [of "[0, b]" ctl 0 2] recv_scan.simps [of _ _ "Suc 0" 0]
      unat_eq_0 split: option.split)

lemma unat_of_int_byte: "int (unat (of_int z :: byte)) = z mod 256"
  by (simp add: uint_word_of_int)

text \<open>
  C40: what \<open>send_fd\<close> sends, \<open>recv_fd\<close> returns.  If the two bytes arrive unchanged and the
  kernel renumbers a passed descriptor by \<open>g\<close>, then \<open>recv_fd\<close> returns \<open>g n\<close> for a
  descriptor \<open>n\<close>, and for a negative status its value modulo 256, with multiples of 256
  becoming \<open>-1\<close>; in particular the statuses \<open>-255, \<dots>, -1\<close> arrive as they are.
\<close>

theorem send_fd_recv_fd:
  assumes "send_fd_message n = (buf, ctl)"
    and "syscall (k_recvmsg k fd MAXLINE CONTROLLEN) s = (Some (buf, map_option g ctl), s')"
    and "cmptr \<or> k_malloc k (world s)"
  shows "recv_fd k cmptr userfunc fd s =
    Ret (if 0 \<le> n then g n else if (- n) mod 256 = 0 then - 1 else - ((- n) mod 256), True, s')"
proof (cases "0 \<le> n")
  case True
  with assms(1) have "buf = [0, 0]" and "ctl = Some n"
    by (auto simp: send_fd_message_def Let_def split: if_splits)
  with assms(2,3) True show ?thesis
    by (auto simp: recv_fd_def recv_scan_two numeral_2_eq_2 [symmetric])
next
  case False
  let ?b = "of_int (- n) :: byte"
  from False assms(1) have buf: "buf = [0, if ?b = 0 then 1 else ?b]" and "ctl = None"
    by (auto simp: send_fd_message_def Let_def split: if_splits)
  have z: "?b = 0 \<longleftrightarrow> (- n) mod 256 = 0"
    using unat_of_int_byte [of "- n"] by (metis of_nat_eq_0_iff unat_eq_0)
  show ?thesis
    using assms(2,3) False z unat_of_int_byte [of "- n"]
    by (auto simp: recv_fd_def buf \<open>ctl = None\<close> recv_scan_two numeral_2_eq_2 [symmetric])
qed

theorem send_fd_recv_fd_witness:
  "recv_fd sim_kernel True (\<lambda>_ bs s. (int (length bs), s)) 4
      \<lparr>errno = EINTR, world = quiet\<lparr>msg_in := (\<lambda>_. []) (4 := [([0, 7], None)])\<rparr>\<rparr>
    = Ret (- 7, True, \<lparr>errno = EINTR, world = quiet\<rparr>)"
proof -
  have "recv_fd sim_kernel True (\<lambda>_ bs s. (int (length bs), s)) 4
      \<lparr>errno = EINTR, world = quiet\<lparr>msg_in := (\<lambda>_. []) (4 := [([0, 7], None)])\<rparr>\<rparr>
    = Ret (if 0 \<le> (- 7 :: int) then id (- 7) else if (- (- 7)) mod 256 = (0 :: int) then - 1
           else - ((- (- 7)) mod 256), True, \<lparr>errno = EINTR, world = quiet\<rparr>)"
    by (rule send_fd_recv_fd [where buf = "[0, 7]" and ctl = None])
      (simp_all add: send_fd_message_def sim_defs quiet_def MAXLINE_def CONTROLLEN_def fun_eq_iff)
  then show ?thesis by simp
qed

text \<open>
  an accepted Unix-domain client was checked.  If \<open>unix_server_accept\<close> returns a
  descriptor, it is the one \<open>accept\<close> delivered, the client's socket file grants the owner
  all rights and nobody else any, it was touched within the last \<open>STALE\<close> seconds by all
  three time stamps, the user id reported is its owner, and the file has been unlinked.
\<close>

theorem unix_server_accept_checked:
  assumes "unix_server_accept k listenfd uidptr s = Ret ((fd, uid), s')" and "0 \<le> fd"
  shows "\<exists>un s1 path st s2. syscall (k_accept k listenfd) s = (Some (fd, un), s1)
    \<and> path = (case un of SockUn p \<Rightarrow> p | SockIn _ _ \<Rightarrow> []) \<and> length path + 1 < SUN_PATH_LEN
    \<and> syscall (k_stat k path) s1 = (Some st, s2)
    \<and> st_mode st AND (S_IRWXG OR S_IRWXO) = 0 \<and> st_mode st AND S_IRWXU = S_IRWXU
    \<and> (\<forall>t \<in> {st_atime st, st_ctime st, st_mtime st}. k_time k (world s2) - STALE \<le> t)
    \<and> uid = (if uidptr then Some (st_uid st) else None)
    \<and> s' = snd (syscall (k_unlink k path) s2)"
proof -
  from assms obtain clifd un s1 where a: "syscall (k_accept k listenfd) s = (Some (clifd, un), s1)"
    by (auto simp: unix_server_accept_def split: prod.splits option.splits)
  let ?p = "case un of SockUn p \<Rightarrow> p | SockIn _ _ \<Rightarrow> []"
  from assms a obtain st s2 where t: "syscall (k_stat k ?p) s1 = (Some st, s2)"
    by (auto simp: unix_server_accept_def errout_def Let_def split: prod.splits option.splits if_splits)
  from assms have "length ?p + 1 < SUN_PATH_LEN"
    by (auto simp: unix_server_accept_def a Let_def sun_path_len_def SUN_PATH_LEN_def split: if_splits sockaddr.splits)
  moreover from assms
  have "st_mode st AND (S_IRWXG OR S_IRWXO) = 0" "st_mode st AND S_IRWXU = S_IRWXU"
    "\<forall>t \<in> {st_atime st, st_ctime st, st_mtime st}. k_time k (world s2) - STALE \<le> t"
    "clifd = fd" "uid = (if uidptr then Some (st_uid st) else None)"
    "s' = snd (syscall (k_unlink k ?p) s2)"
    by (auto simp: unix_server_accept_def a t errout_def Let_def split: prod.splits if_splits)
  ultimately show ?thesis using a t by blast
qed

lemma unix_server_accept_fault:
  assumes "unix_server_accept k listenfd uidptr s = Fault f"
  shows "f = BufferOverflow \<and> (\<exists>clifd p s'. syscall (k_accept k listenfd) s = (Some (clifd, SockUn p), s') \<and> 107 \<le> length p)"
  using assms
  by (auto simp: unix_server_accept_def sun_path_len_def SUN_PATH_LEN_def Let_def
      split: prod.splits option.splits if_splits sockaddr.splits)

definition demo_stat :: stat where
  "demo_stat = \<lparr>st_mode = 0xC1C0, st_uid = 17, st_atime = 990, st_mtime = 980, st_ctime = 985\<rparr>"

theorem unix_server_accept_checked_witness:
  "\<exists>un s1 path st s2. syscall (k_accept sim_kernel 3)
       \<lparr>errno = EINTR, world = quiet\<lparr>backlog := [(7, SockUn ''p'')], files := [(''p'', demo_stat)]\<rparr>\<rparr>
       = (Some (7, un), s1)
    \<and> path = (case un of SockUn p \<Rightarrow> p | SockIn _ _ \<Rightarrow> []) \<and> length path + 1 < SUN_PATH_LEN
    \<and> syscall (k_stat sim_kernel path) s1 = (Some st, s2)
    \<and> st_mode st AND (S_IRWXG OR S_IRWXO) = 0 \<and> st_mode st AND S_IRWXU = S_IRWXU
    \<and> (\<forall>t \<in> {st_atime st, st_ctime st, st_mtime st}. k_time sim_kernel (world s2) - STALE \<le> t)
    \<and> Some 17 = (if True then Some (st_uid st) else None)
    \<and> \<lparr>errno = EINTR, world = quiet\<rparr> = snd (syscall (k_unlink sim_kernel path) s2)"
  by (rule unix_server_accept_checked)
    (simp_all add: unix_server_accept_def sim_defs quiet_def demo_stat_def SUN_PATH_LEN_def sun_path_len_def
      S_IRWXG_def S_IRWXO_def S_IRWXU_def STALE_def)

text \<open>The state after an error return: the socket closed, \<open>errno\<close> that of the failed call.\<close>

definition closed_with :: "'w kernel \<Rightarrow> int \<Rightarrow> 'a sysres \<times> 'w \<Rightarrow> 'w proc \<Rightarrow> bool" where
  "closed_with k fd r s' \<longleftrightarrow> (case r of
     (Fail e, w) \<Rightarrow> errno s' = e \<and> world s' = snd (k_close k fd w) | (Ok _, _) \<Rightarrow> False)"

lemma errout_closed_with:
  assumes "syscall f s = (None, t)" and "errout k fd rval t = (r, s')"
  shows "r = rval \<and> closed_with k fd (f (world s)) s'"
  using assms(2) syscall_NoneD [OF assms(1)]
  by (auto simp: errout_def closed_with_def syscall_def Let_def split: prod.splits sysres.splits)

text \<open>
  an error return of \<open>unix_client_conn\<close> names the step that failed, leaves no socket
  behind and reports the right error: the result is \<open>-2\<close>, \<open>-3\<close> or \<open>-4\<close> exactly as \<open>bind\<close>,
  \<open>chmod\<close> or \<open>connect\<close> failed on the newly created socket, that socket was then closed, and
  \<open>errno\<close> holds the error of the failed call whatever \<open>close\<close> did to it.
\<close>

theorem unix_client_conn_error:
  assumes "unix_client_conn k name s = Ret (r, s')" and "r < 0"
    and "\<And>fd w'. k_socket k AF_UNIX (world s) = (Ok fd, w') \<Longrightarrow> 0 \<le> fd"
  shows "\<exists>fd path w. k_socket k AF_UNIX (world s) = (Ok fd, fst w) \<and> path = client_path (k_getpid k (fst w))
    \<and> (r = - 2 \<and> closed_with k fd (k_bind k fd (SockUn path) (snd w)) s'
     \<or> r = - 3 \<and> closed_with k fd (k_chmod k path CLI_PERM (snd w)) s'
     \<or> r = - 4 \<and> closed_with k fd (k_connect k fd (SockUn name) (snd w)) s')"
proof -
  obtain fd s1 where so: "syscall (k_socket k AF_UNIX) s = (Some fd, s1)"
    using assms(1) by (auto simp: unix_client_conn_def split: prod.splits option.splits)
  note S = syscall_SomeD [OF so]
  let ?p = "client_path (k_getpid k (world s1))"
  let ?s2 = "snd (syscall (k_unlink k ?p) s1)"
  from assms(3) S have "0 \<le> fd" by blast
  with assms(1,2) consider
      s3 where "syscall (k_bind k fd (SockUn ?p)) ?s2 = (None, s3)" "errout k fd (- 2) s3 = (r, s')"
    | s3 s4 where "syscall (k_chmod k ?p CLI_PERM) s3 = (None, s4)" "errout k fd (- 3) s4 = (r, s')"
    | s4 s5 where "syscall (k_connect k fd (SockUn name)) s4 = (None, s5)" "errout k fd (- 4) s5 = (r, s')"
    by (auto simp: unix_client_conn_def so Let_def split: prod.splits option.splits if_splits)
  then have "\<exists>w. r = - 2 \<and> closed_with k fd (k_bind k fd (SockUn ?p) w) s'
     \<or> r = - 3 \<and> closed_with k fd (k_chmod k ?p CLI_PERM w) s'
     \<or> r = - 4 \<and> closed_with k fd (k_connect k fd (SockUn name) w) s'"
    by cases (blast dest: errout_closed_with)+
  with S show ?thesis by auto
qed

theorem unix_client_conn_error_witness:
  "\<exists>fd path w. k_socket (sim_kernel\<lparr>k_connect := (\<lambda>_ _ w. (Fail (EOTHER 111), w))\<rparr>) AF_UNIX quiet = (Ok fd, fst w)
    \<and> path = client_path (k_getpid (sim_kernel\<lparr>k_connect := (\<lambda>_ _ w. (Fail (EOTHER 111), w))\<rparr>) (fst w))
    \<and> (closed_with (sim_kernel\<lparr>k_connect := (\<lambda>_ _ w. (Fail (EOTHER 111), w))\<rparr>) fd
          (Fail (EOTHER 111) :: unit sysres, snd w)
          \<lparr>errno = EOTHER 111, world = quiet\<lparr>next_fd := 4, closed := [3]\<rparr>\<rparr>)"
proof -
  let ?k = "sim_kernel\<lparr>k_connect := (\<lambda>_ _ w. (Fail (EOTHER 111), w))\<rparr>"
  let ?s = "\<lparr>errno = EOTHER 5, world = quiet\<rparr>"
  let ?s' = "\<lparr>errno = EOTHER 111, world = quiet\<lparr>next_fd := 4, closed := [3]\<rparr>\<rparr>"
  have *: "unix_client_conn ?k ''srv'' ?s = Ret (- 4, ?s')"
    by (simp add: unix_client_conn_def errout_def sim_defs quiet_def SUN_PATH_LEN_def Let_def)
  have nn: "0 \<le> fd" if "k_socket ?k AF_UNIX (world ?s) = (Ok fd, w')" for fd w'
    using that by (auto simp: quiet_def)
  show ?thesis using unix_client_conn_error [OF * _ nn] by (auto simp: quiet_def)
qed

end
