(* ===== verification/Epoll.thy ===== *)
theory Epoll
  imports Inet_Conn Inet_Socket Unix_Socket
begin

text \<open>
  The event multiplexer (\<open>hot_upgrade_demo/epoll.h\<close>, \<open>epoll.cc\<close>): a singleton that wraps an
  epoll descriptor, remembers the listening descriptors and owns the table of TCP
  connections.  The table stores pointers in the source; a connection is reachable only
  through it, so the model stores the objects.

  The lemmas show what \<open>Poll\<close> makes of the kernel's events, that it never reports an error,
  and how starting, attaching and detaching a listener changes the state.
\<close>

section \<open>Data\<close>

definition MAX_EVENTS :: nat where "MAX_EVENTS = 10000"

definition EPOLLIN :: u32 where "EPOLLIN = 0x1"
definition EPOLLOUT :: u32 where "EPOLLOUT = 0x4"
definition EPOLLERR :: u32 where "EPOLLERR = 0x8"
definition EPOLLHUP :: u32 where "EPOLLHUP = 0x10"
definition EPOLLET :: u32 where "EPOLLET = 0x80000000"

record FiredEvent =
  mask :: u32
  fired_fd :: int

record Epoll =
  epfd :: int
  inet_listen_fd :: int
  unix_listen_fd :: int
  ep_unix_conn_fd :: int
  ep_unix_client_fd :: int
  inet_conn_map :: "int \<rightharpoonup> InetConn"
  firedevent :: "FiredEvent list"

section \<open>Operations\<close>

definition new_Epoll :: "'w kernel \<Rightarrow> FiredEvent list \<Rightarrow> 'w proc \<Rightarrow> Epoll \<times> 'w proc" where
  "new_Epoll k junk s = (let (r, s') = syscall (k_epoll_create k) s in
     (\<lparr>epfd = (case r of None \<Rightarrow> - 1 | Some fd \<Rightarrow> fd), inet_listen_fd = - 1, unix_listen_fd = - 1,
       ep_unix_conn_fd = - 1, ep_unix_client_fd = - 1, inet_conn_map = Map.empty,
       firedevent = junk\<rparr>, s'))"

definition delete_Epoll :: "'w kernel \<Rightarrow> Epoll \<Rightarrow> 'w proc \<Rightarrow> 'w proc" where
  "delete_Epoll k ep s = snd (sys_close k (epfd ep) s)"

text \<open>The body of the copying loop in \<open>Poll\<close>.\<close>

definition fire :: "u32 \<times> int \<Rightarrow> FiredEvent" where
  "fire e = (let events = fst e; m0 = 0;
       m1 = (if events AND EPOLLIN \<noteq> 0 then m0 OR EPOLLIN else m0);
       m2 = (if events AND EPOLLOUT \<noteq> 0 then m1 OR EPOLLOUT else m1);
       m3 = (if events AND EPOLLERR \<noteq> 0 then m2 OR EPOLLERR else m2);
       m4 = (if events AND EPOLLHUP \<noteq> 0 then m3 OR EPOLLHUP else m3)
     in \<lparr>mask = m4, fired_fd = snd e\<rparr>)"

text \<open>The first events of the array are overwritten, the others keep older entries.\<close>

definition Poll :: "'w kernel \<Rightarrow> int \<Rightarrow> Epoll \<Rightarrow> 'w proc \<Rightarrow> int \<times> Epoll \<times> 'w proc" where
  "Poll k timeout ep s = (case syscall (k_epoll_wait k (epfd ep) MAX_EVENTS timeout) s of
     (None, s') \<Rightarrow> (0, ep, s')
   | (Some events, s') \<Rightarrow>
       (int (length events),
        ep\<lparr>firedevent := map fire events @ drop (length events) (firedevent ep)\<rparr>, s'))"

definition epoll_ctl_result :: "unit option \<Rightarrow> int" where
  "epoll_ctl_result r = (case r of None \<Rightarrow> - 1 | Some _ \<Rightarrow> 0)"

definition AddEvent :: "'w kernel \<Rightarrow> int \<Rightarrow> u32 \<Rightarrow> Epoll \<Rightarrow> 'w proc \<Rightarrow> int \<times> 'w proc" where
  "AddEvent k fd m ep s =
     apfst epoll_ctl_result (syscall (k_epoll_ctl k (epfd ep) EPOLL_CTL_ADD fd m) s)"

definition ModEvent :: "'w kernel \<Rightarrow> int \<Rightarrow> u32 \<Rightarrow> Epoll \<Rightarrow> 'w proc \<Rightarrow> int \<times> 'w proc" where
  "ModEvent k fd m ep s =
     apfst epoll_ctl_result (syscall (k_epoll_ctl k (epfd ep) EPOLL_CTL_MOD fd m) s)"

text \<open>The event mask passed with a deletion is uninitialised and ignored by the kernel.\<close>

definition DelEvent :: "'w kernel \<Rightarrow> int \<Rightarrow> Epoll \<Rightarrow> 'w proc \<Rightarrow> int \<times> 'w proc" where
  "DelEvent k fd ep s =
     apfst epoll_ctl_result (syscall (k_epoll_ctl k (epfd ep) EPOLL_CTL_DEL fd 0) s)"

text \<open>The function has no return statement; its result is never used.\<close>

definition detachInetListenFd :: "'w kernel \<Rightarrow> Epoll \<Rightarrow> 'w proc \<Rightarrow> Epoll \<times> 'w proc" where
  "detachInetListenFd k ep s =
     (let s1 = snd (DelEvent k (inet_listen_fd ep) ep s);
          s2 = snd (sys_close k (inet_listen_fd ep) s1)
      in (ep\<lparr>inet_listen_fd := - 1\<rparr>, s2))"

definition attachInetListenFd :: "'w kernel \<Rightarrow> int \<Rightarrow> Epoll \<Rightarrow> 'w proc \<Rightarrow> bool \<times> Epoll \<times> 'w proc" where
  "attachInetListenFd k il_fd ep s =
     (let ep' = ep\<lparr>inet_listen_fd := il_fd\<rparr>
      in (True, ep', snd (AddEvent k (inet_listen_fd ep') EPOLLIN ep' s)))"

definition startInetServer :: "'w kernel \<Rightarrow> int \<Rightarrow> Epoll \<Rightarrow> 'w proc \<Rightarrow> bool \<times> Epoll \<times> 'w proc" where
  "startInetServer k port ep s =
     (let (fd, s1) = inet_server_listen k port s; ep' = ep\<lparr>inet_listen_fd := fd\<rparr> in
      if inet_listen_fd ep' = - 1 then (False, ep', s1)
      else (True, ep', snd (AddEvent k (inet_listen_fd ep') EPOLLIN ep' s1)))"

definition startUnixServer :: "'w kernel \<Rightarrow> string \<Rightarrow> Epoll \<Rightarrow> 'w proc
    \<Rightarrow> (bool \<times> Epoll \<times> 'w proc) outcome" where
  "startUnixServer k path ep s = (case unix_server_listen k path s of
       Exit n \<Rightarrow> Exit n
     | Fault f \<Rightarrow> Fault f
     | Ret (fd, s1) \<Rightarrow> (let ep' = ep\<lparr>unix_listen_fd := fd\<rparr> in
         if unix_listen_fd ep' < 0 then Ret (False, ep', s1)
         else Ret (True, ep', snd (AddEvent k (unix_listen_fd ep') EPOLLIN ep' s1))))"

text \<open>The singleton: \<open>None\<close> is the null pointer \<open>s_instance\<close> starts with.\<close>

definition getInstance :: "'w kernel \<Rightarrow> FiredEvent list \<Rightarrow> Epoll option \<Rightarrow> 'w proc \<Rightarrow> Epoll \<times> 'w proc" where
  "getInstance k junk s_instance s = (case s_instance of
     None \<Rightarrow> new_Epoll k junk s | Some ep \<Rightarrow> (ep, s))"

section \<open>Properties\<close>

lemmas epoll_masks = EPOLLIN_def EPOLLOUT_def EPOLLERR_def EPOLLHUP_def EPOLLET_def

lemma single_bit_mask: "e AND 2 ^ n = (if bit e n then 2 ^ n else (0 :: u32))"
  by (rule bit_word_eqI) (auto simp: bit_simps)

lemma event_bits:
  "e AND EPOLLIN = (if bit e 0 then EPOLLIN else 0)"
  "e AND EPOLLOUT = (if bit e 2 then EPOLLOUT else 0)"
  "e AND EPOLLERR = (if bit e 3 then EPOLLERR else 0)"
  "e AND EPOLLHUP = (if bit e 4 then EPOLLHUP else 0)"
  using single_bit_mask [of e 0] single_bit_mask [of e 2] single_bit_mask [of e 3]
    single_bit_mask [of e 4]
  by (simp_all add: epoll_masks)

lemma event_masks_nonzero [simp]: "EPOLLIN \<noteq> 0" "EPOLLOUT \<noteq> 0" "EPOLLERR \<noteq> 0" "EPOLLHUP \<noteq> 0"
  by (simp_all add: epoll_masks)

lemma fire_mask: "mask (fire e) = fst e AND (EPOLLIN OR EPOLLOUT OR EPOLLERR OR EPOLLHUP)"
  unfolding bit.conj_disj_distrib event_bits fire_def Let_def
  by (simp add: or.assoc)

lemma fire_fd [simp]: "fired_fd (fire e) = snd e"
  by (simp add: fire_def Let_def)

text \<open>Tests of a single event on a fired mask are tests on the kernel's events.\<close>

lemma fire_tests:
  "mask (fire e) AND EPOLLIN \<noteq> 0 \<longleftrightarrow> bit (fst e) 0"
  "mask (fire e) AND EPOLLOUT \<noteq> 0 \<longleftrightarrow> bit (fst e) 2"
  "mask (fire e) AND EPOLLERR \<noteq> 0 \<longleftrightarrow> bit (fst e) 3"
  "mask (fire e) AND EPOLLHUP \<noteq> 0 \<longleftrightarrow> bit (fst e) 4"
  unfolding event_bits fire_mask by (simp_all add: bit_and_iff bit_or_iff epoll_masks)

text \<open>
  \<open>Poll\<close> reports the kernel's events one for one and in order, each reduced to the four
  flags the server tests, and changes nothing else in the object; its result is their
  number.  A failing \<open>epoll_wait\<close> counts as no event, so the result is never the \<open>-1\<close> that
  the main loop checks for.
\<close>

theorem Poll_events:
  "\<exists>n ep' s' evs. Poll k timeout ep s = (n, ep', s')
    \<and> evs = (case syscall (k_epoll_wait k (epfd ep) MAX_EVENTS timeout) s of
               (None, _) \<Rightarrow> [] | (Some es, _) \<Rightarrow> es)
    \<and> n = int (length evs) \<and> n \<noteq> - 1
    \<and> map (\<lambda>fe. (mask fe, fired_fd fe)) (take (nat n) (firedevent ep'))
        = map (\<lambda>(m, fd). (m AND (EPOLLIN OR EPOLLOUT OR EPOLLERR OR EPOLLHUP), fd)) evs
    \<and> ep'\<lparr>firedevent := firedevent ep\<rparr> = ep"
  by (auto simp: Poll_def fire_mask split: prod.split option.split)

text \<open>Starting, attaching and detaching touch the listener field only.\<close>

lemma attachInetListenFd_state:
  "attachInetListenFd k fd ep s = (r, ep', s') \<Longrightarrow> r \<and> ep' = ep\<lparr>inet_listen_fd := fd\<rparr>"
  by (auto simp: attachInetListenFd_def Let_def)

lemma detachInetListenFd_state:
  "fst (detachInetListenFd k ep s) = ep\<lparr>inet_listen_fd := - 1\<rparr>"
  by (simp add: detachInetListenFd_def Let_def)

text \<open>
  What detaching relies on: \<open>close\<close> gives the descriptor back, and a deletion fails only for a
  descriptor that is not registered.  Then the process has stopped listening: the
  descriptor is neither open nor registered any more.
\<close>

locale detaching_kernel = epoll_kernel k interest + fd_kernel k opened
  for k :: "'w kernel" and interest :: "int \<Rightarrow> int \<Rightarrow> 'w \<Rightarrow> u32 option" and opened :: "'w \<Rightarrow> int set" +
  assumes del_Fail: "k_epoll_ctl k e EPOLL_CTL_DEL fd m w = (Fail x, w') \<Longrightarrow> interest e fd w = None"
begin

lemma detach_closes:
  assumes "detachInetListenFd k ep s = (ep', s')"
  shows "inet_listen_fd ep \<notin> opened (world s')" and "interest (epfd ep) (inet_listen_fd ep) (world s') = None"
proof -
  let ?l = "inet_listen_fd ep"
  obtain r t where d: "syscall (k_epoll_ctl k (epfd ep) EPOLL_CTL_DEL ?l 0) s = (r, t)" by fastforce
  with assms have c: "s' = snd (sys_close k ?l t)" by (auto simp: detachInetListenFd_def DelEvent_def Let_def)
  show "?l \<notin> opened (world s')" unfolding c by (simp add: sys_keeps(5))
  have "interest (epfd ep) ?l (world t) = None"
    using d del_Fail ctl_Ok ctl_Fail by (cases r) (auto dest!: syscall_SomeD syscall_NoneD)
  moreover have "plain k {?l} t s'" unfolding c by (rule plain_calls_snd) simp_all
  ultimately show "interest (epfd ep) ?l (world s') = None" using plain_interest by metis
qed

end

interpretation sim_detaching: detaching_kernel sim_fd_kernel sim_interest sim_opened
  by unfold_locales (simp add: sim_fd_fields)

lemma startInetServer_state:
  "startInetServer k port ep s = (r, ep', s') \<Longrightarrow>
     ep' = ep\<lparr>inet_listen_fd := inet_listen_fd ep'\<rparr> \<and> (r \<longleftrightarrow> inet_listen_fd ep' \<noteq> - 1)"
  by (auto simp: startInetServer_def Let_def split: prod.splits if_splits)

lemma startUnixServer_state:
  "startUnixServer k path ep s = Ret (r, ep', s') \<Longrightarrow>
     ep' = ep\<lparr>unix_listen_fd := unix_listen_fd ep'\<rparr> \<and> (r \<longleftrightarrow> 0 \<le> unix_listen_fd ep')"
  by (auto simp: startUnixServer_def Let_def split: prod.splits if_splits outcome.splits)

end
