(* ===== verification/Unix_Client.thy ===== *)
theory Unix_Client
  imports Unix_Socket
begin

text \<open>
  The sending side of the hand-over (\<open>hot_upgrade_demo/unix_client.h\<close>, \<open>unix_client.cc\<close>):
  the old server passes its listening socket and its session sockets, each in a message of
  fixed length with the descriptor attached, and waits for an acknowledgement.

  The lemmas show that a transfer always returns, what has been sent when it returns, and
  when that is the message.
\<close>

section \<open>Data\<close>

record UnixClient =
  client_fd :: int
  client_buf :: "byte list"

text \<open>The data buffer comes uninitialised from \<open>malloc\<close>, which is assumed to succeed.\<close>

definition new_UnixClient :: "'w kernel \<Rightarrow> int \<Rightarrow> 'w proc \<Rightarrow> UnixClient" where
  "new_UnixClient k fd s =
     \<lparr>client_fd = fd, client_buf = k_uninit k (nat MSG_DATA_BUF_LEN) (world s)\<rparr>"

text \<open>
  The destructor gives back the two blocks, first \<open>cmptr\<close>, which holds the control message
  with the descriptor, then \<open>msgDataBuf\<close>.  The server never runs it.
\<close>

definition delete_UnixClient :: "int cell \<times> byte list cell \<Rightarrow> (int cell \<times> byte list cell) run" where
  "delete_UnixClient = (\<lambda>(cmptr, msgDataBuf).
     run_bind (Some (cell_free cmptr)) (\<lambda>cmptr'.
       run_bind (Some (cell_free msgDataBuf)) (\<lambda>msgDataBuf'. Some (Ret (cmptr', msgDataBuf')))))"

lemma delete_UnixClient_once:
  "delete_UnixClient (Live c, Live d) = Some (Ret (Freed, Freed))"
  "delete_UnixClient (Freed, b) = Some (Fault UseAfterFree)"
  by (simp_all add: delete_UnixClient_def)

section \<open>Operations\<close>

text \<open>The reply is received into a local buffer that nobody reads.\<close>

definition GetReply :: "'w kernel \<Rightarrow> UnixClient \<Rightarrow> 'w proc \<Rightarrow> bool \<times> 'w proc" where
  "GetReply k c s = (True, snd (syscall (k_recvmsg k (client_fd c) 8 0) s))"

text \<open>\<open>memset\<close> followed by three \<open>memcpy\<close>: type, length of the data, data, zero padding.\<close>

definition transfer_message :: "MsgRequestType \<Rightarrow> byte list \<Rightarrow> byte list" where
  "transfer_message msgType data =
     (let body = bytes_of_word32 (msg_type_code msgType) @ bytes_of_word32 (of_nat (length data)) @ data
      in body @ replicate (nat MSG_DATA_BUF_LEN - length body) 0)"

definition listen_data :: "byte list" where "listen_data = chars ''listen fd data''"
definition session_data :: "byte list" where "session_data = chars ''session fd data''"

text \<open>
  The sending loop.  Every round passes the same \<open>msghdr\<close>, that is, the whole buffer from
  its start and the same descriptor.  \<open>None\<close> in the first component is the early return of
  \<open>kSendMsgError\<close>, otherwise it is the final value of \<open>send\<close>.
\<close>

partial_function (option) send_loop ::
  "'w kernel \<Rightarrow> int \<Rightarrow> byte list \<Rightarrow> int \<Rightarrow> int \<Rightarrow> 'w proc \<Rightarrow> (int option \<times> 'w proc) option" where
  "send_loop k fd buf fd_to_send send s =
     (if send < MSG_DATA_BUF_LEN
      then case syscall (k_sendmsg k fd buf (Some fd_to_send)) s of
          (None, s') \<Rightarrow>
            if errno s' = EINTR \<or> errno s' = EAGAIN then send_loop k fd buf fd_to_send send s'
            else Some (None, s')
        | (Some sendlen, s') \<Rightarrow> send_loop k fd buf fd_to_send (send + int sendlen) s'
      else Some (Some send, s))"

definition transfer :: "'w kernel \<Rightarrow> MsgRequestType \<Rightarrow> byte list \<Rightarrow> UnixClient \<Rightarrow> int \<Rightarrow> 'w proc
    \<Rightarrow> (SendMsgStatus \<times> UnixClient \<times> 'w proc) option" where
  "transfer k msgType data c fd s =
     (let c' = c\<lparr>client_buf := transfer_message msgType data\<rparr> in
      case send_loop k (client_fd c) (client_buf c') fd 0 s of
        None \<Rightarrow> None
      | Some (None, s') \<Rightarrow> Some (kSendMsgError, c', s')
      | Some (Some send, s') \<Rightarrow>
          if send \<noteq> MSG_DATA_BUF_LEN then Some (kSendMsgError, c', s')
          else Some (kSendMsgOk, c', snd (GetReply k c' s')))"

definition TransferListenFd :: "'w kernel \<Rightarrow> UnixClient \<Rightarrow> int \<Rightarrow> 'w proc
    \<Rightarrow> (SendMsgStatus \<times> UnixClient \<times> 'w proc) option" where
  "TransferListenFd k = transfer k kTransferListenFd listen_data"

definition TransferSessionFd :: "'w kernel \<Rightarrow> UnixClient \<Rightarrow> int \<Rightarrow> 'w proc
    \<Rightarrow> (SendMsgStatus \<times> UnixClient \<times> 'w proc) option" where
  "TransferSessionFd k = transfer k kTransferSessionFd session_data"

section \<open>The loop\<close>

lemma length_transfer_message:
  "length data \<le> 1016 \<Longrightarrow> length (transfer_message t data) = 1024"
  by (simp add: transfer_message_def MSG_DATA_BUF_LEN_def Let_def)

lemma length_data [simp]: "length listen_data = 14" "length session_data = 15"
  by (simp_all add: listen_data_def session_data_def)

context msg_kernel
begin

text \<open>
  The loop returns, and what it has sent is a sequence of prefixes of the buffer, each with
  the descriptor; a final value of \<open>send\<close> is the sum of their lengths.
\<close>

lemma send_loop_returns:
  assumes "buf \<noteq> []" and "0 \<le> send"
  shows "\<exists>r s' ns. send_loop k fd buf cfd send s = Some (r, s')
    \<and> (\<forall>n \<in> set ns. n \<le> length buf)
    \<and> sent fd (world s') = sent fd (world s) @ map (\<lambda>n. (take n buf, Some cfd)) ns
    \<and> (\<forall>v. r = Some v \<longrightarrow> v = send + int (sum_list ns) \<and> MSG_DATA_BUF_LEN \<le> v)"
  using assms(2)
proof (induction "(nat (MSG_DATA_BUF_LEN - send), patience (world s))" arbitrary: send s
    rule: wf_induct_rule [OF wf_lex_prod [OF wf_less_than wf_less_than]])
  case (1 send s)
  show ?case
  proof (cases "send < MSG_DATA_BUF_LEN")
    case False
    then show ?thesis
      by (intro exI [of _ "Some send"] exI [of _ s] exI [of _ "[]"]) (simp add: send_loop.simps)
  next
    case True
    obtain r s1 where c: "syscall (k_sendmsg k fd buf (Some cfd)) s = (r, s1)" by fastforce
    show ?thesis
    proof (cases r)
      case None
      note N = sys_sendmsg_None [OF c [unfolded None]]
      show ?thesis
      proof (cases "errno s1 = EINTR \<or> errno s1 = EAGAIN")
        case transient: True
        with N(2) have "((nat (MSG_DATA_BUF_LEN - send), patience (world s1)),
            (nat (MSG_DATA_BUF_LEN - send), patience (world s))) \<in> less_than <*lex*> less_than"
          by simp
        from 1(1) [OF this 1(2)] obtain r' s' ns where "send_loop k fd buf cfd send s1 = Some (r', s')"
            "\<forall>n \<in> set ns. n \<le> length buf"
            "sent fd (world s') = sent fd (world s1) @ map (\<lambda>n. (take n buf, Some cfd)) ns"
            "\<forall>v. r' = Some v \<longrightarrow> v = send + int (sum_list ns) \<and> MSG_DATA_BUF_LEN \<le> v"
          by blast
        with True c None transient N(1) show ?thesis
          by (subst send_loop.simps) fastforce
      next
        case False
        with True c None N(1) show ?thesis
          by (subst send_loop.simps) (auto intro!: exI [of _ "[]"])
      qed
    next
      case (Some n)
      note S = sys_sendmsg_Some [OF c [unfolded Some]]
      from S(3) assms(1) have "0 < n" by blast
      with True have "((nat (MSG_DATA_BUF_LEN - (send + int n)), patience (world s1)),
          (nat (MSG_DATA_BUF_LEN - send), patience (world s))) \<in> less_than <*lex*> less_than"
        by simp
      from 1(1) [OF this] 1(2) obtain r' s' ns where *: "send_loop k fd buf cfd (send + int n) s1 = Some (r', s')"
          "\<forall>n \<in> set ns. n \<le> length buf"
          "sent fd (world s') = sent fd (world s1) @ map (\<lambda>n. (take n buf, Some cfd)) ns"
          "\<forall>v. r' = Some v \<longrightarrow> v = send + int n + int (sum_list ns) \<and> MSG_DATA_BUF_LEN \<le> v"
        by fastforce
      show ?thesis
        using True c Some * S(1,2)
        by (subst send_loop.simps) (auto intro!: exI [of _ "n # ns"])
    qed
  qed
qed


lemma transfer_returns:
  assumes "length data \<le> 1016"
  shows "\<exists>st c' s' ns. transfer k t data c fd s = Some (st, c', s')
    \<and> sent (client_fd c) (world s') = sent (client_fd c) (world s)
        @ map (\<lambda>n. (take n (transfer_message t data), Some fd)) ns
    \<and> (\<forall>n \<in> set ns. n \<le> 1024) \<and> (st = kSendMsgOk \<longrightarrow> sum_list ns = 1024)"
proof -
  let ?m = "transfer_message t data"
  note len = length_transfer_message [OF assms, of t]
  then have "?m \<noteq> []" by auto
  from send_loop_returns [OF this, of 0 "client_fd c" fd s] obtain r s1 ns
    where l: "send_loop k (client_fd c) ?m fd 0 s = Some (r, s1)"
      and ns: "\<forall>n \<in> set ns. n \<le> length ?m"
        "sent (client_fd c) (world s1) = sent (client_fd c) (world s) @ map (\<lambda>n. (take n ?m, Some fd)) ns"
      and sum: "\<forall>v. r = Some v \<longrightarrow> v = int (sum_list ns)"
    by auto
  show ?thesis
  proof (cases r)
    case None
    with l ns len show ?thesis by (auto simp: transfer_def Let_def)
  next
    case (Some v)
    show ?thesis
    proof (cases "v = MSG_DATA_BUF_LEN")
      case True
      with Some sum have "sum_list ns = 1024" by (auto simp: MSG_DATA_BUF_LEN_def)
      with True Some l ns len show ?thesis
        by (auto simp: transfer_def Let_def GetReply_def sys_recvmsg_sent)
    next
      case False
      with Some l ns len show ?thesis by (auto simp: transfer_def Let_def)
    qed
  qed
qed

end

section \<open>Properties\<close>

text \<open>
  passing a descriptor always returns, whatever the pattern of interruptions and short
  sends, and what has then been sent on the socket is a sequence of prefixes of the
  1024-byte message, each with the descriptor attached; on \<open>kSendMsgOk\<close> their lengths add
  up to 1024.  In particular a success with a single send means that exactly the message
  and the descriptor were sent, once.
\<close>

theorem TransferSessionFd_returns:
  assumes "msg_kernel k sent inbox patience"
  shows "\<exists>st c' s' ns. TransferSessionFd k c fd s = Some (st, c', s')
    \<and> sent (client_fd c) (world s') = sent (client_fd c) (world s)
        @ map (\<lambda>n. (take n (transfer_message kTransferSessionFd session_data), Some fd)) ns
    \<and> (st = kSendMsgOk \<longrightarrow> sum_list ns = 1024)"
  using msg_kernel.transfer_returns [OF assms, of session_data kTransferSessionFd c fd s]
  unfolding TransferSessionFd_def by fastforce

theorem TransferSessionFd_returns_witness:
  "\<exists>st c' s' ns. TransferSessionFd sim_kernel \<lparr>client_fd = 4, client_buf = []\<rparr> 9
       \<lparr>errno = EINTR, world = quiet\<lparr>schedule := [Intr, Again]\<rparr>\<rparr> = Some (st, c', s')
    \<and> sim_sent 4 (world s') =
        map (\<lambda>n. (take n (transfer_message kTransferSessionFd session_data), Some 9)) ns
    \<and> (st = kSendMsgOk \<longrightarrow> sum_list ns = 1024)"
  using TransferSessionFd_returns [OF sim_msg.msg_kernel_axioms, where fd = 9
      and c = "\<lparr>client_fd = 4, client_buf = []\<rparr>"
      and s = "\<lparr>errno = EINTR, world = quiet\<lparr>schedule := [Intr, Again]\<rparr>\<rparr>"]
  by (simp add: sim_sent_def quiet_def)

text \<open>
  C38: a short send corrupts the message and goes unnoticed.  If the kernel first accepts
  \<open>n\<close> bytes with \<open>23 \<le> n < 1024\<close> and then \<open>1024 - n\<close>, \<open>TransferSessionFd\<close> answers
  \<open>kSendMsgOk\<close>, although the bytes sent are not the message and the descriptor was sent twice.
\<close>

theorem TransferSessionFd_short_send:
  assumes "msg_kernel k sent inbox patience"
    and "msg = transfer_message kTransferSessionFd session_data"
    and "syscall (k_sendmsg k (client_fd c) msg (Some fd)) s = (Some n, s1)" and "23 \<le> n" and "n < 1024"
    and "syscall (k_sendmsg k (client_fd c) msg (Some fd)) s1 = (Some (1024 - n), s2)"
  shows "\<exists>c' s'. TransferSessionFd k c fd s = Some (kSendMsgOk, c', s')
    \<and> sent (client_fd c) (world s')
        = sent (client_fd c) (world s) @ [(take n msg, Some fd), (take (1024 - n) msg, Some fd)]
    \<and> take n msg @ take (1024 - n) msg \<noteq> msg"
proof -
  note S = msg_kernel.sys_sendmsg_Some(2) [OF assms(1)]
  have len: "length msg = 1024" by (simp add: assms(2) length_transfer_message)
  have "(take n msg @ take (1024 - n) msg) ! n = msg ! 0" using len assms(5) by (simp add: nth_append)
  moreover have "msg ! 0 = 3" by (simp add: assms(2) transfer_message_def Let_def bytes_of_word32_def)
  moreover have "msg ! n = 0"
    using assms(4,5) by (auto simp: assms(2) transfer_message_def Let_def nth_append MSG_DATA_BUF_LEN_def)
  ultimately have "take n msg @ take (1024 - n) msg \<noteq> msg" by fastforce
  moreover have "send_loop k (client_fd c) msg fd 0 s = Some (Some 1024, s2)"
    using assms(3,5,6)
    by (simp add: send_loop.simps [of k "client_fd c" msg fd 0 s]
        send_loop.simps [of k "client_fd c" msg fd "int n" s1]
        send_loop.simps [of k "client_fd c" msg fd 1024 s2] MSG_DATA_BUF_LEN_def)
  ultimately show ?thesis
    using S [OF assms(3)] S [OF assms(6)] msg_kernel.sys_recvmsg_sent [OF assms(1)]
    by (simp add: TransferSessionFd_def transfer_def Let_def MSG_DATA_BUF_LEN_def GetReply_def
        assms(2) [symmetric])
qed

theorem TransferSessionFd_short_send_witness:
  "\<exists>c' s'. TransferSessionFd sim_kernel \<lparr>client_fd = 4, client_buf = []\<rparr> 9
       \<lparr>errno = EINTR, world = quiet\<lparr>schedule := [Chunk 23, Chunk 999]\<rparr>\<rparr> = Some (kSendMsgOk, c', s')
    \<and> concat (map fst (sim_sent 4 (world s')))
        \<noteq> transfer_message kTransferSessionFd session_data"
proof -
  let ?msg = "transfer_message kTransferSessionFd session_data"
  let ?c = "\<lparr>client_fd = 4, client_buf = []\<rparr>"
  let ?s = "\<lparr>errno = EINTR, world = quiet\<lparr>schedule := [Chunk 23, Chunk 999]\<rparr>\<rparr>"
  have len: "length ?msg = 1024" by (simp add: length_transfer_message)
  obtain s1 where s1: "syscall (k_sendmsg sim_kernel (client_fd ?c) ?msg (Some 9)) ?s = (Some 24, s1)"
      "schedule (world s1) = [Chunk 999]"
    by (simp add: sim_defs len)
  then obtain s2 where s2:
      "syscall (k_sendmsg sim_kernel (client_fd ?c) ?msg (Some 9)) s1 = (Some (1024 - 24), s2)"
    by (simp add: sim_defs len)
  from TransferSessionFd_short_send [OF sim_msg.msg_kernel_axioms refl s1(1) _ _ s2] show ?thesis
    by (auto simp: sim_sent_def quiet_def)
qed

end
