(* ===== verification/Unix_Conn.thy ===== *)
theory Unix_Conn
  imports Epoll Unix_Client
begin

text \<open>
  The receiving side of the hand-over (\<open>hot_upgrade_demo/unix_conn.h\<close>, \<open>unix_conn.cc\<close>): the
  new server collects a message of fixed length with a descriptor attached, registers the
  descriptor as its listener or as a session, and acknowledges.

  The lemmas show that \<open>processRecv\<close> always returns and never fails its assertion, that a
  message built by the sending side is decoded to what was sent, and what is registered.
\<close>

section \<open>Data\<close>

text \<open>
  \<open>uc_cmptr\<close> is the descriptor slot of the control buffer and \<open>msgDataBuf\<close> the data buffer;
  both come uninitialised from \<open>malloc\<close>, which is assumed to succeed.
\<close>

record UnixConn =
  uc_fd :: int
  uc_cmptr :: int
  msgDataBuf :: "nat \<Rightarrow> byte"

definition new_UnixConn :: "'w kernel \<Rightarrow> int \<Rightarrow> 'w proc \<Rightarrow> UnixConn" where
  "new_UnixConn k fd s = \<lparr>uc_fd = fd,
     uc_cmptr = sint (word32_of_bytes (k_uninit k 4 (world s))),
     msgDataBuf = (\<lambda>i. k_uninit k (nat MSG_DATA_BUF_LEN) (world s) ! i)\<rparr>"

section \<open>Operations\<close>

text \<open>
  The receiving loop.  The \<open>msghdr\<close> is reused: the whole buffer every time, and the
  \<open>msg_controllen\<close> the kernel stored on the previous success.  A control message overwrites
  the slot, otherwise the slot keeps its content.  \<open>Inl\<close> is an early return, \<open>Inr\<close> the
  collected \<open>requestStr\<close>.
\<close>

partial_function (option) recv_loop ::
  "'w kernel \<Rightarrow> UnixConn \<Rightarrow> nat \<Rightarrow> byte list \<Rightarrow> int \<Rightarrow> 'w proc
    \<Rightarrow> ((RecvMsgStatus + byte list) \<times> UnixConn \<times> 'w proc) option" where
  "recv_loop k u controllen requestStr read s =
     (if read < MSG_DATA_BUF_LEN
      then case syscall (k_recvmsg k (uc_fd u) (nat MSG_DATA_BUF_LEN) controllen) s of
          (None, s') \<Rightarrow>
            if errno s' = EAGAIN \<or> errno s' = EINTR then recv_loop k u controllen requestStr read s'
            else Some (Inl kRecvMsgClose, u, s')
        | (Some (bs, ctl), s') \<Rightarrow>
            (let u' = u\<lparr>uc_cmptr := (case ctl of None \<Rightarrow> uc_cmptr u | Some d \<Rightarrow> d),
                        msgDataBuf := store (msgDataBuf u) 0 bs\<rparr> in
             if bs = [] then Some (Inl kRecvMsgClose, u', s')
             else recv_loop k u' (case ctl of None \<Rightarrow> 0 | Some _ \<Rightarrow> CONTROLLEN)
                    (requestStr @ load (msgDataBuf u') 0 (length bs)) (read + int (length bs)) s')
      else Some (Inr requestStr, u, s))"

text \<open>The reply buffer: the text, its terminating zero, and five bytes never written.\<close>

definition reply_message :: "byte list \<Rightarrow> byte list" where
  "reply_message junk = chars reply_ok @ 0 # drop (length reply_ok + 1) junk"

definition makeCommonReply :: "'w kernel \<Rightarrow> UnixConn \<Rightarrow> 'w proc \<Rightarrow> bool \<times> 'w proc" where
  "makeCommonReply k u s =
     (case syscall (k_sendmsg k (uc_fd u) (reply_message (k_uninit k 8 (world s))) None) s of
        (None, s') \<Rightarrow> (False, s')
      | (Some sendlen, s') \<Rightarrow> (sendlen = 8, s'))"

text \<open>
  Both handlers assert that more than the length field arrived; the length and the data
  behind it are only printed.
\<close>

definition HandleListenFdMsg :: "'w kernel \<Rightarrow> UnixConn \<Rightarrow> int \<Rightarrow> byte list \<Rightarrow> Epoll \<Rightarrow> 'w proc
    \<Rightarrow> (bool \<times> Epoll \<times> 'w proc) outcome" where
  "HandleListenFdMsg k u fd buffer ep s =
     (if \<not> 4 < length buffer then Fault AssertFailed
      else let (_, ep', s1) = attachInetListenFd k fd ep s;
               (_, s2) = makeCommonReply k u s1
           in Ret (True, ep', s2))"

definition HandleSessionFdMsg :: "'w kernel \<Rightarrow> UnixConn \<Rightarrow> int \<Rightarrow> byte list \<Rightarrow> Epoll \<Rightarrow> 'w proc
    \<Rightarrow> (bool \<times> Epoll \<times> 'w proc) outcome" where
  "HandleSessionFdMsg k u fd buffer ep s =
     (if \<not> 4 < length buffer then Fault AssertFailed
      else let conn = new_InetConn (\<lambda>i. k_uninit k (unat READ_BUFFER_SIZE) (world s) ! i) fd
                        ''received conn tmp no ip_port'';
               (_, s1) = SetNonblock k conn s;
               ep' = ep\<lparr>inet_conn_map := (inet_conn_map ep)(fd \<mapsto> conn)\<rparr>;
               (_, s2) = AddEvent k fd (EPOLLIN OR EPOLLET) ep' s1;
               (_, s3) = makeCommonReply k u s2
           in Ret (True, ep', s3))"

text \<open>What \<open>processRecv\<close> does once the message is collected; both handlers' results are ignored.\<close>

definition dispatch_message :: "'w kernel \<Rightarrow> UnixConn \<Rightarrow> byte list \<Rightarrow> Epoll \<Rightarrow> 'w proc
    \<Rightarrow> (RecvMsgStatus \<times> UnixConn \<times> Epoll \<times> 'w proc) outcome" where
  "dispatch_message k u requestStr ep s =
     (let fd = uc_cmptr u; msgType = word32_of_bytes (take 4 requestStr); rest = drop 4 requestStr;
          finish = (\<lambda>r. case r of
              Ret (_, ep', s') \<Rightarrow> Ret (kRecvMsgOk, u, ep', s')
            | Exit n \<Rightarrow> Exit n | Fault f \<Rightarrow> Fault f) in
      if msgType = msg_type_code kTransferListenFd then finish (HandleListenFdMsg k u fd rest ep s)
      else if msgType = msg_type_code kTransferSessionFd then finish (HandleSessionFdMsg k u fd rest ep s)
      else Ret (kRecvMSGParseError, u, ep, s))"

definition processRecv :: "'w kernel \<Rightarrow> UnixConn \<Rightarrow> Epoll \<Rightarrow> 'w proc
    \<Rightarrow> (RecvMsgStatus \<times> UnixConn \<times> Epoll \<times> 'w proc) outcome option" where
  "processRecv k u ep s = (case recv_loop k u CONTROLLEN [] 0 s of
       None \<Rightarrow> None
     | Some (Inl st, u', s') \<Rightarrow> Some (Ret (st, u', ep, s'))
     | Some (Inr requestStr, u', s') \<Rightarrow> Some (dispatch_message k u' requestStr ep s'))"

text \<open>The body is empty although a value is promised.\<close>

definition processSend :: "UnixConn \<Rightarrow> SendMsgStatus outcome" where
  "processSend u = Fault NoReturnValue"

section \<open>The loop\<close>

lemma recv_loop_done: "MSG_DATA_BUF_LEN \<le> read \<Longrightarrow> recv_loop k u cl str read s = Some (Inr str, u, s)"
  by (simp add: recv_loop.simps)

lemma recv_loop_fail:
  "read < MSG_DATA_BUF_LEN \<Longrightarrow>
   syscall (k_recvmsg k (uc_fd u) (nat MSG_DATA_BUF_LEN) cl) s = (None, s') \<Longrightarrow>
   recv_loop k u cl str read s =
     (if errno s' = EAGAIN \<or> errno s' = EINTR then recv_loop k u cl str read s'
      else Some (Inl kRecvMsgClose, u, s'))"
  by (simp add: recv_loop.simps [of k u cl str read s])

definition stored :: "UnixConn \<Rightarrow> byte list \<Rightarrow> int option \<Rightarrow> UnixConn" where
  "stored u bs ctl = u\<lparr>uc_cmptr := (case ctl of None \<Rightarrow> uc_cmptr u | Some d \<Rightarrow> d),
                       msgDataBuf := store (msgDataBuf u) 0 bs\<rparr>"

lemma stored_simps [simp]: "uc_fd (stored u bs c) = uc_fd u"
  "uc_cmptr (stored u bs c) = (case c of None \<Rightarrow> uc_cmptr u | Some d \<Rightarrow> d)"
  by (simp_all add: stored_def)

lemma recv_loop_got:
  "read < MSG_DATA_BUF_LEN \<Longrightarrow>
   syscall (k_recvmsg k (uc_fd u) (nat MSG_DATA_BUF_LEN) cl) s = (Some (bs, ctl), s') \<Longrightarrow>
   recv_loop k u cl str read s =
     (if bs = [] then Some (Inl kRecvMsgClose, stored u bs ctl, s')
      else recv_loop k (stored u bs ctl) (case ctl of None \<Rightarrow> 0 | Some _ \<Rightarrow> CONTROLLEN)
             (str @ bs) (read + int (length bs)) s')"
  using load_store_same [of "msgDataBuf u" 0 bs]
  by (simp add: recv_loop.simps [of k u cl str read s] Let_def stored_def)

context msg_kernel
begin

lemma recv_loop_returns:
  assumes "read = int (length str)"
  shows "\<exists>r u' s' bs. recv_loop k u cl str read s = Some (r, u', s') \<and> uc_fd u' = uc_fd u
    \<and> inbox (uc_fd u) (world s) = bs @ inbox (uc_fd u) (world s')
    \<and> (r = Inl kRecvMsgClose \<or> r = Inr (str @ bs) \<and> 1024 \<le> length (str @ bs))"
  using assms
proof (induction "(nat (MSG_DATA_BUF_LEN - read), patience (world s))" arbitrary: u cl str read s
    rule: wf_induct_rule [OF wf_lex_prod [OF wf_less_than wf_less_than]])
  case (1 read s u cl str)
  show ?case
  proof (cases "read < MSG_DATA_BUF_LEN")
    case False
    with 1(2) show ?thesis by (simp add: recv_loop_done MSG_DATA_BUF_LEN_def)
  next
    case True
    obtain r s1 where c: "syscall (k_recvmsg k (uc_fd u) (nat MSG_DATA_BUF_LEN) cl) s = (r, s1)"
      by fastforce
    show ?thesis
    proof (cases r)
      case None
      note N = sys_recvmsg_None [OF c [unfolded None]]
      show ?thesis
      proof (cases "errno s1 = EINTR \<or> errno s1 = EAGAIN")
        case transient: True
        with N(2) have "((nat (MSG_DATA_BUF_LEN - read), patience (world s1)),
            (nat (MSG_DATA_BUF_LEN - read), patience (world s))) \<in> less_than <*lex*> less_than"
          by simp
        from 1(1) [OF this 1(2), of u cl] transient N(1) recv_loop_fail [OF True c [unfolded None]]
        show ?thesis by auto
      next
        case False
        with N(1) recv_loop_fail [OF True c [unfolded None]] show ?thesis by auto
      qed
    next
      case (Some p)
      obtain bs ctl where p: "p = (bs, ctl)" by fastforce
      note S = sys_recvmsg_Some [OF c [unfolded Some p]] and L = recv_loop_got [OF True c [unfolded Some p]]
      show ?thesis
      proof (cases "bs = []")
        case True
        with S L show ?thesis by auto
      next
        case False
        with True have "((nat (MSG_DATA_BUF_LEN - (read + int (length bs))), patience (world s1)),
            (nat (MSG_DATA_BUF_LEN - read), patience (world s))) \<in> less_than <*lex*> less_than"
          by simp
        from 1(1) [OF this, of "str @ bs" "stored u bs ctl" "case ctl of None \<Rightarrow> 0 | Some _ \<Rightarrow> CONTROLLEN"]
          1(2) S(2) L False show ?thesis by (fastforce intro: exI [of _ "bs @ _"])
      qed
    qed
  qed
qed

end

context passing_kernel
begin

text \<open>A whole message with its descriptor is collected, however it is split.\<close>

lemma recv_loop_message:
  assumes "calm (world s)" and "messages (uc_fd u) (world s) = (b, c) # q" and "b \<noteq> []"
    and "\<forall>m \<in> set q. snd m \<noteq> None" and "length str + length b = 1024" and "c \<noteq> None \<longrightarrow> 20 \<le> cl"
  shows "\<exists>u' s'. recv_loop k u cl str (int (length str)) s = Some (Inr (str @ b), u', s')
    \<and> uc_fd u' = uc_fd u \<and> uc_cmptr u' = (case c of None \<Rightarrow> uc_cmptr u | Some d \<Rightarrow> d)
    \<and> messages (uc_fd u) (world s') = q"
  using assms
proof (induction "(length b, patience (world s))" arbitrary: u cl str s b c
    rule: wf_induct_rule [OF wf_lex_prod [OF wf_less_than wf_less_than]])
  case (1 s b u cl str c)
  note lt = \<open>length str + length b = 1024\<close> \<open>b \<noteq> []\<close>
  from lt have True: "int (length str) < MSG_DATA_BUF_LEN"
    by (cases b) (auto simp: MSG_DATA_BUF_LEN_def)
  obtain r s1 where c: "syscall (k_recvmsg k (uc_fd u) (nat MSG_DATA_BUF_LEN) cl) s = (r, s1)"
    by fastforce
  note C = sys_recvmsg_calm [OF c 1(2)]
  show ?case
  proof (cases r)
    case None
    then have lex: "((length b, patience (world s1)), (length b, patience (world s)))
        \<in> less_than <*lex*> less_than" using C by simp
    from C(2) [OF None] 1(3) have m: "messages (uc_fd u) (world s1) = (b, c) # q" by simp
    from 1(1) [OF lex C(1) m 1(4-7)] recv_loop_fail [OF True c [unfolded None]] C(2) [OF None]
    show ?thesis by auto
  next
    case (Some p)
    obtain bs ctl where p: "p = (bs, ctl)" by fastforce
    have "0 < nat MSG_DATA_BUF_LEN" by (simp add: MSG_DATA_BUF_LEN_def)
    from sys_recvmsg_head [OF c [unfolded Some p] 1(3-5) this] obtain j
      where j: "0 < j" "j \<le> length b" "bs = take j b" "ctl = (if 20 \<le> cl then c else None)"
        and m: "messages (uc_fd u) (world s1) = (if j < length b then (drop j b, None) # q else q)"
      by blast
    from j(1,3) lt(2) have "bs \<noteq> []" by auto
    note L = recv_loop_got [OF True c [unfolded Some p], of str] this
    have ctl: "ctl = c" using j(4) 1(7) by auto
    show ?thesis
    proof (cases "j < length b")
      case False
      with j lt have "bs = b" "MSG_DATA_BUF_LEN \<le> int (length str) + int (length b)"
        by (auto simp: MSG_DATA_BUF_LEN_def)
      with L m False ctl lt show ?thesis by (auto simp: recv_loop_done)
    next
      case less: True
      with j(1) have lex: "((length (drop j b), patience (world s1)), (length b, patience (world s)))
          \<in> less_than <*lex*> less_than" by auto
      from less m have m': "messages (uc_fd (stored u bs ctl)) (world s1) = (drop j b, None) # q" by simp
      have "drop j b \<noteq> []" "length (str @ bs) + length (drop j b) = 1024" using less j(3) lt by auto
      from 1(1) [OF lex C(1) m' this(1) 1(5) this(2), of "case ctl of None \<Rightarrow> 0 | Some _ \<Rightarrow> CONTROLLEN"]
        L j(3) ctl show ?thesis by (auto split: option.splits)
    qed
  qed
qed

end

section \<open>Decoding and registering\<close>

definition message_spec :: "MsgRequestType \<Rightarrow> int \<Rightarrow> Epoll \<Rightarrow> Epoll \<Rightarrow> bool" where
  "message_spec t d ep ep' \<longleftrightarrow>
     (t = kTransferListenFd \<and> ep' = ep\<lparr>inet_listen_fd := d\<rparr>) \<or>
     (t = kTransferSessionFd \<and> (\<exists>junk. ep' = ep\<lparr>inet_conn_map :=
        (inet_conn_map ep)(d \<mapsto> new_InetConn junk d ''received conn tmp no ip_port'')\<rparr>))"

lemma HandleListenFdMsg_spec:
  assumes "4 < length buf"
  obtains s' where "HandleListenFdMsg k u d buf ep s = Ret (True, ep\<lparr>inet_listen_fd := d\<rparr>, s')"
  using assms
  by (auto simp: HandleListenFdMsg_def attachInetListenFd_def Let_def case_prod_beta)

lemma HandleSessionFdMsg_spec:
  assumes "4 < length buf"
  obtains junk s' where "HandleSessionFdMsg k u d buf ep s = Ret (True, ep\<lparr>inet_conn_map :=
        (inet_conn_map ep)(d \<mapsto> new_InetConn junk d ''received conn tmp no ip_port'')\<rparr>, s')"
  using assms by (auto simp: HandleSessionFdMsg_def Let_def case_prod_beta)

lemma msg_type_code_inject [simp]: "msg_type_code a = msg_type_code b \<longleftrightarrow> a = b"
  by (cases a; cases b) simp_all

lemma dispatch_message_spec:
  assumes "8 < length str"
  obtains (ok) t ep' s' where "word32_of_bytes (take 4 str) = msg_type_code t"
      and "dispatch_message k u str ep s = Ret (kRecvMsgOk, u, ep', s')"
      and "message_spec t (uc_cmptr u) ep ep'"
  | (other) "\<forall>t \<in> {kTransferListenFd, kTransferSessionFd}. word32_of_bytes (take 4 str) \<noteq> msg_type_code t"
      and "dispatch_message k u str ep s = Ret (kRecvMSGParseError, u, ep, s)"
proof -
  have len: "4 < length (drop 4 str)" using assms by simp
  consider "word32_of_bytes (take 4 str) = msg_type_code kTransferListenFd"
    | "word32_of_bytes (take 4 str) = msg_type_code kTransferSessionFd"
    | "\<forall>t \<in> {kTransferListenFd, kTransferSessionFd}. word32_of_bytes (take 4 str) \<noteq> msg_type_code t"
    by blast
  then show ?thesis
  proof cases
    case 1
    obtain s' where "HandleListenFdMsg k u (uc_cmptr u) (drop 4 str) ep s
        = Ret (True, ep\<lparr>inet_listen_fd := uc_cmptr u\<rparr>, s')" by (rule HandleListenFdMsg_spec [OF len])
    with 1 show ?thesis by (intro ok [OF 1]) (auto simp: dispatch_message_def Let_def message_spec_def)
  next
    case 2
    obtain junk s' where "HandleSessionFdMsg k u (uc_cmptr u) (drop 4 str) ep s
        = Ret (True, ep\<lparr>inet_conn_map := (inet_conn_map ep)(uc_cmptr u \<mapsto>
            new_InetConn junk (uc_cmptr u) ''received conn tmp no ip_port'')\<rparr>, s')"
      by (rule HandleSessionFdMsg_spec [OF len])
    with 2 show ?thesis by (intro ok [OF 2]) (auto simp: dispatch_message_def Let_def message_spec_def)
  next
    case 3
    then show ?thesis by (intro other [OF 3]) (auto simp: dispatch_message_def)
  qed
qed

lemma transfer_message_type:
  "word32_of_bytes (take 4 (transfer_message t data)) = msg_type_code t"
  by (simp add: transfer_message_def Let_def)

lemma transfer_message_fields:
  assumes "length data \<le> 1016"
  shows "word32_of_bytes (take 4 (drop 4 (transfer_message t data))) = of_nat (length data)"
    and "take (length data) (drop 8 (transfer_message t data)) = data"
  by (simp_all add: transfer_message_def Let_def)

text \<open>A message of the sending side arrives whole, for every split.\<close>

context passing_kernel
begin

lemma recv_transfer:
  assumes "calm (world s)" and "messages (uc_fd u) (world s) = (transfer_message t data, Some d) # q"
    and "\<forall>m \<in> set q. snd m \<noteq> None" and "length data \<le> 1016"
  obtains u' s' where "recv_loop k u CONTROLLEN [] 0 s = Some (Inr (transfer_message t data), u', s')"
    and "uc_cmptr u' = d" and "length (transfer_message t data) = 1024"
proof -
  let ?m = "transfer_message t data"
  have len: "length ?m = 1024" by (rule length_transfer_message [OF assms(4)])
  then have ne: "?m \<noteq> []" by auto
  from recv_loop_message [OF assms(1,2) ne assms(3), of "[]" CONTROLLEN] len that show ?thesis
    by (auto simp: CONTROLLEN_def)
qed

end

section \<open>Properties\<close>

lemma processRecv_cases:
  assumes "msg_kernel k sent inbox patience"
  obtains (closed) u' s' where "processRecv k u ep s = Some (Ret (kRecvMsgClose, u', ep, s'))"
  | (parse) u' s' where "processRecv k u ep s = Some (Ret (kRecvMSGParseError, u', ep, s'))"
  | (ok) t u' ep' s' str rest where "processRecv k u ep s = Some (Ret (kRecvMsgOk, u', ep', s'))"
      and "message_spec t (uc_cmptr u') ep ep'" and "uc_fd u' = uc_fd u"
      and "inbox (uc_fd u) (world s) = str @ rest" and "1024 \<le> length str"
      and "word32_of_bytes (take 4 str) = msg_type_code t"
proof -
  from msg_kernel.recv_loop_returns [OF assms, of 0 "[]" u CONTROLLEN s] obtain r u' s' bs
    where l: "recv_loop k u CONTROLLEN [] 0 s = Some (r, u', s')" and fd: "uc_fd u' = uc_fd u"
      and i: "inbox (uc_fd u) (world s) = bs @ inbox (uc_fd u) (world s')"
      and r: "r = Inl kRecvMsgClose \<or> r = Inr bs \<and> 1024 \<le> length bs" by auto
  show ?thesis
  proof (cases r)
    case (Inl a)
    with l r show ?thesis by (intro closed) (auto simp: processRecv_def)
  next
    case (Inr str)
    with r have str: "str = bs" "1024 \<le> length str" by auto
    then have "8 < length str" by simp
    then show ?thesis
    proof (cases rule: dispatch_message_spec [of str k u' ep s'])
      case (ok t ep' s'')
      then show ?thesis
        using l Inr str fd i by (intro that(3) [where u' = u' and ep' = ep']) (auto simp: processRecv_def)
    next
      case other
      then show ?thesis using l Inr by (intro parse) (auto simp: processRecv_def)
    qed
  qed
qed

text \<open>
  whatever the other side sends and however the kernel splits it, \<open>processRecv\<close>
  returns, without failing an assertion.  Unless it answers \<open>kRecvMsgOk\<close> it registers
  nothing; with \<open>kRecvMsgOk\<close> at least 1024 bytes were received that start with a known
  message type, and the descriptor in the control buffer has become the listener or a
  fresh session under its own number, nothing else having changed.
\<close>

theorem processRecv_returns:
  assumes "msg_kernel k sent inbox patience"
  shows "\<exists>st u' ep' s'. processRecv k u ep s = Some (Ret (st, u', ep', s'))
    \<and> (st \<noteq> kRecvMsgOk \<longrightarrow> ep' = ep)
    \<and> (st = kRecvMsgOk \<longrightarrow> (\<exists>t str rest. message_spec t (uc_cmptr u') ep ep'
        \<and> inbox (uc_fd u) (world s) = str @ rest \<and> 1024 \<le> length str
        \<and> word32_of_bytes (take 4 str) = msg_type_code t))"
  by (rule processRecv_cases [OF assms, of u ep s]) auto

definition demo_Epoll :: Epoll where
  "demo_Epoll = \<lparr>epfd = 3, inet_listen_fd = - 1, unix_listen_fd = 4, ep_unix_conn_fd = - 1,
     ep_unix_client_fd = - 1, inet_conn_map = Map.empty, firedevent = []\<rparr>"

theorem processRecv_returns_witness:
  "\<exists>st u' ep' s'. processRecv sim_kernel \<lparr>uc_fd = 6, uc_cmptr = 0, msgDataBuf = (\<lambda>_. 0)\<rparr> demo_Epoll
      \<lparr>errno = EINTR, world = quiet\<lparr>msg_in := (\<lambda>_. [([1, 2, 3], None)])\<rparr>\<rparr> = Some (Ret (st, u', ep', s'))
    \<and> (st \<noteq> kRecvMsgOk \<longrightarrow> ep' = demo_Epoll)"
  using processRecv_returns [OF sim_msg.msg_kernel_axioms, where ep = demo_Epoll
      and u = "\<lparr>uc_fd = 6, uc_cmptr = 0, msgDataBuf = (\<lambda>_. 0)\<rparr>"
      and s = "\<lparr>errno = EINTR, world = quiet\<lparr>msg_in := (\<lambda>_. [([1, 2, 3], None)])\<rparr>\<rparr>"]
  by blast

text \<open>
  C13: the hand-over round trip.  If the message built by the sending side for type \<open>t\<close>
  (listener or session) waits at the head of the socket with descriptor \<open>d\<close>, then whatever
  the pattern of short receives and interruptions \<open>processRecv\<close> answers \<open>kRecvMsgOk\<close> and
  registers \<open>d\<close> for exactly that type; a session starts with an empty read buffer and no
  pending reply.
\<close>

theorem processRecv_transfer_message:
  assumes "passing_kernel k sent inbox patience messages calm" and "calm (world s)"
    and "messages (uc_fd u) (world s) = (transfer_message t data, Some d) # q"
    and "\<forall>m \<in> set q. snd m \<noteq> None" and "length data \<le> 1016"
    and "t = kTransferListenFd \<or> t = kTransferSessionFd"
  shows "\<exists>u' ep' s'. processRecv k u ep s = Some (Ret (kRecvMsgOk, u', ep', s'))
    \<and> (t = kTransferListenFd \<longrightarrow> ep' = ep\<lparr>inet_listen_fd := d\<rparr>)
    \<and> (t = kTransferSessionFd \<longrightarrow> inet_listen_fd ep' = inet_listen_fd ep
        \<and> (\<exists>c. inet_conn_map ep' = (inet_conn_map ep)(d \<mapsto> c) \<and> conn_fd c = d
             \<and> EmptyReadBuf c \<and> reply c = []))"
proof -
  let ?m = "transfer_message t data"
  obtain u' s1 where l: "recv_loop k u CONTROLLEN [] 0 s = Some (Inr ?m, u', s1)" "uc_cmptr u' = d" "length ?m = 1024"
    by (rule passing_kernel.recv_transfer [OF assms(1-5)])
  have "8 < length ?m" by (simp add: l(3))
  then show ?thesis
  proof (cases rule: dispatch_message_spec [of ?m k u' ep s1])
    case (ok t' ep' s')
    then have "t' = t" by (simp add: transfer_message_type)
    with ok l show ?thesis
      by (auto simp: processRecv_def message_spec_def EmptyReadBuf_def new_InetConn_def)
  next
    case other
    with assms(6) show ?thesis by (auto simp: transfer_message_type)
  qed
qed

theorem processRecv_transfer_message_witness:
  "\<exists>u' ep' s'. processRecv sim_kernel \<lparr>uc_fd = 6, uc_cmptr = 0, msgDataBuf = (\<lambda>_. 0)\<rparr> demo_Epoll
      \<lparr>errno = EINTR, world = quiet\<lparr>schedule := [Chunk 99, Intr, Chunk 0],
         msg_in := (\<lambda>_. [(transfer_message kTransferSessionFd session_data, Some 7)])\<rparr>\<rparr>
      = Some (Ret (kRecvMsgOk, u', ep', s'))
    \<and> (\<exists>c. inet_conn_map ep' = [7 \<mapsto> c] \<and> conn_fd c = 7 \<and> EmptyReadBuf c \<and> reply c = [])"
  using processRecv_transfer_message [OF sim_passing.passing_kernel_axioms, where ep = demo_Epoll
      and u = "\<lparr>uc_fd = 6, uc_cmptr = 0, msgDataBuf = (\<lambda>_. 0)\<rparr>"
      and s = "\<lparr>errno = EINTR, world = quiet\<lparr>schedule := [Chunk 99, Intr, Chunk 0],
         msg_in := (\<lambda>_. [(transfer_message kTransferSessionFd session_data, Some 7)])\<rparr>\<rparr>"
      and t = kTransferSessionFd and data = session_data and d = 7 and q = "[]"]
  by (auto simp: sim_any_def sim_messages_def demo_Epoll_def)

end
