(* ===== verification/Server.thy ===== *)
theory Server
  imports Unix_Conn
begin

text \<open>
  The server process (\<open>hot_upgrade_demo/server.cc\<close>): the global objects, the two event
  handlers, and the main loop that watches for the hand-over trigger, polls, and
  dispatches events.

  The lemmas show that the loop body always returns, that every event keeps each connection
  in one of its two phases (receiving a request, sending a reply), that a session is handed
  over only between requests, and what the branches of the dispatcher do.
\<close>

section \<open>Data\<close>

definition UNIX_SERVER_TRIGGER :: string where "UNIX_SERVER_TRIGGER = ''./unix_server_trigger''"
definition UNIX_CLIENT_TRIGGER :: string where "UNIX_CLIENT_TRIGGER = ''./unix_client_trigger''"
definition UNIX_SOCKET_LOCK_FILE :: string where "UNIX_SOCKET_LOCK_FILE = ''./unix_socket_lock_file''"

definition SIGPIPE :: nat where "SIGPIPE = 13"

text \<open>
  The two global pointers (\<open>None\<close> is \<open>NULL\<close>), the singleton, and the local variables of
  \<open>main\<close> that live as long as the process.
\<close>

record Server =
  unix_conn :: "UnixConn option"
  unix_client :: "UnixClient option"
  sv_ep :: Epoll
  unix_conn_fd :: int
  unix_client_fd :: int
  unix_socket_init :: bool

section \<open>Operations\<close>

definition InitSignal :: "'w kernel \<Rightarrow> 'w proc \<Rightarrow> 'w proc" where
  "InitSignal k s = snd (syscall (k_signal_ignore k SIGPIPE) s)"

definition FileExists :: "'w kernel \<Rightarrow> string \<Rightarrow> 'w proc \<Rightarrow> bool \<times> 'w proc" where
  "FileExists k path s = (case syscall (k_access k path) s of (r, s') \<Rightarrow> (r \<noteq> None, s'))"

definition handle_unix_event :: "'w kernel \<Rightarrow> FiredEvent \<Rightarrow> Server \<Rightarrow> 'w proc
    \<Rightarrow> (int \<times> Server \<times> 'w proc) run" where
  "handle_unix_event k fe sv s =
     (if mask fe AND EPOLLERR \<noteq> 0 \<or> mask fe AND EPOLLHUP \<noteq> 0 then Some (Ret (- 1, sv, s))
      else case unix_conn sv of
        None \<Rightarrow> Some (Ret (- 1, sv, s))
      | Some u \<Rightarrow>
          if mask fe AND EPOLLIN \<noteq> 0 then
            run_bind (processRecv k u (sv_ep sv) s) (\<lambda>(rms, u', ep', s').
              Some (Ret (if rms \<noteq> kRecvMsgOk then - 1 else 0,
                         sv\<lparr>unix_conn := Some u', sv_ep := ep'\<rparr>, s')))
          else Some (Ret (0, sv, s)))"

text \<open>The connection objects live in the table, so an updated one is stored back.\<close>

definition put_conn :: "int \<Rightarrow> InetConn \<Rightarrow> Server \<Rightarrow> Server" where
  "put_conn fd c sv = sv\<lparr>sv_ep := (sv_ep sv)\<lparr>inet_conn_map := (inet_conn_map (sv_ep sv))(fd \<mapsto> c)\<rparr>\<rparr>"

definition handle_net_event :: "'w kernel \<Rightarrow> FiredEvent \<Rightarrow> Server \<Rightarrow> 'w proc
    \<Rightarrow> (int \<times> Server \<times> 'w proc) run" where
  "handle_net_event k fe sv s =
     (if mask fe AND EPOLLERR \<noteq> 0 \<or> mask fe AND EPOLLHUP \<noteq> 0 then Some (Ret (- 1, sv, s))
      else case inet_conn_map (sv_ep sv) (fired_fd fe) of
        None \<Rightarrow> Some (Ret (- 1, sv, s))
      | Some conn \<Rightarrow>
          if mask fe AND EPOLLIN \<noteq> 0 \<and> EmptyReadBuf conn \<and> unix_client sv \<noteq> None then
            (case TransferSessionFd k (the (unix_client sv)) (fired_fd fe) s of
               None \<Rightarrow> None
             | Some (sms, uc', s') \<Rightarrow> Some (Ret (- 1, sv\<lparr>unix_client := Some uc'\<rparr>, s')))
          else if mask fe AND EPOLLIN \<noteq> 0 then
            run_bind (Some (GetRequest k conn s)) (\<lambda>(rs, conn', s').
              let sv' = put_conn (fired_fd fe) conn' sv in
              if rs = kReadAll
              then Some (Ret (0, sv', snd (ModEvent k (fired_fd fe) EPOLLOUT (sv_ep sv') s')))
              else if rs \<noteq> kReadHalf then Some (Ret (- 1, sv', s'))
              else Some (Ret (0, sv', s')))
          else if mask fe AND EPOLLOUT \<noteq> 0 then
            (let (ws, conn', s') = SendReply k conn s; sv' = put_conn (fired_fd fe) conn' sv in
             if ws = kWriteAll
             then Some (Ret (0, sv', snd (ModEvent k (fired_fd fe) EPOLLIN (sv_ep sv') s')))
             else if ws \<noteq> kWriteHalf then Some (Ret (- 1, sv', s'))
             else Some (Ret (0, sv', s')))
          else Some (Ret (0, sv, s)))"

section \<open>The main loop\<close>

text \<open>The four branches of the dispatching loop body.\<close>

definition accept_inet :: "'w kernel \<Rightarrow> Server \<Rightarrow> 'w proc \<Rightarrow> (Server \<times> 'w proc) run" where
  "accept_inet k sv s =
     (let (fd, ip_port, s1) = inet_server_accept k (inet_listen_fd (sv_ep sv)) [] s in
      if fd < 0 then Some (Exit (- 1))
      else let conn = new_InetConn (\<lambda>i. k_uninit k (unat READ_BUFFER_SIZE) (world s1) ! i) fd ip_port;
               s2 = snd (SetNonblock k conn s1);
               sv' = put_conn fd conn sv
           in Some (Ret (sv', snd (AddEvent k fd (EPOLLIN OR EPOLLET) (sv_ep sv') s2))))"

definition accept_unix :: "'w kernel \<Rightarrow> Server \<Rightarrow> 'w proc \<Rightarrow> (Server \<times> 'w proc) run" where
  "accept_unix k sv s =
     run_bind (Some (unix_server_accept k (unix_listen_fd (sv_ep sv)) False s)) (\<lambda>((fd, _), s1).
       if fd < 0 then Some (Exit (- 1))
       else let sv' = sv\<lparr>unix_conn_fd := fd, unix_conn := Some (new_UnixConn k fd s1)\<rparr>
            in Some (Ret (sv', snd (AddEvent k fd EPOLLIN (sv_ep sv') s1))))"

definition drop_unix :: "'w kernel \<Rightarrow> int \<Rightarrow> Server \<Rightarrow> 'w proc \<Rightarrow> Server \<times> 'w proc" where
  "drop_unix k fd sv s =
     (sv\<lparr>unix_conn := None\<rparr>, snd (sys_close k fd (snd (DelEvent k fd (sv_ep sv) s))))"

definition drop_conn :: "'w kernel \<Rightarrow> int \<Rightarrow> Server \<Rightarrow> 'w proc \<Rightarrow> Server \<times> 'w proc" where
  "drop_conn k fd sv s =
     (sv\<lparr>sv_ep := (sv_ep sv)\<lparr>inet_conn_map := (inet_conn_map (sv_ep sv))(fd := None)\<rparr>\<rparr>,
      snd (sys_close k fd (snd (DelEvent k fd (sv_ep sv) s))))"

definition dispatch :: "'w kernel \<Rightarrow> FiredEvent \<Rightarrow> Server \<Rightarrow> 'w proc \<Rightarrow> (Server \<times> 'w proc) run" where
  "dispatch k fe sv s =
     (if fired_fd fe = inet_listen_fd (sv_ep sv) then accept_inet k sv s
      else if fired_fd fe = unix_listen_fd (sv_ep sv) then accept_unix k sv s
      else if fired_fd fe = unix_conn_fd sv then
        run_bind (handle_unix_event k fe sv s) (\<lambda>(ret, sv', s').
          Some (Ret (if ret = - 1 then drop_unix k (fired_fd fe) sv' s' else (sv', s'))))
      else
        run_bind (handle_net_event k fe sv s) (\<lambda>(ret, sv', s').
          Some (Ret (if ret = - 1 then drop_conn k (fired_fd fe) sv' s' else (sv', s')))))"

text \<open>The loop over the fired events; the array is read again for each index.\<close>

primrec for_events :: "'w kernel \<Rightarrow> nat list \<Rightarrow> Server \<Rightarrow> 'w proc \<Rightarrow> (Server \<times> 'w proc) run" where
  "for_events k [] sv s = Some (Ret (sv, s))"
| "for_events k (n # ns) sv s =
     run_bind (dispatch k (firedevent (sv_ep sv) ! n) sv s) (\<lambda>(sv', s'). for_events k ns sv' s')"

definition trigger :: "'w kernel \<Rightarrow> string \<Rightarrow> Server \<Rightarrow> 'w proc \<Rightarrow> (Server \<times> 'w proc) run" where
  "trigger k path sv s =
     (let (ex, s1) = FileExists k path s in
      if ex \<and> \<not> unix_socket_init sv then
        if path = UNIX_CLIENT_TRIGGER then
          run_bind (Some (unix_client_conn k UNIX_SOCKET_LOCK_FILE s1)) (\<lambda>(fd, s2).
            if fd < 0 then Some (Exit (- 1))
            else let uc = new_UnixClient k fd s2 in
              (case TransferListenFd k uc (inet_listen_fd (sv_ep sv)) s2 of
                 None \<Rightarrow> None
               | Some (sms, uc', s3) \<Rightarrow>
                   (let sv' = sv\<lparr>unix_client_fd := fd, unix_client := Some uc', unix_socket_init := True\<rparr> in
                    if sms = kSendMsgOk
                    then (let (ep', s4) = detachInetListenFd k (sv_ep sv') s3
                          in Some (Ret (sv'\<lparr>sv_ep := ep'\<rparr>, s4)))
                    else Some (Ret (sv', s3)))))
        else Some (Ret (sv, s1))
      else Some (Ret (sv, s1)))"

definition wait_events :: "'w kernel \<Rightarrow> Server \<Rightarrow> 'w proc \<Rightarrow> (nat list \<times> Server \<times> 'w proc) run" where
  "wait_events k sv s =
     (let (nfds, ep', s') = Poll k 10 (sv_ep sv) s in
      if nfds = - 1 then Some (Exit (- 1))
      else Some (Ret ([0..<nat nfds], sv\<lparr>sv_ep := ep'\<rparr>, s')))"

definition main_iteration :: "'w kernel \<Rightarrow> string \<Rightarrow> Server \<Rightarrow> 'w proc \<Rightarrow> (Server \<times> 'w proc) run" where
  "main_iteration k path sv s =
     run_bind (trigger k path sv s) (\<lambda>(sv1, s1).
     run_bind (wait_events k sv1 s1) (\<lambda>(ns, sv2, s2). for_events k ns sv2 s2))"

text \<open>\<open>argv\<close> without the program name; \<open>junk\<close> is the content of the event array at the start.\<close>

definition main_init :: "'w kernel \<Rightarrow> FiredEvent list \<Rightarrow> string list \<Rightarrow> 'w proc
    \<Rightarrow> (string \<times> Server \<times> 'w proc) run" where
  "main_init k junk argv s0 =
     (let s = InitSignal k s0 in
      case argv of
        [] \<Rightarrow> Some (Exit (- 1))
      | path # _ \<Rightarrow>
          (let (ep, s1) = getInstance k junk None s;
               sv = (\<lambda>ep. \<lparr>unix_conn = None, unix_client = None, sv_ep = ep, unix_conn_fd = - 1,
                           unix_client_fd = - 1, unix_socket_init = False\<rparr>)
           in if path = ''-u'' then
                run_bind (Some (startUnixServer k UNIX_SOCKET_LOCK_FILE ep s1)) (\<lambda>(ret, ep', s2).
                  if \<not> ret then Some (Exit (- 1)) else Some (Ret (path, sv ep', s2)))
              else
                (let (ret, ep', s2) = startInetServer k 9221 ep s1 in
                 if \<not> ret then Some (Exit (- 1)) else Some (Ret (path, sv ep', s2)))))"

text \<open>The endless loop, cut after a number of iterations.\<close>

fun main_loop :: "nat \<Rightarrow> 'w kernel \<Rightarrow> string \<Rightarrow> Server \<Rightarrow> 'w proc \<Rightarrow> (Server \<times> 'w proc) run" where
  "main_loop 0 k path sv s = Some (Ret (sv, s))"
| "main_loop (Suc n) k path sv s =
     run_bind (main_iteration k path sv s) (\<lambda>(sv', s'). main_loop n k path sv' s')"

definition main :: "nat \<Rightarrow> 'w kernel \<Rightarrow> FiredEvent list \<Rightarrow> string list \<Rightarrow> 'w proc
    \<Rightarrow> (Server \<times> 'w proc) run" where
  "main n k junk argv s =
     run_bind (main_init k junk argv s) (\<lambda>(path, sv, s'). main_loop n k path sv s')"

section \<open>The loop as a state machine\<close>

text \<open>
  A configuration holds the indices of the fired events not yet dispatched, the server and
  the process; \<open>server_step\<close> is one poll or the dispatch of one event.
\<close>

inductive server_step :: "'w kernel \<Rightarrow> string \<Rightarrow> nat list \<times> Server \<times> 'w proc
    \<Rightarrow> nat list \<times> Server \<times> 'w proc \<Rightarrow> bool" for k path where
  Wait: "trigger k path sv s = Some (Ret (sv1, s1)) \<Longrightarrow>
    wait_events k sv1 s1 = Some (Ret (ns, sv2, s2)) \<Longrightarrow>
    server_step k path ([], sv, s) (ns, sv2, s2)"
| Event: "dispatch k (firedevent (sv_ep sv) ! n) sv s = Some (Ret (sv', s')) \<Longrightarrow>
    server_step k path (n # ns, sv, s) (ns, sv', s')"

inductive_cases server_stepE: "server_step k path cfg cfg'"

inductive reachable :: "'w kernel \<Rightarrow> FiredEvent list \<Rightarrow> string list \<Rightarrow> 'w proc \<Rightarrow> string
    \<Rightarrow> nat list \<times> Server \<times> 'w proc \<Rightarrow> bool" for k junk argv s0 where
  Start: "main_init k junk argv s0 = Some (Ret (path, sv, s)) \<Longrightarrow>
    reachable k junk argv s0 path ([], sv, s)"
| Step: "reachable k junk argv s0 path cfg \<Longrightarrow> server_step k path cfg cfg' \<Longrightarrow>
    reachable k junk argv s0 path cfg'"

lemma for_events_reachable:
  "for_events k ns sv s = Some (Ret (sv', s')) \<Longrightarrow> reachable k junk argv s0 path (ns, sv, s) \<Longrightarrow>
   reachable k junk argv s0 path ([], sv', s')"
proof (induction ns arbitrary: sv s)
  case (Cons n ns)
  from Cons.prems(1) obtain sv1 s1 where "dispatch k (firedevent (sv_ep sv) ! n) sv s = Some (Ret (sv1, s1))"
      and f: "for_events k ns sv1 s1 = Some (Ret (sv', s'))"
    by auto
  then have "reachable k junk argv s0 path (ns, sv1, s1)"
    using Cons.prems(2) by (blast intro: reachable.Step server_step.Event)
  from Cons.IH [OF f this] show ?case .
qed simp

lemma main_loop_reachable:
  "main_loop n k path sv s = Some (Ret (sv', s')) \<Longrightarrow> reachable k junk argv s0 path ([], sv, s) \<Longrightarrow>
   reachable k junk argv s0 path ([], sv', s')"
proof (induction n arbitrary: sv s)
  case (Suc n)
  then obtain sv1 s1 ns sv2 s2 sv3 s3 where "trigger k path sv s = Some (Ret (sv1, s1))"
      "wait_events k sv1 s1 = Some (Ret (ns, sv2, s2))"
      and f: "for_events k ns sv2 s2 = Some (Ret (sv3, s3))"
      and l: "main_loop n k path sv3 s3 = Some (Ret (sv', s'))"
    by (auto simp: main_iteration_def)
  then have "reachable k junk argv s0 path (ns, sv2, s2)"
    using Suc.prems(2) by (blast intro: reachable.Step server_step.Wait)
  from Suc.IH [OF l for_events_reachable [OF f this]] show ?case .
qed simp

lemma main_reachable:
  assumes "main n k junk argv s0 = Some (Ret (sv, s))"
  obtains path where "reachable k junk argv s0 path ([], sv, s)"
proof -
  from assms obtain path sv1 s1 where i: "main_init k junk argv s0 = Some (Ret (path, sv1, s1))"
      and l: "main_loop n k path sv1 s1 = Some (Ret (sv, s))"
    by (auto simp: main_def)
  from main_loop_reachable [OF l reachable.Start [OF i]] show ?thesis by (rule that)
qed

section \<open>Which operations register descriptors\<close>

lemma read_step_plain: "read_step k cnt c s = Ret (r, s') \<Longrightarrow> plain k {conn_fd c} s s'"
  by (auto simp: read_step_def split: prod.splits option.splits if_splits intro: plain_calls)

lemma GetRequest_plain:
  assumes "GetRequest k c s = Ret (st, c', s')"
  shows "plain k {conn_fd c} s s'"
proof -
  have h: "plain k {conn_fd c} s t" if "GetHeader k c s = Ret (r, d, t)" for r d t
    using that by (auto simp: GetHeader_def split: outcome.splits sum.splits if_splits dest: read_step_plain)
  have b: "plain k {conn_fd d} t s'" if "GetBody k d t = Ret (st, c', s')" for d t
    using that by (auto simp: GetBody_def Let_def split: outcome.splits sum.splits if_splits
        dest: read_step_plain)
  from assms show ?thesis
    by (cases rule: GetRequest_cases) (metis h b GetHeader_fd plain_trans)+
qed

lemma SendReply_plain: "SendReply k c s = (st, c', s') \<Longrightarrow> plain k {conn_fd c} s s'"
  by (auto simp: SendReply_def Let_def split: prod.splits option.splits if_splits dest: plain_call1)

lemma SetNonblock_plain: "plain k {} s (snd (SetNonblock k c s))"
  by (auto simp: SetNonblock_def Let_def split: prod.splits option.splits dest!: plain_call1 [where A = "{}"]
      intro: plain_trans)

text \<open>A connection attempt that succeeds closes nothing.\<close>

lemma unix_client_conn_plain:
  assumes "unix_client_conn k name s = Ret (fd, s')" and "0 \<le> fd"
  shows "plain k {} s s'"
proof -
  obtain d s1 where so: "syscall (k_socket k AF_UNIX) s = (Some d, s1)"
    using assms by (auto simp: unix_client_conn_def split: prod.splits option.splits)
  let ?p = "client_path (k_getpid k (world s1))"
  let ?s2 = "snd (syscall (k_unlink k ?p) s1)"
  have "plain k {} s ?s2" by (rule plain_calls_snd, rule plain_call1, rule so)
  moreover from assms so have "plain k {} ?s2 s'"
    by (auto simp: unix_client_conn_def errout_def Let_def split: prod.splits option.splits if_splits
        dest!: plain_call1 [where A = "{}"]) (meson plain_trans)+
  ultimately show ?thesis by (rule plain_trans)
qed

lemma send_loop_plain:
  assumes "send_loop k fd buf cfd send s = Some p"
  shows "plain k {} s (snd p)"
proof (rule send_loop.raw_induct [where P = "\<lambda>k fd buf cfd send s p. plain k {} s (snd p)", OF _ assms])
  fix f and k :: "'w kernel" and fd buf cfd send s and p :: "int option \<times> 'w proc"
  assume IH: "\<And>k fd buf cfd send s p. f k fd buf cfd send s = Some p \<Longrightarrow> plain k {} s (snd p)"
    and body: "(if send < MSG_DATA_BUF_LEN
      then case syscall (k_sendmsg k fd buf (Some cfd)) s of
          (None, s') \<Rightarrow> if errno s' = EINTR \<or> errno s' = EAGAIN then f k fd buf cfd send s'
                        else Some (None, s')
        | (Some sendlen, s') \<Rightarrow> f k fd buf cfd (send + int sendlen) s'
      else Some (Some send, s)) = Some p"
  obtain r s1 where c: "syscall (k_sendmsg k fd buf (Some cfd)) s = (r, s1)" by fastforce
  then have "plain k {} s s1" by (rule plain_call1)
  moreover have "plain k {} s1 (snd p)" if "send < MSG_DATA_BUF_LEN"
    using body that c by (auto split: option.splits if_splits dest: IH)
  ultimately show "plain k {} s (snd p)"
    using body by (auto intro: plain_trans split: if_splits)
qed

lemma transfer_plain: "transfer k t data c fd s = Some (st, c', s') \<Longrightarrow> plain k {} s s'"
  by (auto simp: transfer_def GetReply_def Let_def split: option.splits prod.splits if_splits
      dest!: send_loop_plain intro: plain_calls_snd)

lemmas transfers_plain = transfer_plain [of _ kTransferListenFd listen_data, folded TransferListenFd_def]
  transfer_plain [of _ kTransferSessionFd session_data, folded TransferSessionFd_def]

section \<open>What the handlers change\<close>

lemma put_conn_simps [simp]:
  "inet_conn_map (sv_ep (put_conn fd c sv)) = (inet_conn_map (sv_ep sv))(fd \<mapsto> c)"
  "epfd (sv_ep (put_conn fd c sv)) = epfd (sv_ep sv)"
  "firedevent (sv_ep (put_conn fd c sv)) = firedevent (sv_ep sv)"
  "unix_listen_fd (sv_ep (put_conn fd c sv)) = unix_listen_fd (sv_ep sv)"
  "inet_listen_fd (sv_ep (put_conn fd c sv)) = inet_listen_fd (sv_ep sv)"
  "unix_conn_fd (put_conn fd c sv) = unix_conn_fd sv"
  "unix_conn (put_conn fd c sv) = unix_conn sv"
  "unix_client (put_conn fd c sv) = unix_client sv"
  "unix_socket_init (put_conn fd c sv) = unix_socket_init sv"
  by (simp_all add: put_conn_def)

lemma dispatch_message_state:
  assumes "dispatch_message k u str ep s = Ret (st, u', ep', s')"
  shows "ep' = ep \<or> ep' = ep\<lparr>inet_listen_fd := uc_cmptr u\<rparr> \<or>
    (\<exists>junk. ep' = ep\<lparr>inet_conn_map := (inet_conn_map ep)
       (uc_cmptr u \<mapsto> new_InetConn junk (uc_cmptr u) ''received conn tmp no ip_port'')\<rparr>)"
  using assms
  by (auto simp: dispatch_message_def HandleListenFdMsg_def HandleSessionFdMsg_def
      attachInetListenFd_def Let_def case_prod_beta split: if_splits)

lemma processRecv_state:
  assumes "processRecv k u ep s = Some (Ret (st, u', ep', s'))"
  obtains "ep' = ep" | fd where "ep' = ep\<lparr>inet_listen_fd := fd\<rparr>"
  | fd junk where "ep' = ep\<lparr>inet_conn_map := (inet_conn_map ep)
       (fd \<mapsto> new_InetConn junk fd ''received conn tmp no ip_port'')\<rparr>"
  using assms dispatch_message_state
  by (fastforce simp: processRecv_def split: option.splits prod.splits sum.splits)

text \<open>The outcomes of \<open>handle_net_event\<close> on a registered connection.\<close>

lemma handle_net_event_cases:
  assumes "handle_net_event k fe sv s = Some (Ret (ret, sv', s'))"
  obtains (lost) "ret = - 1" and "sv' = sv" and "s' = s"
  | (handover) conn uc uc' st where "ret = - 1" and "inet_conn_map (sv_ep sv) (fired_fd fe) = Some conn"
      and "EmptyReadBuf conn" and "unix_client sv = Some uc"
      and "TransferSessionFd k uc (fired_fd fe) s = Some (st, uc', s')"
      and "sv' = sv\<lparr>unix_client := Some uc'\<rparr>"
  | (request) conn rs conn' t where "inet_conn_map (sv_ep sv) (fired_fd fe) = Some conn"
      and "mask fe AND EPOLLIN \<noteq> 0" and "GetRequest k conn s = Ret (rs, conn', t)"
      and "sv' = put_conn (fired_fd fe) conn' sv"
      and "ret = (if rs = kReadAll \<or> rs = kReadHalf then 0 else - 1)"
      and "s' = (if rs = kReadAll then snd (ModEvent k (fired_fd fe) EPOLLOUT (sv_ep sv') t) else t)"
  | (reply) conn ws conn' t where "inet_conn_map (sv_ep sv) (fired_fd fe) = Some conn"
      and "SendReply k conn s = (ws, conn', t)"
      and "sv' = put_conn (fired_fd fe) conn' sv"
      and "ret = (if ws = kWriteAll \<or> ws = kWriteHalf then 0 else - 1)"
      and "s' = (if ws = kWriteAll then snd (ModEvent k (fired_fd fe) EPOLLIN (sv_ep sv') t) else t)"
  | (idle) "ret = 0" and "sv' = sv" and "s' = s"
proof (cases "mask fe AND EPOLLERR \<noteq> 0 \<or> mask fe AND EPOLLHUP \<noteq> 0
    \<or> inet_conn_map (sv_ep sv) (fired_fd fe) = None")
  case True
  with assms have "ret = - 1 \<and> sv' = sv \<and> s' = s"
    by (auto simp: handle_net_event_def split: option.splits)
  then show ?thesis using lost by blast
next
  case False
  then obtain conn where c: "inet_conn_map (sv_ep sv) (fired_fd fe) = Some conn"
      and quiet: "mask fe AND EPOLLERR = 0" "mask fe AND EPOLLHUP = 0" by auto
  consider (h) uc where "mask fe AND EPOLLIN \<noteq> 0" "EmptyReadBuf conn" "unix_client sv = Some uc"
    | (i) "mask fe AND EPOLLIN \<noteq> 0" "\<not> EmptyReadBuf conn \<or> unix_client sv = None"
    | (o) "mask fe AND EPOLLIN = 0" "mask fe AND EPOLLOUT \<noteq> 0"
    | (n) "mask fe AND EPOLLIN = 0" "mask fe AND EPOLLOUT = 0"
    by (cases "unix_client sv") auto
  then show ?thesis
  proof cases
    case h
    with assms c quiet obtain st uc' t where "TransferSessionFd k uc (fired_fd fe) s = Some (st, uc', t)"
      by (auto simp: handle_net_event_def split: option.splits)
    with h assms c quiet show ?thesis
      by (intro handover [of conn uc st uc']) (auto simp: handle_net_event_def)
  next
    case i
    with assms c quiet obtain rs conn' t where "GetRequest k conn s = Ret (rs, conn', t)"
      by (auto simp: handle_net_event_def)
    with i assms c quiet show ?thesis
      by (intro request [of conn rs conn' t]) (auto simp: handle_net_event_def Let_def split: if_splits)
  next
    case o
    obtain ws conn' t where "SendReply k conn s = (ws, conn', t)" by (metis prod_cases3)
    with o assms c quiet show ?thesis
      by (intro reply [of conn ws conn' t]) (auto simp: handle_net_event_def Let_def split: if_splits)
  next
    case n
    with assms c quiet show ?thesis by (intro idle) (auto simp: handle_net_event_def)
  qed
qed

lemma drop_simps [simp]:
  "fst (drop_conn k fd sv s) = sv\<lparr>sv_ep := (sv_ep sv)\<lparr>inet_conn_map := (inet_conn_map (sv_ep sv))(fd := None)\<rparr>\<rparr>"
  "fst (drop_unix k fd sv s) = sv\<lparr>unix_conn := None\<rparr>"
  by (simp_all add: drop_conn_def drop_unix_def)

lemma dispatch_cases:
  assumes "dispatch k fe sv s = Some (Ret (sv', s'))"
  obtains (accept) "fired_fd fe = inet_listen_fd (sv_ep sv)" and "accept_inet k sv s = Some (Ret (sv', s'))"
  | (accept_unix) "fired_fd fe = unix_listen_fd (sv_ep sv)" and "accept_unix k sv s = Some (Ret (sv', s'))"
  | (unix) ret sv1 s1 where "fired_fd fe = unix_conn_fd sv"
      and "handle_unix_event k fe sv s = Some (Ret (ret, sv1, s1))"
      and "(sv', s') = (if ret = - 1 then drop_unix k (fired_fd fe) sv1 s1 else (sv1, s1))"
  | (net) ret sv1 s1 where "fired_fd fe \<notin> {inet_listen_fd (sv_ep sv), unix_listen_fd (sv_ep sv), unix_conn_fd sv}"
      and "handle_net_event k fe sv s = Some (Ret (ret, sv1, s1))"
      and "(sv', s') = (if ret = - 1 then drop_conn k (fired_fd fe) sv1 s1 else (sv1, s1))"
  using assms by (auto simp: dispatch_def split: if_splits)

section \<open>The connection table\<close>

text \<open>Every connection is filed under its own descriptor and its read position is in bounds.\<close>

definition registry_ok :: "Server \<Rightarrow> bool" where
  "registry_ok sv \<longleftrightarrow>
     (\<forall>fd c. inet_conn_map (sv_ep sv) fd = Some c \<longrightarrow> conn_fd c = fd \<and> conn_inv c)"

lemma registry_okD:
  "registry_ok sv \<Longrightarrow> inet_conn_map (sv_ep sv) fd = Some c \<Longrightarrow> conn_fd c = fd \<and> conn_inv c"
  by (auto simp: registry_ok_def)

lemma registry_ok_put:
  "registry_ok sv \<Longrightarrow> conn_fd c = fd \<Longrightarrow> conn_inv c \<Longrightarrow> registry_ok (put_conn fd c sv)"
  by (auto simp: registry_ok_def)

lemma registry_ok_drop: "registry_ok sv \<Longrightarrow> registry_ok (fst (drop_conn k fd sv s))"
  by (auto simp: registry_ok_def)

lemma accept_inet_cases:
  assumes "accept_inet k sv s = Some (Ret (sv', s'))"
  obtains fd ip junk s1 where "0 \<le> fd" and "sv' = put_conn fd (new_InetConn junk fd ip) sv"
    and "plain k {} s s1" and "s' = snd (AddEvent k fd (EPOLLIN OR EPOLLET) (sv_ep sv) s1)"
proof -
  obtain fd ip s1 where a: "inet_server_accept k (inet_listen_fd (sv_ep sv)) [] s = (fd, ip, s1)"
    by (metis prod_cases3)
  then have p: "plain k {} s s1"
    by (auto simp: inet_server_accept_def split: prod.splits option.splits dest: plain_call1)
  let ?c = "new_InetConn (\<lambda>i. k_uninit k (unat READ_BUFFER_SIZE) (world s1) ! i) fd ip"
  from assms a have "0 \<le> fd" "sv' = put_conn fd ?c sv"
      "s' = snd (AddEvent k fd (EPOLLIN OR EPOLLET) (sv_ep sv) (snd (SetNonblock k ?c s1)))"
    by (auto simp: accept_inet_def Let_def AddEvent_def split: if_splits)
  from that [OF this(1,2) plain_trans [OF p SetNonblock_plain] this(3)] show ?thesis .
qed

lemma accept_unix_ep: "accept_unix k sv s = Some (Ret (sv', s')) \<Longrightarrow> sv_ep sv' = sv_ep sv"
  by (auto simp: accept_unix_def Let_def split: if_splits)

lemma registry_ok_unix:
  assumes "handle_unix_event k fe sv s = Some (Ret (ret, sv', s'))" and "registry_ok sv"
  shows "registry_ok sv'"
proof -
  have "sv' = sv \<or> (\<exists>u u' rms ep'. processRecv k u (sv_ep sv) s = Some (Ret (rms, u', ep', s'))
      \<and> sv' = sv\<lparr>unix_conn := Some u', sv_ep := ep'\<rparr>)"
    using assms(1) by (auto simp: handle_unix_event_def split: if_splits option.splits)
  then show ?thesis
  proof (elim disjE exE conjE)
    fix u u' rms ep'
    assume p: "processRecv k u (sv_ep sv) s = Some (Ret (rms, u', ep', s'))"
      and e: "sv' = sv\<lparr>unix_conn := Some u', sv_ep := ep'\<rparr>"
    from p show ?thesis
      by (rule processRecv_state) (use assms(2) e in \<open>simp_all add: registry_ok_def\<close>)
  qed (use assms(2) in simp)
qed

context read_kernel
begin

lemma registry_ok_net:
  assumes "handle_net_event k fe sv s = Some (Ret (ret, sv', s'))" and "registry_ok sv"
  shows "registry_ok sv'"
  using assms(1)
proof (cases rule: handle_net_event_cases)
  case (request conn rs conn' t)
  note R = registry_okD [OF assms(2) request(1)]
  have "conn_fd conn' = conn_fd conn \<and> conn_inv conn'"
    using GetRequest_all [of conn s conn' t] GetRequest_keeps [of conn s rs conn' t] request(3) R
    by (cases "rs = kReadAll") (auto simp: conn_inv_def)
  with R request(4) assms(2) show ?thesis by (simp add: registry_ok_put)
next
  case (reply conn ws conn' t)
  note R = registry_okD [OF assms(2) reply(1)]
  have "conn_fd conn' = conn_fd conn \<and> conn_inv conn'"
    using reply(2) R
    by (auto simp: SendReply_def Let_def conn_inv_def request_len_def split: prod.splits option.splits if_splits)
  with R reply(3) assms(2) show ?thesis by (simp add: registry_ok_put)
qed (use assms(2) in \<open>auto simp: registry_ok_def\<close>)

lemma registry_ok_dispatch:
  assumes "dispatch k fe sv s = Some (Ret (sv', s'))" and "registry_ok sv"
  shows "registry_ok sv'"
  using assms(1)
proof (cases rule: dispatch_cases)
  case accept
  from accept(2) assms(2) show ?thesis
    by (elim accept_inet_cases) (simp add: registry_ok_put)
next
  case accept_unix
  from accept_unix_ep [OF accept_unix(2)] assms(2) show ?thesis by (simp add: registry_ok_def)
next
  case (unix ret sv1 s1)
  from registry_ok_unix [OF unix(2) assms(2)] unix(3) show ?thesis
    by (auto simp: registry_ok_def drop_unix_def split: if_splits)
next
  case (net ret sv1 s1)
  from registry_ok_net [OF net(2) assms(2)] have "registry_ok sv1" .
  moreover from net(3) have "sv' = sv1 \<or> sv' = fst (drop_conn k (fired_fd fe) sv1 s1)"
    by (metis fst_conv)
  ultimately show ?thesis using registry_ok_drop by blast
qed

end

lemma trigger_cases:
  assumes "trigger k path sv s = Some (Ret (sv', s'))"
  obtains (none) "sv' = sv" and "plain k {} s s'"
  | (kept) fd uc' where "path = UNIX_CLIENT_TRIGGER" and "\<not> unix_socket_init sv" and "plain k {} s s'"
      and "sv' = sv\<lparr>unix_client_fd := fd, unix_client := Some uc', unix_socket_init := True\<rparr>"
  | (sent) fd uc' s1 where "path = UNIX_CLIENT_TRIGGER" and "\<not> unix_socket_init sv" and "plain k {} s s1"
      and "sv' = sv\<lparr>unix_client_fd := fd, unix_client := Some uc', unix_socket_init := True,
                    sv_ep := (sv_ep sv)\<lparr>inet_listen_fd := - 1\<rparr>\<rparr>"
      and "s' = snd (detachInetListenFd k (sv_ep sv) s1)"
proof -
  obtain ex s1 where f: "FileExists k path s = (ex, s1)" by fastforce
  then have p1: "plain k {} s s1" by (auto simp: FileExists_def split: prod.splits dest: plain_call1)
  show ?thesis
  proof (cases "ex \<and> \<not> unix_socket_init sv \<and> path = UNIX_CLIENT_TRIGGER")
    case False
    with assms f p1 show ?thesis by (intro none) (auto simp: trigger_def split: if_splits)
  next
    case True
    with assms f obtain fd s2 where c: "unix_client_conn k UNIX_SOCKET_LOCK_FILE s1 = Ret (fd, s2)" "\<not> fd < 0"
      by (auto simp: trigger_def split: if_splits)
    then have p2: "plain k {} s s2" using p1 by (simp add: plain_trans unix_client_conn_plain)
    from assms f True c obtain sms uc' s3 where t:
        "TransferListenFd k (new_UnixClient k fd s2) (inet_listen_fd (sv_ep sv)) s2 = Some (sms, uc', s3)"
      by (auto simp: trigger_def Let_def split: option.splits)
    have p3: "plain k {} s s3" using p2 transfers_plain(1) [OF t] by (rule plain_trans)
    show ?thesis
    proof (cases "sms = kSendMsgOk")
      case ok: True
      with assms f True c t p3 show ?thesis
        by (intro sent) (auto simp: trigger_def Let_def detachInetListenFd_def)
    next
      case False
      with assms f True c t p3 show ?thesis by (intro kept) (auto simp: trigger_def Let_def)
    qed
  qed
qed

lemma wait_events_state:
  assumes "wait_events k sv s = Some (Ret (ns, sv', s'))"
  obtains evs where "syscall (k_epoll_wait k (epfd (sv_ep sv)) MAX_EVENTS 10) s = (Some evs, s')"
      and "ns = [0..<length evs]"
      and "sv' = sv\<lparr>sv_ep := (sv_ep sv)\<lparr>firedevent := map fire evs @ drop (length evs) (firedevent (sv_ep sv))\<rparr>\<rparr>"
  | "ns = []" and "sv' = sv" and "plain k {} s s'"
proof -
  obtain r t where w: "syscall (k_epoll_wait k (epfd (sv_ep sv)) MAX_EVENTS 10) s = (r, t)" by fastforce
  show ?thesis
  proof (cases r)
    case None
    with w assms have "ns = []" "sv' = sv" "t = s'" by (auto simp: wait_events_def Poll_def)
    moreover have "plain k {} s t" using w by (rule plain_call1)
    ultimately show ?thesis using that(2) by simp
  next
    case (Some evs)
    with w assms show ?thesis by (intro that(1)) (auto simp: wait_events_def Poll_def)
  qed
qed

section \<open>The phases of a session\<close>

text \<open>
  A session either has no pending reply, or it has one, has no partial request and is not
  registered for reading.  \<open>serving\<close> is the invariant of a process started as an inet
  server: it has no Unix-domain listener or connection, all its sessions are in one of the
  two phases, and no event still to be dispatched reports a session with a pending reply as
  readable.
\<close>

definition readable :: "u32 option \<Rightarrow> bool" where
  "readable i \<longleftrightarrow> (case i of None \<Rightarrow> False | Some m \<Rightarrow> bit m 0)"

definition session_ok :: "u32 option \<Rightarrow> int \<Rightarrow> InetConn \<Rightarrow> bool" where
  "session_ok i fd c \<longleftrightarrow> conn_fd c = fd \<and> conn_inv c \<and> reply_inv c \<and>
     (reply c = [] \<or> last_read_pos c = 0 \<and> \<not> readable i)"

definition sessions_ok :: "(int \<Rightarrow> int \<Rightarrow> 'w \<Rightarrow> u32 option) \<Rightarrow> Epoll \<Rightarrow> 'w proc \<Rightarrow> bool" where
  "sessions_ok reg ep s \<longleftrightarrow> (\<forall>fd c. inet_conn_map ep fd = Some c \<longrightarrow>
     session_ok (reg (epfd ep) fd (world s)) fd c)"

definition fired_ok :: "Epoll \<Rightarrow> nat \<Rightarrow> bool" where
  "fired_ok ep n \<longleftrightarrow> (let fe = firedevent ep ! n in 0 \<le> fired_fd fe \<and>
     (mask fe AND EPOLLIN \<noteq> 0 \<longrightarrow> (\<forall>c. inet_conn_map ep (fired_fd fe) = Some c \<longrightarrow> reply c = [])))"

definition serving :: "(int \<Rightarrow> int \<Rightarrow> 'w \<Rightarrow> u32 option) \<Rightarrow> nat list \<times> Server \<times> 'w proc \<Rightarrow> bool" where
  "serving reg cfg \<longleftrightarrow> (case cfg of (ns, sv, s) \<Rightarrow>
     unix_listen_fd (sv_ep sv) = - 1 \<and> unix_conn_fd sv = - 1 \<and> sessions_ok reg (sv_ep sv) s \<and>
     distinct (map (\<lambda>n. fired_fd (firedevent (sv_ep sv) ! n)) ns) \<and> (\<forall>n \<in> set ns. fired_ok (sv_ep sv) n))"

lemma session_ok_mono: "session_ok i fd c \<Longrightarrow> i' = i \<or> i' = None \<Longrightarrow> session_ok i' fd c"
  by (auto simp: session_ok_def readable_def)

lemma session_ok_new [simp]: "session_ok i fd (new_InetConn junk fd ip)"
  by (simp add: session_ok_def) (simp add: new_InetConn_def)

lemma SendReply_reply: "SendReply k c s = (ws, c', s') \<Longrightarrow> reply c' = reply c \<or> reply c' = []"
  by (auto simp: SendReply_def Let_def split: prod.splits option.splits if_splits)

lemma SendReply_conn_inv: "SendReply k c s = (ws, c', s') \<Longrightarrow> conn_inv c \<Longrightarrow> conn_inv c'"
  by (auto simp: SendReply_def Let_def conn_inv_def request_len_def
      split: prod.splits option.splits if_splits)

lemma EPOLLIN_bit: "bit EPOLLIN 0" "\<not> bit EPOLLOUT 0"
  by (simp_all add: epoll_masks)

locale server_kernel = stream_kernel k incoming outgoing patience + epoll_kernel k interest
  for k :: "'w kernel" and incoming outgoing :: "int \<Rightarrow> 'w \<Rightarrow> byte list"
    and patience :: "'w \<Rightarrow> nat" and interest :: "int \<Rightarrow> int \<Rightarrow> 'w \<Rightarrow> u32 option"
begin

lemma request_session:
  assumes "GetRequest k c s = Ret (rs, c', t)" and "session_ok i fd c" and "reply c = []"
  shows "session_ok i' fd c' \<or> rs = kReadAll \<and> (\<not> readable i' \<longrightarrow> session_ok i' fd c')"
proof (cases "rs = kReadAll")
  case True
  note A = GetRequest_all [OF assms(1) [unfolded True]]
  from assms(2,3) have "conn_inv c" "last_write_pos c = 0"
    by (auto simp: session_ok_def reply_inv_def)
  with A assms(2) True show ?thesis by (auto simp: session_ok_def reply_inv_def conn_inv_def)
next
  case False
  with GetRequest_keeps [OF assms(1) _ False] assms(2,3) show ?thesis
    by (auto simp: session_ok_def reply_inv_def)
qed

lemma reply_session:
  assumes "SendReply k c s = (ws, c', t)" and "session_ok i fd c"
  shows "session_ok i fd c'" and "ws = kWriteAll \<Longrightarrow> session_ok i' fd c'"
  using SendReply_keeps [OF assms(1)] SendReply_reply [OF assms(1)] SendReply_conn_inv [OF assms(1)] assms(2)
  by (auto simp: session_ok_def)

lemma sessions_ok_plain:
  assumes "sessions_ok interest ep s" and "plain k A s s'"
  shows "sessions_ok interest ep s'"
  using assms(1) unfolding sessions_ok_def
  by (auto intro: session_ok_mono [OF _ plain_interest [OF assms(2)]])

text \<open>A call of \<open>epoll_ctl\<close> for \<open>fd\<close> leaves the other sessions as they are.\<close>

lemma sessions_ok_ctl:
  assumes "syscall (k_epoll_ctl k (epfd ep) c fd m) s = (r, s')"
    and "\<And>fd' c'. inet_conn_map ep fd' = Some c' \<Longrightarrow> fd' \<noteq> fd \<Longrightarrow>
           session_ok (interest (epfd ep) fd' (world s)) fd' c'"
    and "\<And>c'. inet_conn_map ep fd = Some c' \<Longrightarrow>
           session_ok (interest (epfd ep) fd (world s')) fd c'"
  shows "sessions_ok interest ep s'"
proof -
  have "interest (epfd ep) fd' (world s') = interest (epfd ep) fd' (world s)" if "fd' \<noteq> fd" for fd'
    using sys_ctl [OF assms(1), of fd'] that by auto
  with assms(2,3) show ?thesis by (metis sessions_ok_def)
qed

lemma sessions_ok_drop:
  assumes "sessions_ok interest (sv_ep sv) s" and "drop_conn k fd sv s = (sv', s')"
  shows "sessions_ok interest (sv_ep sv') s'"
proof -
  let ?ep = "(sv_ep sv)\<lparr>inet_conn_map := (inet_conn_map (sv_ep sv))(fd := None)\<rparr>"
  obtain r t where d: "syscall (k_epoll_ctl k (epfd ?ep) EPOLL_CTL_DEL fd 0) s = (r, t)" by fastforce
  have "sessions_ok interest ?ep t"
    by (rule sessions_ok_ctl [OF d]) (use assms(1) in \<open>auto simp: sessions_ok_def split: if_splits\<close>)
  moreover have "plain k {fd} t s'" "sv_ep sv' = ?ep"
    using assms(2) d by (auto simp: drop_conn_def DelEvent_def intro: plain_calls_snd)
  ultimately show ?thesis using sessions_ok_plain by simp
qed

lemma sessions_ok_put:
  assumes "sessions_ok interest (sv_ep sv) s" and "plain k A s t"
    and "session_ok (interest (epfd (sv_ep sv)) fd (world t)) fd c"
  shows "sessions_ok interest (sv_ep (put_conn fd c sv)) t"
  using sessions_ok_plain [OF assms(1,2)] assms(3) by (auto simp: sessions_ok_def)

lemma sessions_ok_put_ctl:
  assumes "sessions_ok interest (sv_ep sv) s" and "plain k A s t"
    and "syscall (k_epoll_ctl k (epfd (sv_ep sv)) a fd m) t = (r, s')"
    and "session_ok (interest (epfd (sv_ep sv)) fd (world s')) fd c"
  shows "sessions_ok interest (sv_ep (put_conn fd c sv)) s'"
proof (rule sessions_ok_ctl)
  show "syscall (k_epoll_ctl k (epfd (sv_ep (put_conn fd c sv))) a fd m) t = (r, s')"
    using assms(3) by simp
qed (use sessions_ok_plain [OF assms(1,2)] assms(4) in \<open>auto simp: sessions_ok_def\<close>)

lemma net_sessions:
  assumes "handle_net_event k fe sv s = Some (Ret (ret, sv', s'))" and "sessions_ok interest (sv_ep sv) s"
    and "mask fe AND EPOLLIN \<noteq> 0 \<longrightarrow> (\<forall>c. inet_conn_map (sv_ep sv) (fired_fd fe) = Some c \<longrightarrow> reply c = [])"
  shows "sessions_ok interest (sv_ep sv') s'"
  using assms(1)
proof (cases rule: handle_net_event_cases)
  case (handover conn uc uc' st)
  from sessions_ok_plain [OF assms(2) transfers_plain(2) [OF handover(5)]] handover(6)
  show ?thesis by simp
next
  case (request conn rs conn' t)
  let ?i = "interest (epfd (sv_ep sv)) (fired_fd fe)"
  have ok: "session_ok (?i (world s)) (fired_fd fe) conn" "reply conn = []"
    using assms(2,3) request(1,2) by (auto simp: sessions_ok_def)
  note pl = GetRequest_plain [OF request(3)] and R = request_session [OF request(3) ok]
  show ?thesis
  proof (cases "rs = kReadAll")
    case True
    obtain r v where m: "syscall (k_epoll_ctl k (epfd (sv_ep sv)) EPOLL_CTL_MOD (fired_fd fe) EPOLLOUT) t = (r, v)"
      by fastforce
    from True m request(4,6) have "s' = v" by (simp add: ModEvent_def)
    moreover have "\<not> readable (?i (world v))"
      using sys_ctl [OF m, of "fired_fd fe"] EPOLLIN_bit(2) by (auto simp: readable_def split: option.splits)
    ultimately show ?thesis
      unfolding request(4) using sessions_ok_put_ctl [OF assms(2) pl m] R [of "?i (world v)"] by blast
  next
    case False
    with R have "session_ok (?i (world t)) (fired_fd fe) conn'" by blast
    from sessions_ok_put [OF assms(2) pl this] False request(4,6) show ?thesis by simp
  qed
next
  case (reply conn ws conn' t)
  let ?i = "interest (epfd (sv_ep sv)) (fired_fd fe)"
  have ok: "session_ok (?i (world s)) (fired_fd fe) conn"
    using assms(2) reply(1) by (auto simp: sessions_ok_def)
  note pl = SendReply_plain [OF reply(2)] and R = reply_session [OF reply(2) ok]
  show ?thesis
  proof (cases "ws = kWriteAll")
    case True
    obtain r v where m: "syscall (k_epoll_ctl k (epfd (sv_ep sv)) EPOLL_CTL_MOD (fired_fd fe) EPOLLIN) t = (r, v)"
      by fastforce
    from True m reply(3,5) have "s' = v" by (simp add: ModEvent_def)
    with sessions_ok_put_ctl [OF assms(2) pl m R(2) [OF True]] reply(3) show ?thesis by simp
  next
    case False
    from sessions_ok_put [OF assms(2) pl session_ok_mono [OF R(1) plain_interest [OF pl]]] False reply(3,5)
    show ?thesis by simp
  qed
qed (use assms(2) in auto)

end

text \<open>What an event leaves alone: the fired array, the epoll descriptor, the other sessions.\<close>

lemma net_frame:
  assumes "handle_net_event k fe sv s = Some (Ret (ret, sv', s'))"
  shows "epfd (sv_ep sv') = epfd (sv_ep sv)" and "firedevent (sv_ep sv') = firedevent (sv_ep sv)"
    and "unix_listen_fd (sv_ep sv') = unix_listen_fd (sv_ep sv)" and "unix_conn_fd sv' = unix_conn_fd sv"
    and "fd \<noteq> fired_fd fe \<Longrightarrow> inet_conn_map (sv_ep sv') fd = inet_conn_map (sv_ep sv) fd"
  using assms by (cases rule: handle_net_event_cases; simp)+

lemma fired_ok_frame:
  assumes "fired_ok ep n" and "firedevent ep' = firedevent ep"
    and "\<And>c. inet_conn_map ep' (fired_fd (firedevent ep ! n)) = Some c \<Longrightarrow>
           inet_conn_map ep (fired_fd (firedevent ep ! n)) = Some c \<or> reply c = []"
  shows "fired_ok ep' n"
  using assms by (auto simp: fired_ok_def Let_def)

context server_kernel
begin

lemma serving_dispatch:
  assumes "serving interest (n # ns, sv, s)"
    and "dispatch k (firedevent (sv_ep sv) ! n) sv s = Some (Ret (sv', s'))"
  shows "serving interest (ns, sv', s')"
proof -
  let ?fe = "firedevent (sv_ep sv) ! n"
  note I = assms(1) [unfolded serving_def prod.case]
  then have ok: "sessions_ok interest (sv_ep sv) s" "fired_ok (sv_ep sv) n" "\<forall>m \<in> set ns. fired_ok (sv_ep sv) m"
    "distinct (map (\<lambda>n. fired_fd (firedevent (sv_ep sv) ! n)) ns)"
    and other: "m \<in> set ns \<Longrightarrow> fired_fd (firedevent (sv_ep sv) ! m) \<noteq> fired_fd ?fe" for m
    by (auto simp: image_iff dest: sym)
  from ok(2) have nn: "0 \<le> fired_fd ?fe" by (simp add: fired_ok_def Let_def)
  show ?thesis
    using assms(2)
  proof (cases rule: dispatch_cases)
    case accept
    from accept(2) obtain fd ip junk s1 where a: "sv' = put_conn fd (new_InetConn junk fd ip) sv" "plain k {} s s1"
        "s' = snd (AddEvent k fd (EPOLLIN OR EPOLLET) (sv_ep sv) s1)"
      by (rule accept_inet_cases)
    obtain r where "syscall (k_epoll_ctl k (epfd (sv_ep sv)) EPOLL_CTL_ADD fd (EPOLLIN OR EPOLLET)) s1 = (r, s')"
      using a(3) by (simp add: AddEvent_def) (metis surjective_pairing)
    from sessions_ok_put_ctl [OF ok(1) a(2) this session_ok_new] a(1)
    have "sessions_ok interest (sv_ep sv') s'" by simp
    moreover have "fired_ok (sv_ep sv') m" if "m \<in> set ns" for m
      by (rule fired_ok_frame [of "sv_ep sv"]) (use that ok(3) a(1) in \<open>auto simp: new_InetConn_def split: if_splits\<close>)
    ultimately show ?thesis using I a(1) by (simp add: serving_def)
  next
    case accept_unix
    with nn I show ?thesis by simp
  next
    case (unix ret sv1 s1)
    with nn I show ?thesis by simp
  next
    case (net ret sv1 s1)
    note F = net_frame [OF net(2)]
    have S1: "sessions_ok interest (sv_ep sv1) s1"
      by (rule net_sessions [OF net(2) ok(1)]) (use ok(2) in \<open>auto simp: fired_ok_def Let_def\<close>)
    have S: "sessions_ok interest (sv_ep sv') s'"
      using S1 sessions_ok_drop [OF S1] net(3) by (cases "ret = - 1") simp_all
    have fst: "sv' = sv1 \<or> sv' = fst (drop_conn k (fired_fd ?fe) sv1 s1)"
      using net(3) by (metis fst_conv)
    then have e: "firedevent (sv_ep sv') = firedevent (sv_ep sv)" "unix_listen_fd (sv_ep sv') = - 1" "unix_conn_fd sv' = - 1"
      using F I by auto
    have "fired_ok (sv_ep sv') m" if "m \<in> set ns" for m
      by (rule fired_ok_frame [of "sv_ep sv"]) (use that ok(3) other [OF that] F(5) fst e(1) in auto)
    with S e ok(4) show ?thesis by (simp add: serving_def)
  qed
qed

lemma serving_wait:
  assumes "serving interest ([], sv, s)" and "trigger k path sv s = Some (Ret (sv1, s1))"
    and "wait_events k sv1 s1 = Some (Ret (ns, sv2, s2))"
  shows "serving interest (ns, sv2, s2)"
proof -
  have ok: "sessions_ok interest (sv_ep sv) s" and u: "unix_listen_fd (sv_ep sv) = - 1" "unix_conn_fd sv = - 1"
    using assms(1) by (auto simp: serving_def)
  have "sessions_ok interest (sv_ep sv1) s1 \<and> unix_listen_fd (sv_ep sv1) = - 1 \<and> unix_conn_fd sv1 = - 1"
    using assms(2)
  proof (cases rule: trigger_cases)
    case none
    with ok u sessions_ok_plain show ?thesis by simp
  next
    case (kept fd uc')
    with ok u sessions_ok_plain show ?thesis by simp
  next
    case (sent fd uc' t)
    let ?ep = "(sv_ep sv)\<lparr>inet_listen_fd := - 1\<rparr>" and ?l = "inet_listen_fd (sv_ep sv)"
    obtain r v where d: "syscall (k_epoll_ctl k (epfd ?ep) EPOLL_CTL_DEL ?l 0) t = (r, v)" by fastforce
    have t: "sessions_ok interest ?ep t"
      using sessions_ok_plain [OF ok sent(3)] by (simp add: sessions_ok_def)
    have "sessions_ok interest ?ep v"
    proof (rule sessions_ok_ctl [OF d])
      show "session_ok (interest (epfd ?ep) ?l (world v)) ?l c'" if "inet_conn_map ?ep ?l = Some c'" for c'
        using t that sys_ctl [OF d, of ?l] by (auto simp: sessions_ok_def intro: session_ok_mono split: if_splits)
    qed (use t in \<open>auto simp: sessions_ok_def\<close>)
    moreover have "plain k {?l} v s1"
      using sent(5) d by (auto simp: detachInetListenFd_def DelEvent_def Let_def intro: plain_calls_snd)
    ultimately show ?thesis using sent(4) u sessions_ok_plain by simp
  qed
  then have ok1: "sessions_ok interest (sv_ep sv1) s1" "unix_listen_fd (sv_ep sv1) = - 1" "unix_conn_fd sv1 = - 1"
    by auto
  show ?thesis
    using assms(3)
  proof (cases rule: wait_events_state)
    case (1 evs)
    let ?ep = "sv_ep sv2"
    have fe: "firedevent ?ep ! n = fire (evs ! n)" if "n < length evs" for n
      using that by (simp add: 1(3) nth_append)
    have W: "k_epoll_wait k (epfd (sv_ep sv1)) MAX_EVENTS 10 (world s1) = (Ok evs, world s2)"
      using syscall_SomeD [OF 1(1)] by simp
    note L = wait_Ok [OF W]
    have "map (\<lambda>n. fired_fd (firedevent ?ep ! n)) ns = map snd evs"
      by (rule nth_equalityI) (auto simp: 1(2) fe)
    moreover have "fired_ok ?ep n" if "n \<in> set ns" for n
    proof -
      have "evs ! n \<in> set evs" "firedevent ?ep ! n = fire (evs ! n)" using that fe 1(2) by auto
      with L have "0 \<le> fired_fd (firedevent ?ep ! n)"
        and "mask (firedevent ?ep ! n) AND EPOLLIN \<noteq> 0 \<Longrightarrow>
          readable (interest (epfd (sv_ep sv1)) (fired_fd (firedevent ?ep ! n)) (world s1))"
        by (auto simp: fire_tests readable_def)
      with ok1(1) show ?thesis by (auto simp: fired_ok_def Let_def 1(3) sessions_ok_def session_ok_def)
    qed
    moreover have "plain k {} s1 s2" using 1(1) by (rule plain_call1)
    then have "sessions_ok interest ?ep s2"
      using sessions_ok_plain [OF ok1(1)] by (simp add: sessions_ok_def 1(3))
    ultimately show ?thesis using L ok1(2,3) 1(3) by (auto simp: serving_def)
  next
    case 2
    with ok1 sessions_ok_plain show ?thesis by (simp add: serving_def)
  qed
qed

lemma serving_step: "server_step k path cfg cfg' \<Longrightarrow> serving interest cfg \<Longrightarrow> serving interest cfg'"
  by (induction rule: server_step.induct) (blast intro: serving_wait serving_dispatch)+

end

section \<open>Reachable states\<close>

lemma main_init_state:
  assumes "main_init k junk argv s0 = Some (Ret (path, sv, s))"
  shows "inet_conn_map (sv_ep sv) = Map.empty" and "unix_conn_fd sv = - 1" and "unix_client sv = None"
    and "unix_conn sv = None" and "path \<noteq> ''-u'' \<Longrightarrow> unix_listen_fd (sv_ep sv) = - 1"
  using assms
  by (auto simp: main_init_def getInstance_def new_Epoll_def Let_def
      split: list.splits prod.splits if_splits dest!: startInetServer_state startUnixServer_state)
    (metis Epoll.select_convs Epoll.surjective Epoll.update_convs)+

context server_kernel
begin

lemma reachable_serving:
  "reachable k junk argv s0 path cfg \<Longrightarrow> path \<noteq> ''-u'' \<Longrightarrow> serving interest cfg"
proof (induction rule: reachable.induct)
  case (Start path sv s)
  from main_init_state [OF Start(1)] Start(2) show ?case by (simp add: serving_def sessions_ok_def)
next
  case (Step path cfg cfg')
  then show ?case using serving_step by blast
qed

end

text \<open>A hand-over client exists only in a process started with the client trigger.\<close>

lemma dispatch_client:
  assumes "dispatch k fe sv s = Some (Ret (sv', s'))"
  shows "unix_client sv' \<noteq> None \<longleftrightarrow> unix_client sv \<noteq> None" and "unix_socket_init sv' = unix_socket_init sv"
proof -
  have "(unix_client sv' \<noteq> None \<longleftrightarrow> unix_client sv \<noteq> None) \<and> unix_socket_init sv' = unix_socket_init sv"
    using assms
  proof (cases rule: dispatch_cases)
    case accept
    then show ?thesis by (auto elim: accept_inet_cases)
  next
    case accept_unix
    then show ?thesis by (auto simp: accept_unix_def Let_def split: if_splits)
  next
    case (unix ret sv1 s1)
    from unix(2) have "unix_client sv1 = unix_client sv \<and> unix_socket_init sv1 = unix_socket_init sv"
      by (auto simp: handle_unix_event_def split: if_splits option.splits)
    with unix(3) show ?thesis by (auto simp: drop_unix_def split: if_splits)
  next
    case (net ret sv1 s1)
    from net(2) have "(unix_client sv1 \<noteq> None \<longleftrightarrow> unix_client sv \<noteq> None) \<and> unix_socket_init sv1 = unix_socket_init sv"
      by (cases rule: handle_net_event_cases) auto
    with net(3) show ?thesis by (auto simp: drop_conn_def split: if_splits)
  qed
  then show "unix_client sv' \<noteq> None \<longleftrightarrow> unix_client sv \<noteq> None" and "unix_socket_init sv' = unix_socket_init sv"
    by auto
qed

definition client_ok :: "string \<Rightarrow> nat list \<times> Server \<times> 'w proc \<Rightarrow> bool" where
  "client_ok path cfg \<longleftrightarrow> (case cfg of (_, sv, _) \<Rightarrow>
     unix_client sv \<noteq> None \<longrightarrow> path = UNIX_CLIENT_TRIGGER \<and> unix_socket_init sv)"

lemma client_ok_step: "server_step k path cfg cfg' \<Longrightarrow> client_ok path cfg \<Longrightarrow> client_ok path cfg'"
proof (induction rule: server_step.induct)
  case (Wait sv s sv1 s1 ns sv2 s2)
  from Wait(1) have "client_ok path (ns, sv1, s1)"
    by (cases rule: trigger_cases) (use Wait(3) in \<open>auto simp: client_ok_def\<close>)
  with Wait(2) show ?case by (auto simp: client_ok_def elim!: wait_events_state)
next
  case (Event sv n s sv' s' ns)
  with dispatch_client [OF Event(1)] show ?case by (auto simp: client_ok_def)
qed

lemma reachable_client_ok: "reachable k junk argv s0 path cfg \<Longrightarrow> client_ok path cfg"
proof (induction rule: reachable.induct)
  case (Start path sv s)
  from main_init_state(3) [OF Start] show ?case by (simp add: client_ok_def)
next
  case (Step path cfg cfg')
  then show ?case using client_ok_step by blast
qed

text \<open>Receiving a request never sends a message.\<close>

lemma GetRequest_sendmsg: "GetRequest (k\<lparr>k_sendmsg := f\<rparr>) c s = GetRequest k c s"
proof -
  have r: "read_step (k\<lparr>k_sendmsg := f\<rparr>) = read_step k" by (simp add: read_step_def fun_eq_iff)
  have "GetBody (k\<lparr>k_sendmsg := f\<rparr>) = GetBody k" by (simp only: GetBody_def fun_eq_iff r simp_thms)
  then show ?thesis by (simp only: GetRequest_def GetHeader_def r)
qed

section \<open>Properties\<close>

context read_kernel
begin

lemma registry_ok_step:
  "server_step k path cfg cfg' \<Longrightarrow> registry_ok (fst (snd cfg)) \<Longrightarrow> registry_ok (fst (snd cfg'))"
proof (induction rule: server_step.induct)
  case (Wait sv s sv1 s1 ns sv2 s2)
  from Wait(1) have "registry_ok sv1"
    by (cases rule: trigger_cases) (use Wait(3) in \<open>auto simp: registry_ok_def\<close>)
  with Wait(2) show ?case by (auto simp: registry_ok_def elim!: wait_events_state)
next
  case (Event sv n s sv' s' ns)
  with registry_ok_dispatch show ?case by auto
qed

end

lemma reachable_registry:
  assumes "read_kernel k incoming patience" and "reachable k junk argv s0 path cfg"
  shows "registry_ok (fst (snd cfg))"
  using assms(2)
proof (induction rule: reachable.induct)
  case (Start path sv s)
  from main_init_state(1) [OF Start] show ?case by (simp add: registry_ok_def)
next
  case (Step path cfg cfg')
  with read_kernel.registry_ok_step [OF assms(1)] show ?case by blast
qed

text \<open>
  C14: in every state the server reaches, in either role and whatever events occurred, each
  connection is filed under its own descriptor and its read position is inside the frame
  being received.
\<close>

theorem server_registry_invariant:
  assumes "read_kernel k incoming patience" and "reachable k junk argv s0 path (ns, sv, s)"
  shows "registry_ok sv"
  using reachable_registry [OF assms] by simp

lemma SendReply_sendmsg: "SendReply (k\<lparr>k_sendmsg := f\<rparr>) c s = SendReply k c s"
  by (simp add: SendReply_def)

text \<open>
  An event of a session that does not qualify for a hand-over sends no message: what
  \<open>sendmsg\<close> would do has no influence on the handler.
\<close>

lemma net_event_sendmsg:
  assumes "inet_conn_map (sv_ep sv) (fired_fd fe) = Some c"
    and "\<not> (mask fe AND EPOLLIN \<noteq> 0 \<and> mask fe AND EPOLLERR = 0 \<and> mask fe AND EPOLLHUP = 0 \<and> EmptyReadBuf c)"
  shows "handle_net_event (k\<lparr>k_sendmsg := f\<rparr>) fe sv s = handle_net_event k fe sv s"
proof -
  have m: "ModEvent (k\<lparr>k_sendmsg := f\<rparr>) = ModEvent k" by (simp add: ModEvent_def fun_eq_iff)
  consider "mask fe AND EPOLLERR \<noteq> 0 \<or> mask fe AND EPOLLHUP \<noteq> 0"
    | "mask fe AND EPOLLERR = 0" "mask fe AND EPOLLHUP = 0" "mask fe AND EPOLLIN = 0 \<or> \<not> EmptyReadBuf c"
    using assms(2) by blast
  then show ?thesis
  proof cases
    case 1
    then show ?thesis unfolding handle_net_event_def by simp
  next
    case 2
    with assms(1) show ?thesis unfolding handle_net_event_def GetRequest_sendmsg SendReply_sendmsg m by auto
  qed
qed

text \<open>An event of a session in a process with a successor.\<close>

lemma session_handover:
  assumes "server_kernel k incoming outgoing patience interest"
    and "reachable k junk argv s0 path (n # ns, sv, s)" and "fe = firedevent (sv_ep sv) ! n"
    and "unix_client sv = Some uc" and "fired_fd fe \<noteq> inet_listen_fd (sv_ep sv)"
    and "inet_conn_map (sv_ep sv) (fired_fd fe) = Some c"
  shows "if mask fe AND EPOLLIN \<noteq> 0 \<and> mask fe AND EPOLLERR = 0 \<and> mask fe AND EPOLLHUP = 0 \<and> EmptyReadBuf c
    then received c = [] \<and> unsent c = [] \<and>
      dispatch k fe sv s = (case TransferSessionFd k uc (fired_fd fe) s of
          None \<Rightarrow> None
        | Some (st, uc', s') \<Rightarrow> Some (Ret (drop_conn k (fired_fd fe) (sv\<lparr>unix_client := Some uc'\<rparr>) s')))
    else \<forall>f. dispatch (k\<lparr>k_sendmsg := f\<rparr>) fe sv s = dispatch k fe sv s"
proof -
  from reachable_client_ok [OF assms(2)] assms(4) have "path \<noteq> ''-u''"
    by (auto simp: client_ok_def UNIX_CLIENT_TRIGGER_def)
  from server_kernel.reachable_serving [OF assms(1,2) this]
  have I: "unix_listen_fd (sv_ep sv) = - 1" "unix_conn_fd sv = - 1" "fired_ok (sv_ep sv) n"
    by (auto simp: serving_def)
  from I(3) assms(3,6) have r: "mask fe AND EPOLLIN \<noteq> 0 \<Longrightarrow> reply c = []" "0 \<le> fired_fd fe"
    by (auto simp: fired_ok_def Let_def)
  show ?thesis
  proof (cases "mask fe AND EPOLLIN \<noteq> 0 \<and> mask fe AND EPOLLERR = 0 \<and> mask fe AND EPOLLHUP = 0 \<and> EmptyReadBuf c")
    case True
    then have "received c = []" by (simp add: EmptyReadBuf_def received_def)
    with True r I assms(4-6) show ?thesis
      by (auto simp: unsent_def dispatch_def handle_net_event_def split: option.split)
  next
    case False
    have d: "drop_conn (k\<lparr>k_sendmsg := f\<rparr>) = drop_conn k" for f
      by (simp add: drop_conn_def DelEvent_def fun_eq_iff)
    have "dispatch (k\<lparr>k_sendmsg := f\<rparr>) fe sv s = dispatch k fe sv s" for f
      using r(2) I assms(5) net_event_sendmsg [OF assms(6) False, where k = k and f = f and s = s] unfolding dispatch_def d by simp
    with False show ?thesis by (simp only: if_False) simp
  qed
qed

text \<open>
  C8: a session is handed over between requests only.  Suppose a reachable server with a
  successor is about to dispatch an event of a session, whatever the event reports.  If it
  reports data and no error, and no partial request is buffered, then no byte of a reply is
  unsent either, so the successor, which starts with empty buffers, continues the stream
  exactly where it stands; the event is dispatched by the transfer alone, without reading
  from the session, after which the local descriptor is deregistered, closed and
  forgotten.  In every other case, that is, for an event that is not readable or reports an
  error, and whenever a partial request is buffered, nothing is sent to the successor: the
  dispatch does not depend on what \<open>sendmsg\<close> does.
\<close>

theorem session_handover_lossless:
  assumes "server_kernel k incoming outgoing patience interest"
    and "reachable k junk argv s0 path (n # ns, sv, s)" and "fe = firedevent (sv_ep sv) ! n"
    and "unix_client sv = Some uc" and "fired_fd fe \<noteq> inet_listen_fd (sv_ep sv)"
    and "inet_conn_map (sv_ep sv) (fired_fd fe) = Some c"
  shows "if mask fe AND EPOLLIN \<noteq> 0 \<and> mask fe AND EPOLLERR = 0 \<and> mask fe AND EPOLLHUP = 0 \<and> EmptyReadBuf c
    then received c = [] \<and> unsent c = [] \<and>
      dispatch k fe sv s = (case TransferSessionFd k uc (fired_fd fe) s of
          None \<Rightarrow> None
        | Some (st, uc', s') \<Rightarrow> Some (Ret (drop_conn k (fired_fd fe) (sv\<lparr>unix_client := Some uc'\<rparr>) s')))
    else \<forall>f. dispatch (k\<lparr>k_sendmsg := f\<rparr>) fe sv s = dispatch k fe sv s"
  using assms by (rule session_handover)

definition demo_proc :: "sim proc" where
  "demo_proc = \<lparr>errno = EINTR, world = quiet\<lparr>files := [(UNIX_CLIENT_TRIGGER, demo_stat)],
     schedule := [Chunk 99], ready := [[(EPOLLIN, 4)], [(EPOLLIN, 7)]],
     backlog := [(7, SockIn 0 0)]\<rparr>\<rparr>"

definition demo_server :: Server where
  "demo_server = \<lparr>unix_conn = None, unix_client = None,
     sv_ep = \<lparr>epfd = 3, inet_listen_fd = 4, unix_listen_fd = - 1, ep_unix_conn_fd = - 1,
       ep_unix_client_fd = - 1, inet_conn_map = Map.empty, firedevent = []\<rparr>,
     unix_conn_fd = - 1, unix_client_fd = - 1, unix_socket_init = False\<rparr>"

text \<open>
  A run for the witnesses: the trigger file exists from the start, the transfer of the
  listener fails because of a short send, a connection is accepted and becomes readable.
\<close>

lemma demo_init:
  "main_init sim_kernel [] [UNIX_CLIENT_TRIGGER] demo_proc = Some (Ret (UNIX_CLIENT_TRIGGER, demo_server,
     demo_proc\<lparr>world := (world demo_proc)\<lparr>next_fd := 5, registered := [(4, EPOLLIN)]\<rparr>\<rparr>))"
  by (simp add: main_init_def InitSignal_def getInstance_def new_Epoll_def startInetServer_def
      inet_server_listen_def AddEvent_def UNIX_CLIENT_TRIGGER_def demo_proc_def demo_server_def
      syscall_def quiet_def Let_def)

lemma demo_trigger:
  "\<exists>uc s'. trigger sim_kernel UNIX_CLIENT_TRIGGER demo_server
      (demo_proc\<lparr>world := (world demo_proc)\<lparr>next_fd := 5, registered := [(4, EPOLLIN)]\<rparr>\<rparr>)
      = Some (Ret (demo_server\<lparr>unix_client_fd := 5, unix_client := Some uc, unix_socket_init := True\<rparr>, s'))
    \<and> ready (world s') = [[(EPOLLIN, 4)], [(EPOLLIN, 7)]] \<and> registered (world s') = [(4, EPOLLIN)]
    \<and> backlog (world s') = [(7, SockIn 0 0)]"
proof -
  have *: "length (transfer_message kTransferListenFd listen_data) = 1024"
    by (simp add: length_transfer_message)
  show ?thesis
    by (simp add: trigger_def FileExists_def unix_client_conn_def demo_proc_def demo_server_def quiet_def
        sim_defs UNIX_CLIENT_TRIGGER_def Let_def SUN_PATH_LEN_def UNIX_SOCKET_LOCK_FILE_def
        TransferListenFd_def transfer_def new_UnixClient_def MSG_DATA_BUF_LEN_def *
        send_loop.simps [of _ _ "transfer_message kTransferListenFd listen_data"])
qed

lemma demo_trigger_again:
  assumes "unix_socket_init sv \<or> path \<noteq> UNIX_CLIENT_TRIGGER"
  shows "\<exists>s'. trigger sim_kernel path sv s = Some (Ret (sv, s')) \<and> world s' = world s"
  using assms by (auto simp: trigger_def FileExists_def syscall_def Let_def split: prod.splits sysres.splits)

lemma demo_wait:
  assumes "ready (world s) = [(EPOLLIN, fd)] # r" and "map_of (registered (world s)) fd = Some i" and "bit i 0"
    and "0 \<le> fd"
  shows "\<exists>s'. wait_events sim_kernel sv s = Some (Ret ([0],
      sv\<lparr>sv_ep := (sv_ep sv)\<lparr>firedevent := fire (EPOLLIN, fd) # drop 1 (firedevent (sv_ep sv))\<rparr>\<rparr>, s'))
    \<and> world s' = (world s)\<lparr>ready := r\<rparr>"
  using assms by (simp add: wait_events_def Poll_def syscall_def MAX_EVENTS_def)

lemma demo_accept:
  assumes "backlog (world s) = (fd, SockIn p a) # r" and "0 \<le> fd"
    and "fired_fd fe = inet_listen_fd (sv_ep sv)"
  shows "\<exists>junk ip s'. dispatch sim_kernel fe sv s = Some (Ret (put_conn fd (new_InetConn junk fd ip) sv, s'))
    \<and> ready (world s') = ready (world s)
    \<and> map_of (registered (world s')) fd = Some (EPOLLIN OR EPOLLET)"
  using assms
  by (auto simp: dispatch_def accept_inet_def inet_server_accept_def SetNonblock_def AddEvent_def
      syscall_def Let_def)

lemma fire_EPOLLIN: "mask (fire (EPOLLIN, fd)) = EPOLLIN"
  by (simp add: fire_def epoll_masks)

lemma EPOLLIN_tests: "EPOLLIN AND EPOLLERR = 0" "EPOLLIN AND EPOLLHUP = 0"
  by (simp_all add: epoll_masks)

lemma EmptyReadBuf_new [simp]: "EmptyReadBuf (new_InetConn junk fd ip)"
  by (simp add: EmptyReadBuf_def new_InetConn_def)

lemma demo_reachable:
  obtains sv s uc c where "reachable sim_kernel [] [UNIX_CLIENT_TRIGGER] demo_proc UNIX_CLIENT_TRIGGER ([0], sv, s)"
    and "unix_client sv = Some uc" and "inet_conn_map (sv_ep sv) 7 = Some c" and "EmptyReadBuf c"
    and "firedevent (sv_ep sv) ! 0 = fire (EPOLLIN, 7)" and "inet_listen_fd (sv_ep sv) = 4"
proof -
  let ?R = "reachable sim_kernel [] [UNIX_CLIENT_TRIGGER] demo_proc UNIX_CLIENT_TRIGGER"
  note r0 = reachable.Start [OF demo_init]
  obtain uc s1 where t: "trigger sim_kernel UNIX_CLIENT_TRIGGER demo_server
      (demo_proc\<lparr>world := (world demo_proc)\<lparr>next_fd := 5, registered := [(4, EPOLLIN)]\<rparr>\<rparr>)
      = Some (Ret (demo_server\<lparr>unix_client_fd := 5, unix_client := Some uc, unix_socket_init := True\<rparr>, s1))"
    and w1: "ready (world s1) = [[(EPOLLIN, 4)], [(EPOLLIN, 7)]]" "registered (world s1) = [(4, EPOLLIN)]"
      "backlog (world s1) = [(7, SockIn 0 0)]"
    using demo_trigger by blast
  let ?sv1 = "demo_server\<lparr>unix_client_fd := 5, unix_client := Some uc, unix_socket_init := True\<rparr>"
  from demo_wait [of s1 4 _ EPOLLIN ?sv1] w1(1,2) obtain sv2 s2 where
      w: "wait_events sim_kernel ?sv1 s1 = Some (Ret ([0], sv2, s2))" "world s2 = (world s1)\<lparr>ready := [[(EPOLLIN, 7)]]\<rparr>"
    and sv2: "firedevent (sv_ep sv2) ! 0 = fire (EPOLLIN, 4)" "unix_client sv2 = Some uc" "unix_socket_init sv2"
      "inet_listen_fd (sv_ep sv2) = 4"
    by (auto simp: demo_server_def EPOLLIN_bit)
  have r1: "?R ([0], sv2, s2)" using r0 t w(1) by (blast intro: reachable.Step server_step.Wait)
  from demo_accept [of s2 7 0 0 "[]" "firedevent (sv_ep sv2) ! 0" sv2] w1(3) w(2) sv2 obtain junk ip s3 where
      a: "dispatch sim_kernel (firedevent (sv_ep sv2) ! 0) sv2 s2 = Some (Ret (put_conn 7 (new_InetConn junk 7 ip) sv2, s3))"
    and w3: "ready (world s3) = [[(EPOLLIN, 7)]]" "map_of (registered (world s3)) 7 = Some (EPOLLIN OR EPOLLET)"
    by auto
  let ?sv3 = "put_conn 7 (new_InetConn junk 7 ip) sv2"
  have r2: "?R ([], ?sv3, s3)" using r1 a by (blast intro: reachable.Step server_step.Event)
  obtain s4 where t2: "trigger sim_kernel UNIX_CLIENT_TRIGGER ?sv3 s3 = Some (Ret (?sv3, s4))" "world s4 = world s3"
    using demo_trigger_again [of ?sv3] sv2(3) by auto
  have b: "bit (EPOLLIN OR EPOLLET) 0" by (simp add: bit_or_iff EPOLLIN_bit)
  from demo_wait [of s4 7 "[]" "EPOLLIN OR EPOLLET" ?sv3] w3 t2(2) b obtain s5 where
      w5: "wait_events sim_kernel ?sv3 s4 = Some (Ret ([0], ?sv3\<lparr>sv_ep := (sv_ep ?sv3)\<lparr>firedevent :=
         fire (EPOLLIN, 7) # drop 1 (firedevent (sv_ep ?sv3))\<rparr>\<rparr>, s5))"
    by auto
  have "?R ([0], ?sv3\<lparr>sv_ep := (sv_ep ?sv3)\<lparr>firedevent :=
         fire (EPOLLIN, 7) # drop 1 (firedevent (sv_ep ?sv3))\<rparr>\<rparr>, s5)"
    using r2 t2(1) w5 by (blast intro: reachable.Step server_step.Wait)
  then show ?thesis
    by (rule that [where c = "new_InetConn junk 7 ip"]) (use sv2 in simp_all)
qed

interpretation sim_server: server_kernel sim_kernel sim_incoming sim_outgoing sim_patience sim_interest
  by unfold_locales

theorem server_registry_invariant_witness:
  "\<exists>ns sv s. reachable sim_kernel [] [UNIX_CLIENT_TRIGGER] demo_proc UNIX_CLIENT_TRIGGER (ns, sv, s)
    \<and> inet_conn_map (sv_ep sv) 7 \<noteq> None \<and> registry_ok sv"
proof -
  obtain sv s uc c where r: "reachable sim_kernel [] [UNIX_CLIENT_TRIGGER] demo_proc UNIX_CLIENT_TRIGGER ([0], sv, s)"
    and "inet_conn_map (sv_ep sv) 7 = Some c" by (rule demo_reachable)
  with server_registry_invariant [OF sim_k.read_kernel_axioms r] show ?thesis by blast
qed

theorem session_handover_lossless_witness:
  "\<exists>sv s c. reachable sim_kernel [] [UNIX_CLIENT_TRIGGER] demo_proc UNIX_CLIENT_TRIGGER ([0], sv, s)
    \<and> inet_conn_map (sv_ep sv) 7 = Some c \<and> received c = [] \<and> unsent c = []
    \<and> dispatch sim_kernel (fire (EPOLLIN, 7)) sv s = (case TransferSessionFd sim_kernel (the (unix_client sv)) 7 s of
          None \<Rightarrow> None
        | Some (st, uc', s') \<Rightarrow> Some (Ret (drop_conn sim_kernel 7 (sv\<lparr>unix_client := Some uc'\<rparr>) s')))"
proof -
  obtain sv s uc c where *: "reachable sim_kernel [] [UNIX_CLIENT_TRIGGER] demo_proc UNIX_CLIENT_TRIGGER ([0], sv, s)"
      "unix_client sv = Some uc" "inet_conn_map (sv_ep sv) 7 = Some c" "EmptyReadBuf c"
      "firedevent (sv_ep sv) ! 0 = fire (EPOLLIN, 7)" "inet_listen_fd (sv_ep sv) = 4"
    by (rule demo_reachable)
  from session_handover_lossless [OF sim_server.server_kernel_axioms *(1) *(5) [symmetric] *(2), of c, unfolded fire_fd snd_conv] *(2-4,6)
  have "received c = []" "unsent c = []"
      "dispatch sim_kernel (fire (EPOLLIN, 7)) sv s = (case TransferSessionFd sim_kernel (the (unix_client sv)) 7 s of
          None \<Rightarrow> None
        | Some (st, uc', s') \<Rightarrow> Some (Ret (drop_conn sim_kernel 7 (sv\<lparr>unix_client := Some uc'\<rparr>) s')))"
    by (simp_all add: fire_EPOLLIN EPOLLIN_tests)
  with *(1,3) show ?thesis by blast
qed

text \<open>
  C15: an iteration of the main loop always finishes: however the kernel interrupts and
  splits the transfers of a hand-over, the trigger and every dispatch return, exit or
  fault; no schedule makes the server spin.
\<close>

theorem main_iteration_returns:
  assumes "msg_kernel k sent inbox patience"
  shows "\<exists>r. main_iteration k path sv s = Some r"
proof -
  have listen: "\<exists>st uc' s'. TransferListenFd k uc fd s = Some (st, uc', s')" for uc fd s
    using msg_kernel.transfer_returns [OF assms, of listen_data] unfolding TransferListenFd_def by fastforce
  have session: "\<exists>st uc' s'. TransferSessionFd k uc fd s = Some (st, uc', s')" for uc fd s
    using msg_kernel.transfer_returns [OF assms, of session_data] unfolding TransferSessionFd_def by fastforce
  have recv: "processRecv k u ep s \<noteq> None" for u ep s
    by (rule processRecv_cases [OF assms, of u ep s]) auto
  have "handle_unix_event k fe sv s \<noteq> None" for fe sv s
    using recv by (auto simp: handle_unix_event_def simp del: not_None_eq split: option.splits)
  moreover have "handle_net_event k fe sv s \<noteq> None" for fe sv s
    using session [of "the (unix_client sv)" "fired_fd fe" s]
    by (auto simp: handle_net_event_def Let_def simp del: not_None_eq split: option.splits prod.splits)
  ultimately have dispatch: "dispatch k fe sv s \<noteq> None" for fe sv s
    by (auto simp: dispatch_def accept_inet_def accept_unix_def Let_def simp del: not_None_eq split: prod.splits)
  have events: "for_events k ns sv s \<noteq> None" for ns sv s
    using dispatch by (induction ns arbitrary: sv s) (auto simp del: not_None_eq)
  have trigger: "trigger k path sv s \<noteq> None"
    using listen by (auto simp: trigger_def Let_def simp del: not_None_eq split: prod.splits option.splits) (metis option.distinct(1))+
  have wait: "wait_events k sv s \<noteq> None" for sv s
    by (auto simp: wait_events_def simp del: not_None_eq split: prod.splits)
  have "main_iteration k path sv s \<noteq> None"
    using events trigger wait by (auto simp: main_iteration_def simp del: not_None_eq)
  then show ?thesis by blast
qed

theorem main_iteration_returns_witness:
  "\<exists>r. main_iteration sim_kernel UNIX_CLIENT_TRIGGER demo_server demo_proc = Some r"
  by (rule main_iteration_returns [OF sim_msg.msg_kernel_axioms])

text \<open>
  C17: the only faults of a reachable server.  Dispatching an event runs into undefined
  behaviour or an uncaught exception only while accepting a Unix-domain client bound to a
  path of 107 bytes or more, where the store behind the path overflows the address, or on a
  connection whose stream holds a length field in \<open>-4, \<dots>, -1\<close>.
\<close>

theorem server_faults:
  assumes "read_kernel k incoming patience" and "msg_kernel k sent inbox patience'"
    and "reachable k junk argv s0 path (n # ns, sv, s)" and "fe = firedevent (sv_ep sv) ! n"
    and "dispatch k fe sv s = Some (Fault f)"
  shows "fired_fd fe = unix_listen_fd (sv_ep sv) \<and> f = BufferOverflow
      \<and> (\<exists>clifd p s'. syscall (k_accept k (unix_listen_fd (sv_ep sv))) s = (Some (clifd, SockUn p), s') \<and> 107 \<le> length p) \<or>
    (\<exists>c. inet_conn_map (sv_ep sv) (fired_fd fe) = Some c
       \<and> wraps (received c @ incoming (fired_fd fe) (world s)))"
proof -
  have recv: "processRecv k u ep s \<noteq> Some (Fault f)" for u ep s
    by (rule processRecv_cases [OF assms(2), of u ep s]) auto
  have "handle_unix_event k fe sv s \<noteq> Some (Fault f)"
    using recv by (auto simp: handle_unix_event_def run_bind_Fault split: option.splits)
  moreover have "accept_inet k sv s \<noteq> Some (Fault f)"
    by (auto simp: accept_inet_def Let_def split: prod.splits)
  ultimately consider "fired_fd fe = unix_listen_fd (sv_ep sv)" "accept_unix k sv s = Some (Fault f)"
    | "handle_net_event k fe sv s = Some (Fault f)"
    using assms(5) by (auto simp: dispatch_def run_bind_Fault split: if_splits)
  then show ?thesis
  proof cases
    case 1
    then have "unix_server_accept k (unix_listen_fd (sv_ep sv)) False s = Fault f"
      by (auto simp: accept_unix_def run_bind_Fault Let_def split: if_splits)
    from unix_server_accept_fault [OF this] 1(1) show ?thesis by blast
  next
    case 2
    then obtain c where c: "inet_conn_map (sv_ep sv) (fired_fd fe) = Some c" "GetRequest k c s = Fault f"
      by (auto simp: handle_net_event_def Let_def run_bind_Fault
          split: option.splits prod.splits if_splits)
    have R: "conn_fd c = fired_fd fe \<and> conn_inv c"
      using registry_okD [OF reachable_registry [OF assms(1,3)]] c(1) by simp
    have "wraps (received c @ incoming (conn_fd c) (world s))"
      using read_kernel.GetRequest_no_fault [OF assms(1), of c s] R c(2) by auto
    with c(1) R show ?thesis by simp
  qed
qed

definition upgrade_proc :: "sim proc" where
  "upgrade_proc = \<lparr>errno = EINTR, world = quiet\<lparr>ready := [[(EPOLLIN, 4)]],
     backlog := [(7, SockUn (replicate 107 CHR ''a''))]\<rparr>\<rparr>"

theorem server_faults_witness:
  "\<exists>sv s fe. reachable sim_kernel [] [''-u''] upgrade_proc ''-u'' ([0], sv, s)
    \<and> fe = firedevent (sv_ep sv) ! 0 \<and> dispatch sim_kernel fe sv s = Some (Fault BufferOverflow)
    \<and> (fired_fd fe = unix_listen_fd (sv_ep sv)
      \<and> (\<exists>clifd p s'. syscall (k_accept sim_kernel (unix_listen_fd (sv_ep sv))) s = (Some (clifd, SockUn p), s') \<and> 107 \<le> length p)
     \<or> (\<exists>c. inet_conn_map (sv_ep sv) (fired_fd fe) = Some c
       \<and> wraps (received c @ sim_incoming (fired_fd fe) (world s))))"
proof -
  obtain sv s where i: "main_init sim_kernel [] [''-u''] upgrade_proc = Some (Ret (''-u'', sv, s))"
    and sv: "inet_listen_fd (sv_ep sv) = - 1" "unix_listen_fd (sv_ep sv) = 4"
      "ready (world s) = [[(EPOLLIN, 4)]]" "registered (world s) = [(4, EPOLLIN)]"
      "backlog (world s) = [(7, SockUn (replicate 107 CHR ''a''))]"
    by (simp add: main_init_def InitSignal_def getInstance_def new_Epoll_def startUnixServer_def
        unix_server_listen_def UNIX_SOCKET_LOCK_FILE_def SUN_PATH_LEN_def AddEvent_def syscall_def
        upgrade_proc_def quiet_def Let_def)
  obtain s1 where t: "trigger sim_kernel ''-u'' sv s = Some (Ret (sv, s1))" "world s1 = world s"
    using demo_trigger_again [of sv "''-u''" s] by (auto simp: UNIX_CLIENT_TRIGGER_def)
  from demo_wait [of s1 4 "[]" EPOLLIN sv] sv t(2) obtain sv2 s2 where
      w: "wait_events sim_kernel sv s1 = Some (Ret ([0], sv2, s2))" "backlog (world s2) = backlog (world s)"
    and fe: "firedevent (sv_ep sv2) ! 0 = fire (EPOLLIN, 4)" "inet_listen_fd (sv_ep sv2) = - 1"
      "unix_listen_fd (sv_ep sv2) = 4"
    by (auto simp: EPOLLIN_bit)
  have r: "reachable sim_kernel [] [''-u''] upgrade_proc ''-u'' ([0], sv2, s2)"
    using reachable.Start [OF i] t(1) w(1) by (blast intro: reachable.Step server_step.Wait)
  have d: "dispatch sim_kernel (firedevent (sv_ep sv2) ! 0) sv2 s2 = Some (Fault BufferOverflow)"
    using fe w(2) sv(5)
    by (simp add: dispatch_def accept_unix_def unix_server_accept_def syscall_def Let_def SUN_PATH_LEN_def sun_path_len_def)
  from server_faults [OF sim_k.read_kernel_axioms sim_msg.msg_kernel_axioms r refl d] r d
  show ?thesis by blast
qed

text \<open>
  C39: a stale descriptor number closes a live session.  When the Unix-domain connection has
  hung up, its number stays in \<open>unix_conn_fd\<close>; if the next TCP client is given the same
  number, the first event of that client, whatever it is, is taken for one of the vanished
  connection: the descriptor is deregistered and closed without a byte being read, and the
  connection object stays in the table.
\<close>

theorem stale_unix_conn_fd:
  assumes "fd = unix_conn_fd sv" and "fd \<notin> {inet_listen_fd (sv_ep sv), unix_listen_fd (sv_ep sv)}"
    and "0 \<le> fd" and "fired_fd e1 = fd" and "mask e1 AND EPOLLHUP \<noteq> 0"
    and "dispatch k e1 sv s = Some (Ret (sv1, s1))"
    and "fired_fd e2 = inet_listen_fd (sv_ep sv1)"
    and "syscall (k_accept k (inet_listen_fd (sv_ep sv1))) s1 = (Some (fd, addr), t)"
    and "dispatch k e2 sv1 s1 = Some (Ret (sv2, s2))"
    and "fired_fd e3 = fd"
  shows "inet_conn_map (sv_ep sv2) fd \<noteq> None \<and>
    dispatch k e3 sv2 s2 = Some (Ret (sv2, snd (sys_close k fd (snd (DelEvent k fd (sv_ep sv2) s2)))))"
proof -
  from assms(1,2,4-6) have 1: "sv1 = sv\<lparr>unix_conn := None\<rparr>"
    by (auto simp: dispatch_def handle_unix_event_def drop_unix_def)
  with assms(3,7-9) obtain c where 2: "sv2 = put_conn fd c sv1"
    by (auto simp: dispatch_def accept_inet_def inet_server_accept_def Let_def)
  have "handle_unix_event k e3 sv2 s2 = Some (Ret (- 1, sv2, s2))"
    by (simp add: handle_unix_event_def 1 2)
  moreover have "drop_unix k fd sv2 s2 = (sv2, snd (sys_close k fd (snd (DelEvent k fd (sv_ep sv2) s2))))"
    by (simp add: drop_unix_def 1 2 put_conn_def)
  ultimately show ?thesis
    using assms(1,2,10) by (auto simp: dispatch_def 1 2)
qed

theorem stale_unix_conn_fd_witness:
  "\<exists>sv1 s1 sv2 s2. dispatch sim_kernel \<lparr>mask = EPOLLHUP, fired_fd = 6\<rparr> (demo_server\<lparr>unix_conn_fd := 6\<rparr>)
       (demo_proc\<lparr>world := (world demo_proc)\<lparr>backlog := [(6, SockIn 0 0)]\<rparr>\<rparr>) = Some (Ret (sv1, s1))
    \<and> dispatch sim_kernel \<lparr>mask = EPOLLIN, fired_fd = 4\<rparr> sv1 s1 = Some (Ret (sv2, s2))
    \<and> inet_conn_map (sv_ep sv2) 6 \<noteq> None
    \<and> (\<exists>s3. dispatch sim_kernel \<lparr>mask = EPOLLIN, fired_fd = 6\<rparr> sv2 s2 = Some (Ret (sv2, s3)))"
proof -
  let ?sv = "demo_server\<lparr>unix_conn_fd := 6\<rparr>"
  let ?s = "demo_proc\<lparr>world := (world demo_proc)\<lparr>backlog := [(6, SockIn 0 0)]\<rparr>\<rparr>"
  obtain sv1 s1 where 1: "dispatch sim_kernel \<lparr>mask = EPOLLHUP, fired_fd = 6\<rparr> ?sv ?s = Some (Ret (sv1, s1))"
    and b: "backlog (world s1) = [(6, SockIn 0 0)]" "inet_listen_fd (sv_ep sv1) = 4"
    by (simp add: dispatch_def demo_server_def handle_unix_event_def drop_unix_def DelEvent_def syscall_def)
  obtain junk ip s2 where 2: "dispatch sim_kernel \<lparr>mask = EPOLLIN, fired_fd = 4\<rparr> sv1 s1
      = Some (Ret (put_conn 6 (new_InetConn junk 6 ip) sv1, s2))"
    using demo_accept [OF b(1), of "\<lparr>mask = EPOLLIN, fired_fd = 4\<rparr>" sv1] b(2) by auto
  obtain t where a: "syscall (k_accept sim_kernel (inet_listen_fd (sv_ep sv1))) s1 = (Some (6, SockIn 0 0), t)"
    using b by (simp add: syscall_def)
  have "inet_conn_map (sv_ep (put_conn 6 (new_InetConn junk 6 ip) sv1)) 6 \<noteq> None \<and>
    dispatch sim_kernel \<lparr>mask = EPOLLIN, fired_fd = 6\<rparr> (put_conn 6 (new_InetConn junk 6 ip) sv1) s2
    = Some (Ret (put_conn 6 (new_InetConn junk 6 ip) sv1,
        snd (sys_close sim_kernel 6 (snd (DelEvent sim_kernel 6 (sv_ep (put_conn 6 (new_InetConn junk 6 ip) sv1)) s2)))))"
    by (rule stale_unix_conn_fd [OF _ _ _ _ _ 1 _ a 2]) (use b in \<open>simp_all add: demo_server_def\<close>)
  with 1 2 show ?thesis by blast
qed

end
