(* ===== verification/Service.thy ===== *)
theory Service
  imports Server
begin

text \<open>
  What the server promises to one client: an abstract echo service over the two byte streams
  of a session, and the proof that the server process (\<open>hot_upgrade_demo/server.cc\<close>), with
  any number of other sessions served in between, refines it.

  The abstract service receives bytes, turns a complete frame into a pending reply, and
  sends a pending reply.  \<open>view\<close> maps a session of the server to a state of the service.
  The lemmas show that an event of the session is a step of the service, that every other
  event leaves the session alone, and what the output stream of a session therefore is; and
  that a session whose events keep being reported is served.
\<close>

section \<open>The abstract service\<close>

record echo_state =
  es_input :: "byte list"
  es_partial :: "byte list"
  es_pending :: "byte list"
  es_output :: "byte list"

text \<open>The requests the server accepts: not empty, and fitting the buffer with their header.\<close>

definition acceptable :: "byte list \<Rightarrow> bool" where
  "acceptable m \<longleftrightarrow> m \<noteq> [] \<and> length m + 4 \<le> 1048576"

inductive echo_step :: "echo_state \<Rightarrow> echo_state \<Rightarrow> bool" where
  Receive: "es_pending e = [] \<Longrightarrow> es_input e = bs @ rest \<Longrightarrow>
    echo_step e (e\<lparr>es_input := rest, es_partial := es_partial e @ bs\<rparr>)"
| Answer: "es_pending e = [] \<Longrightarrow> es_partial e = frame m \<Longrightarrow> acceptable m \<Longrightarrow>
    echo_step e (e\<lparr>es_partial := [], es_pending := m\<rparr>)"
| Send: "es_pending e = bs @ rest \<Longrightarrow>
    echo_step e (e\<lparr>es_pending := rest, es_output := es_output e @ bs\<rparr>)"

text \<open>
  Whatever the service has done, what it took in since its start is a sequence of whole
  frames followed by a partial one, and what it has put out or will put out next are the
  bodies of exactly these frames, in order.
\<close>

lemma echo_steps_stream:
  assumes "echo_step\<^sup>*\<^sup>* e e'"
  shows "\<exists>ms. (\<forall>m \<in> set ms. acceptable m)
    \<and> es_partial e @ es_input e = concat (map frame ms) @ es_partial e' @ es_input e'
    \<and> es_output e' @ es_pending e' = es_output e @ es_pending e @ concat ms"
  using assms
proof (induction rule: rtranclp_induct)
  case base
  show ?case by (intro exI [of _ "[]"]) simp
next
  case (step e1 e2)
  then obtain ms where ms: "\<forall>m \<in> set ms. acceptable m"
      "es_partial e @ es_input e = concat (map frame ms) @ es_partial e1 @ es_input e1"
      "es_output e1 @ es_pending e1 = es_output e @ es_pending e @ concat ms"
    by blast
  from step(2) show ?case
  proof (cases rule: echo_step.cases)
    case (Receive bs rest)
    with ms show ?thesis by (intro exI [of _ ms]) simp
  next
    case (Answer m)
    with ms show ?thesis by (intro exI [of _ "ms @ [m]"]) simp
  next
    case (Send bs rest)
    with ms show ?thesis by (intro exI [of _ ms]) simp
  qed
qed

section \<open>A session of the server\<close>

definition view :: "(int \<Rightarrow> 'w \<Rightarrow> byte list) \<Rightarrow> (int \<Rightarrow> 'w \<Rightarrow> byte list) \<Rightarrow> int \<Rightarrow> InetConn \<Rightarrow> 'w proc
    \<Rightarrow> echo_state" where
  "view inc out fd c s = \<lparr>es_input = inc fd (world s), es_partial = received c, es_pending = unsent c,
     es_output = out fd (world s)\<rparr>"

text \<open>
  \<open>live fd w\<close>: the descriptor is in use.  A call that does not read, write or close it
  leaves its streams and its registration alone, reading and writing keep its registration,
  and \<open>accept\<close> never answers with a descriptor in use.
\<close>

locale session_kernel = server_kernel k incoming outgoing patience interest
  for k :: "'w kernel" and incoming outgoing :: "int \<Rightarrow> 'w \<Rightarrow> byte list"
    and patience :: "'w \<Rightarrow> nat" and interest :: "int \<Rightarrow> int \<Rightarrow> 'w \<Rightarrow> u32 option" +
  fixes live :: "int \<Rightarrow> 'w \<Rightarrow> bool"
  assumes off: "plain_call k A w w' \<Longrightarrow> fd \<notin> A \<Longrightarrow> live fd w \<Longrightarrow>
      live fd w' \<and> incoming fd w' = incoming fd w \<and> outgoing fd w' = outgoing fd w
      \<and> interest e fd w' = interest e fd w"
    and ctl_off: "k_epoll_ctl k e c fd' m w = (r_ctl, w') \<Longrightarrow> live fd w \<Longrightarrow>
      live fd w' \<and> incoming fd w' = incoming fd w \<and> outgoing fd w' = outgoing fd w"
    and read_live: "k_read k fd n w = (r_read, w') \<Longrightarrow> live fd w \<Longrightarrow>
      live fd w' \<and> interest e fd w' = interest e fd w"
    and write_live: "k_write k fd bs w = (r_write, w') \<Longrightarrow> live fd w \<Longrightarrow>
      live fd w' \<and> interest e fd w' = interest e fd w"
    and socket_live: "k_socket k d w = (Ok fd, w') \<Longrightarrow> live fd w'"
    and accept_fresh: "k_accept k l w = (Ok (fd, a), w') \<Longrightarrow> \<not> live fd w \<and> live fd w'"
begin

definition undisturbed :: "int \<Rightarrow> 'w proc \<Rightarrow> 'w proc \<Rightarrow> bool" where
  "undisturbed fd s s' \<longleftrightarrow> (live fd (world s) \<longrightarrow> live fd (world s')
     \<and> incoming fd (world s') = incoming fd (world s) \<and> outgoing fd (world s') = outgoing fd (world s))"

lemma undisturbed_refl [simp, intro]: "undisturbed fd s s"
  by (simp add: undisturbed_def)

lemma undisturbed_trans: "undisturbed fd s t \<Longrightarrow> undisturbed fd t u \<Longrightarrow> undisturbed fd s u"
  by (auto simp: undisturbed_def)

lemma undisturbed_plain: "plain k A s s' \<Longrightarrow> fd \<notin> A \<Longrightarrow> undisturbed fd s s'"
  unfolding plain_def undisturbed_def
  by (induction rule: rtranclp_induct) (simp, metis off)

lemma undisturbed_ctl: "syscall (k_epoll_ctl k e c fd' m) s = (r, s') \<Longrightarrow> undisturbed fd s s'"
  unfolding undisturbed_def
  by (rule impI, erule syscall_keeps [of _ _ _ _ "\<lambda>w'. live fd w' \<and> incoming fd w' = incoming fd (world s)
      \<and> outgoing fd w' = outgoing fd (world s)"]) (use ctl_off in blast)

lemma undisturbed_events:
  "undisturbed fd s (snd (AddEvent k fd' m ep s))"
  "undisturbed fd s (snd (ModEvent k fd' m ep s))"
  "undisturbed fd s (snd (DelEvent k fd' ep s))"
  by (auto simp: AddEvent_def ModEvent_def DelEvent_def intro: undisturbed_ctl [OF surjective_pairing])

lemma undisturbed_close: "fd \<noteq> fd' \<Longrightarrow> undisturbed fd s (snd (sys_close k fd' s))"
  by (rule undisturbed_plain [of "{fd'}"]) (auto intro: plain_calls_snd)

lemma undisturbed_drop: "fd \<noteq> fd' \<Longrightarrow> undisturbed fd s (snd (drop_conn k fd' sv s))"
  unfolding drop_conn_def snd_conv
  by (rule undisturbed_trans [OF undisturbed_events(3) undisturbed_close])

text \<open>An event of the session is a step of the service.\<close>

lemma GetRequest_input:
  assumes "GetRequest k c s = Ret (rs, c', t)"
  shows "\<exists>bs. incoming (conn_fd c) (world s) = bs @ incoming (conn_fd c) (world t)"
proof (rule GetRequest_reads [OF assms])
  fix n w x w'
  assume r: "k_read k (conn_fd c) n w = (x, w')"
    and "\<exists>bs. incoming (conn_fd c) (world s) = bs @ incoming (conn_fd c) w"
  then obtain bs where b: "incoming (conn_fd c) (world s) = bs @ incoming (conn_fd c) w" by blast
  show "\<exists>bs. incoming (conn_fd c) (world s) = bs @ incoming (conn_fd c) w'"
  proof (cases x)
    case (Ok y)
    with read_Ok [OF r [unfolded Ok]] b show ?thesis by (intro exI [of _ "bs @ y"]) simp
  next
    case (Fail e)
    with read_Fail [OF r [unfolded Fail]] b show ?thesis by auto
  qed
qed simp

lemma SendReply_output:
  assumes "SendReply k c s = (ws, c', t)"
  shows "\<exists>bs. outgoing (conn_fd c) (world t) = outgoing (conn_fd c) (world s) @ bs"
proof (rule SendReply_writes [OF assms])
  fix bs w x w'
  assume r: "k_write k (conn_fd c) bs w = (x, w')"
    and "\<exists>out. outgoing (conn_fd c) w = outgoing (conn_fd c) (world s) @ out"
  then show "\<exists>out. outgoing (conn_fd c) w' = outgoing (conn_fd c) (world s) @ out"
    using write_Ok [of "conn_fd c" bs w _ w'] write_Fail [of "conn_fd c" bs w _ w'] by (cases x) auto
qed simp

lemma request_refines:
  assumes "GetRequest k c s = Ret (rs, c', t)" and "session_ok i fd c" and "reply c = []" and "live fd (world s)"
  shows "echo_step\<^sup>*\<^sup>* (view incoming outgoing fd c s) (view incoming outgoing fd c' t) \<and> live fd (world t)"
proof -
  from assms(2,3) have c: "conn_fd c = fd" "conn_inv c" "last_write_pos c = 0"
    by (auto simp: session_ok_def reply_inv_def)
  have out: "outgoing fd (world t) = outgoing fd (world s) \<and> live fd (world t)"
    by (rule GetRequest_reads [OF assms(1)]) (use assms(4) c(1) read_frame read_live in auto)
  obtain bs where bs: "incoming fd (world s) = bs @ incoming fd (world t)"
    using GetRequest_input [OF assms(1)] c(1) by auto
  let ?e = "(view incoming outgoing fd c s)\<lparr>es_input := incoming fd (world t), es_partial := received c @ bs\<rparr>"
  have p: "es_pending (view incoming outgoing fd c s) = []" by (simp add: view_def unsent_def assms(3))
  then have r: "echo_step (view incoming outgoing fd c s) ?e"
    using echo_step.Receive [of "view incoming outgoing fd c s" bs "incoming fd (world t)"] bs by (simp add: view_def)
  show ?thesis
  proof (cases "rs = kReadAll")
    case True
    note A = GetRequest_all [OF assms(1) [unfolded True] c(2)]
    have "received c @ bs = frame (reply c')" using A(1) bs c(1) by simp
    moreover have "acceptable (reply c')" using A(5,6) by (simp add: acceptable_def)
    moreover have "received c' = []" "unsent c' = reply c'" using A(2,4) c(3) by (simp_all add: received_def unsent_def)
    ultimately have "echo_step ?e (view incoming outgoing fd c' t)"
      using echo_step.Answer [of ?e "reply c'"] out p by (simp add: view_def)
    with r out show ?thesis by auto
  next
    case False
    note K = GetRequest_keeps [OF assms(1) c(2) False]
    have "received c' = received c @ bs"
      using K(1) bs c(1) append_same_eq [of "received c'" "incoming fd (world t)" "received c @ bs"] by auto
    moreover have "unsent c' = unsent c" using K(1) by (simp add: unsent_def)
    ultimately have "?e = view incoming outgoing fd c' t" using out by (simp add: view_def)
    with r out show ?thesis by auto
  qed
qed

lemma reply_refines:
  assumes "SendReply k c s = (ws, c', t)" and "session_ok i fd c" and "live fd (world s)"
  shows "echo_step\<^sup>*\<^sup>* (view incoming outgoing fd c s) (view incoming outgoing fd c' t) \<and> live fd (world t)"
proof -
  from assms(2) have c: "conn_fd c = fd" "reply_inv c" by (auto simp: session_ok_def)
  have frame: "incoming fd (world t) = incoming fd (world s) \<and> live fd (world t)"
    by (rule SendReply_writes [OF assms(1)]) (use assms(3) c(1) write_frame write_live in auto)
  have rc: "received c' = received c"
    using assms(1) by (auto simp: SendReply_def Let_def received_def split: prod.splits option.splits if_splits)
  obtain bs where bs: "outgoing fd (world t) = outgoing fd (world s) @ bs"
    using SendReply_output [OF assms(1)] c(1) by auto
  with SendReply_keeps(1) [OF assms(1) c(2)] c(1) have "unsent c = bs @ unsent c'" by simp
  with bs echo_step.Send [of "view incoming outgoing fd c s" bs "unsent c'"] frame rc
  show ?thesis by (auto simp: view_def)
qed

lemma view_undisturbed:
  "undisturbed fd s s' \<Longrightarrow> live fd (world s) \<Longrightarrow>
    view incoming outgoing fd c s' = view incoming outgoing fd c s \<and> live fd (world s')"
  by (simp add: undisturbed_def view_def)

lemma net_own:
  assumes "handle_net_event k fe sv s = Some (Ret (ret, sv', s'))" and "ret \<noteq> - 1"
    and "inet_conn_map (sv_ep sv) (fired_fd fe) = Some c" and "sessions_ok interest (sv_ep sv) s"
    and "mask fe AND EPOLLIN \<noteq> 0 \<longrightarrow> reply c = []" and "live (fired_fd fe) (world s)"
  shows "\<exists>c'. inet_conn_map (sv_ep sv') (fired_fd fe) = Some c' \<and> live (fired_fd fe) (world s')
    \<and> echo_step\<^sup>*\<^sup>* (view incoming outgoing (fired_fd fe) c s) (view incoming outgoing (fired_fd fe) c' s')"
proof -
  obtain i where ok: "session_ok i (fired_fd fe) c" using assms(3,4) by (auto simp: sessions_ok_def)
  from assms(1) show ?thesis
  proof (cases rule: handle_net_event_cases)
    case (request conn rs conn' t)
    have "undisturbed (fired_fd fe) t s'" using request(6) undisturbed_events(2) by simp
    from view_undisturbed [OF this, of conn'] request_refines [OF request(3), of i "fired_fd fe"] request(1,2,4) assms(3,5,6) ok
    show ?thesis by auto
  next
    case (reply conn ws conn' t)
    have "undisturbed (fired_fd fe) t s'" using reply(5) undisturbed_events(2) by simp
    from view_undisturbed [OF this, of conn'] reply_refines [OF reply(2), of i "fired_fd fe"] reply(1,3) assms(3,6) ok
    show ?thesis by auto
  qed (use assms(2,3,6) in auto)
qed

lemma net_other:
  assumes "handle_net_event k fe sv s = Some (Ret (ret, sv', s'))" and "fd \<noteq> fired_fd fe"
    and "sessions_ok interest (sv_ep sv) s"
  shows "undisturbed fd s s'"
  using assms(1)
proof (cases rule: handle_net_event_cases)
  case (handover conn uc uc' st)
  from transfers_plain(2) [OF handover(5)] show ?thesis by (rule undisturbed_plain) simp
next
  case (request conn rs conn' t)
  then have "conn_fd conn = fired_fd fe" using assms(3) by (auto simp: sessions_ok_def session_ok_def)
  with undisturbed_plain [OF GetRequest_plain [OF request(3)], of fd] assms(2) have "undisturbed fd s t" by simp
  with request(6) show ?thesis by (auto intro: undisturbed_trans undisturbed_events(2))
next
  case (reply conn ws conn' t)
  then have "conn_fd conn = fired_fd fe" using assms(3) by (auto simp: sessions_ok_def session_ok_def)
  with undisturbed_plain [OF SendReply_plain [OF reply(2)], of fd] assms(2) have "undisturbed fd s t" by simp
  with reply(5) show ?thesis by (auto intro: undisturbed_trans undisturbed_events(2))
qed simp_all

lemma accept_call:
  assumes "accept_inet k sv s = Some (Ret (sv', s'))"
  shows "\<exists>fd junk ip. 0 \<le> fd \<and> \<not> live fd (world s) \<and> live fd (world s')
    \<and> sv' = put_conn fd (new_InetConn junk fd ip) sv"
proof -
  obtain fd a t where t: "syscall (k_accept k (inet_listen_fd (sv_ep sv))) s = (Some (fd, a), t)"
    using assms(1) by (auto simp: accept_inet_def inet_server_accept_def Let_def split: prod.splits option.splits if_splits)
  let ?c = "new_InetConn (\<lambda>i. k_uninit k (unat READ_BUFFER_SIZE) (world t) ! i) fd (peer_name a)"
  from assms t have e: "0 \<le> fd" "sv' = put_conn fd ?c sv"
      "s' = snd (AddEvent k fd (EPOLLIN OR EPOLLET) (sv_ep sv') (snd (SetNonblock k ?c t)))"
    by (auto simp: accept_inet_def inet_server_accept_def Let_def split: if_splits)
  have "undisturbed fd t s'"
    unfolding e(3) by (rule undisturbed_trans [OF undisturbed_plain [OF SetNonblock_plain] undisturbed_events(1)]) simp
  moreover have "\<not> live fd (world s)" "live fd (world t)" using accept_fresh syscall_SomeD [OF t] by blast+
  ultimately show ?thesis using e(1,2) by (auto simp: undisturbed_def)
qed

lemma accept_other:
  assumes "accept_inet k sv s = Some (Ret (sv', s'))" and "live fd (world s)"
  shows "inet_conn_map (sv_ep sv') fd = inet_conn_map (sv_ep sv) fd \<and> undisturbed fd s s'
    \<and> inet_listen_fd (sv_ep sv') = inet_listen_fd (sv_ep sv)"
proof -
  obtain fd' a t where t: "syscall (k_accept k (inet_listen_fd (sv_ep sv))) s = (Some (fd', a), t)"
    using assms(1) by (auto simp: accept_inet_def inet_server_accept_def Let_def split: prod.splits option.splits if_splits)
  then have "fd' \<noteq> fd" using accept_fresh assms(2) syscall_SomeD [OF t] by blast
  moreover obtain junk ip where "sv' = put_conn fd' (new_InetConn junk fd' ip) sv"
    using assms(1) t by (auto simp: accept_inet_def inet_server_accept_def Let_def split: if_splits)
  moreover from assms(1) obtain fd'' ip'' junk'' s1 where p: "plain k {} s s1"
      "s' = snd (AddEvent k fd'' (EPOLLIN OR EPOLLET) (sv_ep sv) s1)"
    by (rule accept_inet_cases)
  have "undisturbed fd s s'"
    unfolding p(2) by (rule undisturbed_trans [OF undisturbed_plain [OF p(1)] undisturbed_events(1)]) simp
  ultimately show ?thesis by simp
qed

lemma trigger_other:
  assumes "trigger k path sv s = Some (Ret (sv', s'))" and "fd \<noteq> inet_listen_fd (sv_ep sv)" and "0 \<le> fd"
  shows "inet_conn_map (sv_ep sv') = inet_conn_map (sv_ep sv) \<and> undisturbed fd s s'
    \<and> fd \<noteq> inet_listen_fd (sv_ep sv')"
  using assms(1)
proof (cases rule: trigger_cases)
  case none
  from undisturbed_plain [OF none(2)] none(1) assms(2) show ?thesis by simp
next
  case (kept fd uc')
  from undisturbed_plain [OF kept(3)] kept(4) assms(2) show ?thesis by simp
next
  case (sent fd' uc' s1)
  have "undisturbed fd s1 s'"
    unfolding sent(5) detachInetListenFd_def Let_def snd_conv
    by (rule undisturbed_trans [OF undisturbed_events(3) undisturbed_close]) (rule assms(2))
  with undisturbed_plain [OF sent(3), of fd] undisturbed_trans sent(4) assms(3) show ?thesis by auto
qed

text \<open>
  The descriptors of the sessions and of the listener are in use and different; \<open>settled\<close>
  states this together with \<open>serving\<close>.
\<close>

definition distinct_live :: "Epoll \<Rightarrow> 'w proc \<Rightarrow> bool" where
  "distinct_live ep s \<longleftrightarrow> (inet_listen_fd ep = - 1 \<or> live (inet_listen_fd ep) (world s)) \<and>
     (\<forall>fd c. inet_conn_map ep fd = Some c \<longrightarrow> 0 \<le> fd \<and> fd \<noteq> inet_listen_fd ep \<and> live fd (world s))"

definition settled :: "nat list \<times> Server \<times> 'w proc \<Rightarrow> bool" where
  "settled cfg \<longleftrightarrow> serving interest cfg \<and> (case cfg of (ns, sv, s) \<Rightarrow> distinct_live (sv_ep sv) s)"

lemma undisturbed_live: "undisturbed fd s s' \<Longrightarrow> live fd (world s) \<Longrightarrow> live fd (world s')"
  by (simp add: undisturbed_def)

lemma distinct_live_frame:
  assumes "distinct_live ep s"
    and "inet_listen_fd ep' = - 1 \<or> inet_listen_fd ep' = inet_listen_fd ep \<and> undisturbed (inet_listen_fd ep) s s'"
    and "\<And>fd c. inet_conn_map ep' fd = Some c \<Longrightarrow> inet_conn_map ep fd \<noteq> None \<and> undisturbed fd s s'"
  shows "distinct_live ep' s'"
proof -
  have "0 \<le> fd \<and> fd \<noteq> inet_listen_fd ep' \<and> live fd (world s')" if "inet_conn_map ep' fd = Some c" for fd c
  proof -
    from assms(3) [OF that] obtain c0 where "inet_conn_map ep fd = Some c0" and u: "undisturbed fd s s'" by auto
    with assms(1) have "0 \<le> fd" "fd \<noteq> inet_listen_fd ep" "live fd (world s)" by (auto simp: distinct_live_def)
    with undisturbed_live [OF u] assms(2) show ?thesis by auto
  qed
  moreover have "inet_listen_fd ep' = - 1 \<or> live (inet_listen_fd ep') (world s')"
    using assms(1,2) undisturbed_live by (auto simp: distinct_live_def)
  ultimately show ?thesis by (auto simp: distinct_live_def)
qed

lemma distinct_live_dispatch:
  assumes "settled (n # ns, sv, s)" and "dispatch k (firedevent (sv_ep sv) ! n) sv s = Some (Ret (sv', s'))"
  shows "distinct_live (sv_ep sv') s'"
proof -
  let ?fe = "firedevent (sv_ep sv) ! n" and ?l = "inet_listen_fd (sv_ep sv)"
  from assms(1) have I: "unix_listen_fd (sv_ep sv) = - 1" "unix_conn_fd sv = - 1" "sessions_ok interest (sv_ep sv) s"
      "fired_ok (sv_ep sv) n" and D: "distinct_live (sv_ep sv) s" by (auto simp: serving_def settled_def)
  then have nn: "0 \<le> fired_fd ?fe"
      and rd: "mask ?fe AND EPOLLIN \<noteq> 0 \<longrightarrow> (\<forall>c. inet_conn_map (sv_ep sv) (fired_fd ?fe) = Some c \<longrightarrow> reply c = [])"
    by (simp_all add: fired_ok_def Let_def)
  from assms(2) show ?thesis
  proof (cases rule: dispatch_cases)
    case accept
    then have l: "live ?l (world s)" using D nn by (auto simp: distinct_live_def)
    from accept_call [OF accept(2)] obtain fd junk ip where A: "0 \<le> fd" "\<not> live fd (world s)" "live fd (world s')"
        "sv' = put_conn fd (new_InetConn junk fd ip) sv" by blast
    have "live fd' (world s')" if "live fd' (world s)" for fd'
      using accept_other [OF accept(2) that] undisturbed_live that by blast
    with A D l show ?thesis by (auto simp: distinct_live_def)
  next
    case (net ret sv1 s1)
    have f: "inet_listen_fd (sv_ep sv1) = ?l" using net(2) by (cases rule: handle_net_event_cases) simp_all
    note other = net_other [OF net(2) _ I(3)]
    show ?thesis
    proof (cases "ret = - 1")
      case True
      with net(3) have e: "(sv', s') = drop_conn k (fired_fd ?fe) sv1 s1" by simp
      then have "undisturbed fd s s'" if "fd \<noteq> fired_fd ?fe" for fd
        using undisturbed_trans [OF other [OF that] undisturbed_drop [OF that]] by (metis snd_conv)
      with e f net(1) net_frame(5) [OF net(2)] show ?thesis
        by (intro distinct_live_frame [OF D]) (auto simp: drop_conn_def split: if_splits)
    next
      case no: False
      with net(3) have e: "sv' = sv1" "s' = s1" by simp_all
      have own: "live (fired_fd ?fe) (world s1)" if "inet_conn_map (sv_ep sv) (fired_fd ?fe) = Some c" for c
        using net_own [OF net(2) no that I(3)] rd that D by (auto simp: distinct_live_def)
      have dom: "inet_conn_map (sv_ep sv) fd \<noteq> None" if "inet_conn_map (sv_ep sv1) fd = Some c" for fd c
        using net(2) by (cases rule: handle_net_event_cases) (use that in \<open>auto split: if_splits\<close>)
      show ?thesis
        unfolding distinct_live_def e f
      proof (intro conjI allI impI)
        show "?l = - 1 \<or> live ?l (world s1)"
          using D net(1) other [of ?l] undisturbed_live by (auto simp: distinct_live_def)
        fix fd c
        assume "inet_conn_map (sv_ep sv1) fd = Some c"
        then obtain c0 where c0: "inet_conn_map (sv_ep sv) fd = Some c0" using dom by blast
        with D show "0 \<le> fd" "fd \<noteq> ?l" by (auto simp: distinct_live_def)
        from c0 D own other [of fd] undisturbed_live show "live fd (world s1)"
          by (cases "fd = fired_fd ?fe") (auto simp: distinct_live_def)
      qed
    qed
  qed (use nn I in auto)
qed

lemma wait_other:
  assumes "wait_events k sv s = Some (Ret (ns, sv', s'))"
  shows "undisturbed fd s s' \<and> inet_conn_map (sv_ep sv') = inet_conn_map (sv_ep sv)
      \<and> inet_listen_fd (sv_ep sv') = inet_listen_fd (sv_ep sv)"
  using assms by (cases rule: wait_events_state) (auto intro: undisturbed_plain [of "{}"] plain_call1)

lemma settled_step:
  assumes "server_step k path cfg cfg'" and "settled cfg"
  shows "settled cfg'"
proof -
  have "serving interest cfg'" using assms serving_step by (auto simp: settled_def)
  moreover have "distinct_live (sv_ep (fst (snd cfg'))) (snd (snd cfg'))"
    using assms(1)
  proof (cases rule: server_step.cases)
    case (Wait sv s sv1 s1 ns sv2 s2)
    with assms(2) have D: "distinct_live (sv_ep sv) s" by (simp add: settled_def)
    have "distinct_live (sv_ep sv1) s1"
      using Wait(3)
    proof (cases rule: trigger_cases)
      case (sent fd' uc' t)
      have "undisturbed fd s s1" if "inet_conn_map (sv_ep sv) fd = Some c" for fd c
        using trigger_other [OF Wait(3), of fd] that D by (auto simp: distinct_live_def)
      then show ?thesis by (intro distinct_live_frame [OF D]) (auto simp: sent(4))
    qed (use D in \<open>auto intro!: distinct_live_frame [OF D] undisturbed_plain [of "{}"]\<close>)
    then have "distinct_live (sv_ep sv2) s2"
      by (rule distinct_live_frame) (use wait_other [OF Wait(4)] in auto)
    with Wait(2) show ?thesis by simp
  next
    case (Event sv n s sv' s' ns)
    with distinct_live_dispatch assms(2) show ?thesis by simp
  qed
  ultimately show ?thesis by (auto simp: settled_def split: prod.split)
qed

text \<open>
  The simulation: as long as the session stays in the table, a step of the server is a
  sequence of steps of the service.
\<close>

lemma dispatch_refines:
  assumes "serving interest (n # ns, sv, s)" and "dispatch k (firedevent (sv_ep sv) ! n) sv s = Some (Ret (sv', s'))"
    and "0 \<le> fd" and "fd \<noteq> inet_listen_fd (sv_ep sv)" and "live fd (world s)"
    and "inet_conn_map (sv_ep sv) fd = Some c" and "inet_conn_map (sv_ep sv') fd = Some c'"
  shows "echo_step\<^sup>*\<^sup>* (view incoming outgoing fd c s) (view incoming outgoing fd c' s') \<and> live fd (world s')
    \<and> inet_listen_fd (sv_ep sv') = inet_listen_fd (sv_ep sv)"
proof -
  let ?fe = "firedevent (sv_ep sv) ! n"
  from assms(1) have I: "unix_listen_fd (sv_ep sv) = - 1" "unix_conn_fd sv = - 1" "sessions_ok interest (sv_ep sv) s"
      "fired_ok (sv_ep sv) n" by (auto simp: serving_def)
  then have nn: "0 \<le> fired_fd ?fe"
      and rd: "mask ?fe AND EPOLLIN \<noteq> 0 \<longrightarrow> (\<forall>c. inet_conn_map (sv_ep sv) (fired_fd ?fe) = Some c \<longrightarrow> reply c = [])"
    by (simp_all add: fired_ok_def Let_def)
  from assms(2) show ?thesis
  proof (cases rule: dispatch_cases)
    case accept
    from accept_other [OF accept(2) assms(5)] view_undisturbed [of fd s s' c] assms(5-7) show ?thesis by auto
  next
    case (net ret sv1 s1)
    have l1: "inet_listen_fd (sv_ep sv1) = inet_listen_fd (sv_ep sv)"
      using net(2) by (cases rule: handle_net_event_cases) simp_all
    have l: "inet_listen_fd (sv_ep sv') = inet_listen_fd (sv_ep sv)"
      using net(3) l1 by (auto simp: drop_conn_def split: if_splits)
    show ?thesis
    proof (cases "fd = fired_fd ?fe")
      case True
      have r: "ret \<noteq> - 1" using net(3) assms(7) True by (auto simp: drop_conn_def)
      with net_own [OF net(2) r _ I(3), of c] net(3) True assms(5-7) rd l show ?thesis by auto
    next
      case False
      have "undisturbed fd s s'"
      proof (cases "ret = - 1")
        case True
        then show ?thesis
          using net(3) undisturbed_trans [OF net_other [OF net(2) False I(3)] undisturbed_drop [OF False]]
          by (metis snd_conv)
      next
        case no: False
        with net(3) net_other [OF net(2) False I(3)] show ?thesis by simp
      qed
      moreover have "c' = c"
        using net_frame(5) [OF net(2) False] net(3) assms(6,7) False by (auto simp: drop_conn_def split: if_splits)
      ultimately show ?thesis using view_undisturbed [of fd s s' c] assms(5) l by auto
    qed
  qed (use nn I in auto)
qed

lemma step_refines:
  assumes "server_step k path (ns, sv, s) (ns', sv', s')" and "settled (ns, sv, s)"
    and "inet_conn_map (sv_ep sv) fd = Some c" and "inet_conn_map (sv_ep sv') fd = Some c'"
  shows "echo_step\<^sup>*\<^sup>* (view incoming outgoing fd c s) (view incoming outgoing fd c' s')"
proof -
  from assms(2,3) have I: "serving interest (ns, sv, s)" "0 \<le> fd" "fd \<noteq> inet_listen_fd (sv_ep sv)" "live fd (world s)"
    by (auto simp: settled_def distinct_live_def)
  from assms(1) show ?thesis
  proof (cases rule: server_step.cases)
    case (Wait sv1 s1)
    note T = trigger_other [OF Wait(2) I(3,2)] and W = wait_other [OF Wait(3), of fd]
    then have "undisturbed fd s s'" by (blast intro: undisturbed_trans)
    with view_undisturbed [of fd s s' c] W T I(4) assms(3,4) show ?thesis by auto
  next
    case (Event n)
    with dispatch_refines [of n ns' sv s sv' s' fd c c'] I assms(3,4) show ?thesis by auto
  qed
qed

end

text \<open>Runs of the server in which a session stays in the table.\<close>

definition stays :: "'w kernel \<Rightarrow> string \<Rightarrow> int \<Rightarrow> nat list \<times> Server \<times> 'w proc
    \<Rightarrow> nat list \<times> Server \<times> 'w proc \<Rightarrow> bool" where
  "stays k path fd cfg cfg' \<longleftrightarrow> server_step k path cfg cfg' \<and> inet_conn_map (sv_ep (fst (snd cfg'))) fd \<noteq> None"

context session_kernel
begin

lemma main_init_settled:
  assumes "main_init k junk argv s0 = Some (Ret (path, sv, s))" and "path \<noteq> ''-u''"
  shows "settled ([], sv, s)"
proof -
  note M = main_init_state [OF assms(1)]
  obtain ep s1 where i: "startInetServer k 9221 ep s1 = (True, sv_ep sv, s)"
    using assms by (auto simp: main_init_def Let_def split: list.splits prod.splits if_splits)
  obtain l s2 where l: "inet_server_listen k 9221 s1 = (l, s2)" by fastforce
  have sv: "sv_ep sv = ep\<lparr>inet_listen_fd := l\<rparr>" and l1: "l \<noteq> - 1"
    and s: "s = snd (AddEvent k l EPOLLIN (ep\<lparr>inet_listen_fd := l\<rparr>) s2)"
    using i l by (auto simp: startInetServer_def Let_def split: if_splits)
  note e = sv [THEN arg_cong [of _ _ inet_listen_fd], simplified] s l1
  from l e(3) obtain t where t: "syscall (k_socket k AF_INET) s1 = (Some l, t)" and p: "plain k {} t s2"
    by (auto simp: inet_server_listen_def split: prod.splits option.splits dest!: plain_call1 [where A = "{}"] intro: plain_trans)
  have "live l (world t)" using socket_live syscall_SomeD [OF t] by blast
  moreover have "undisturbed l t s"
    unfolding e(2) by (rule undisturbed_trans [OF undisturbed_plain [OF p] undisturbed_events(1)]) simp
  ultimately have "live l (world s)" by (blast intro: undisturbed_live)
  with M assms(2) e(1) show ?thesis
    by (auto simp: settled_def distinct_live_def serving_def sessions_ok_def)
qed

lemma reachable_settled: "reachable k junk argv s0 path cfg \<Longrightarrow> path \<noteq> ''-u'' \<Longrightarrow> settled cfg"
  by (induction rule: reachable.induct) (blast intro: main_init_settled settled_step)+

lemma settled_listen:
  "settled (ns, sv, s) \<Longrightarrow> inet_conn_map (sv_ep sv) fd = Some c \<Longrightarrow> fd \<noteq> inet_listen_fd (sv_ep sv)"
  by (auto simp: settled_def distinct_live_def)

lemma run_refines:
  assumes "(stays k path fd)\<^sup>*\<^sup>* (ns, sv, s) (ns', sv', s')" and "settled (ns, sv, s)"
    and "inet_conn_map (sv_ep sv) fd = Some c" and "inet_conn_map (sv_ep sv') fd = Some c'"
  shows "settled (ns', sv', s') \<and> echo_step\<^sup>*\<^sup>* (view incoming outgoing fd c s) (view incoming outgoing fd c' s')"
  using assms(1,4)
proof (induction "(ns', sv', s')" arbitrary: ns' sv' s' c' rule: rtranclp_induct)
  case base
  with assms(2,3) show ?case by simp
next
  case (step cfg)
  obtain ns1 sv1 s1 where cfg: "cfg = (ns1, sv1, s1)" by (cases cfg)
  have "inet_conn_map (sv_ep sv1) fd \<noteq> None"
    using step(1) unfolding cfg by (cases rule: rtranclp.cases) (use assms(3) in \<open>auto simp: stays_def\<close>)
  then obtain c1 where c1: "inet_conn_map (sv_ep sv1) fd = Some c1" by blast
  note IH = step(3) [OF cfg c1] and st = step(2) [unfolded cfg stays_def]
  from IH st settled_step step_refines [of path ns1 sv1 s1 ns' sv' s' fd c1 c'] c1 step(4) show ?case
    by (auto intro: rtranclp_trans)
qed

end

section \<open>A session whose events are reported\<close>

text \<open>
  As long as a session is ready, the kernel reports for it the events it is registered for.
  \<open>drive\<close> dispatches a number of such events.
\<close>

definition own_event :: "(int \<Rightarrow> int \<Rightarrow> 'w \<Rightarrow> u32 option) \<Rightarrow> int \<Rightarrow> Server \<Rightarrow> 'w proc \<Rightarrow> FiredEvent" where
  "own_event reg fd sv s = fire (case reg (epfd (sv_ep sv)) fd (world s) of None \<Rightarrow> 0 | Some m \<Rightarrow> m, fd)"

primrec drive :: "nat \<Rightarrow> (int \<Rightarrow> int \<Rightarrow> 'w \<Rightarrow> u32 option) \<Rightarrow> 'w kernel \<Rightarrow> int \<Rightarrow> Server \<Rightarrow> 'w proc
    \<Rightarrow> (Server \<times> 'w proc) run" where
  "drive 0 reg k fd sv s = Some (Ret (sv, s))"
| "drive (Suc n) reg k fd sv s =
     run_bind (dispatch k (own_event reg fd sv s) sv s) (\<lambda>(sv', s'). drive n reg k fd sv' s')"

lemma drive_add:
  "drive m reg k fd sv s = Some (Ret (sv1, s1)) \<Longrightarrow> drive (m + n) reg k fd sv s = drive n reg k fd sv1 s1"
proof (induction m arbitrary: sv s)
  case (Suc m)
  then obtain sv2 s2 where "dispatch k (own_event reg fd sv s) sv s = Some (Ret (sv2, s2))"
      "drive m reg k fd sv2 s2 = Some (Ret (sv1, s1))" by auto
  with Suc.IH show ?case by simp
qed simp

text \<open>A session descriptor that no other branch of the dispatcher claims, and no successor.\<close>

definition plain_session :: "int \<Rightarrow> Server \<Rightarrow> bool" where
  "plain_session fd sv \<longleftrightarrow> fd \<notin> {inet_listen_fd (sv_ep sv), unix_listen_fd (sv_ep sv), unix_conn_fd sv}
     \<and> unix_client sv = None"

definition ready_to_read :: "u32 option \<Rightarrow> bool" where
  "ready_to_read i \<longleftrightarrow> i = Some EPOLLIN \<or> i = Some (EPOLLIN OR EPOLLET)"

lemma plain_session_put [simp]: "plain_session fd (put_conn fd' c sv) = plain_session fd sv"
  by (simp add: plain_session_def)

lemma fire_registered:
  "mask (fire (EPOLLIN, fd)) AND EPOLLIN \<noteq> 0" "mask (fire (EPOLLIN, fd)) AND EPOLLERR = 0"
  "mask (fire (EPOLLIN, fd)) AND EPOLLHUP = 0"
  "mask (fire (EPOLLIN OR EPOLLET, fd)) AND EPOLLIN \<noteq> 0" "mask (fire (EPOLLIN OR EPOLLET, fd)) AND EPOLLERR = 0"
  "mask (fire (EPOLLIN OR EPOLLET, fd)) AND EPOLLHUP = 0"
  "mask (fire (EPOLLOUT, fd)) AND EPOLLIN = 0" "mask (fire (EPOLLOUT, fd)) AND EPOLLOUT \<noteq> 0"
  "mask (fire (EPOLLOUT, fd)) AND EPOLLERR = 0" "mask (fire (EPOLLOUT, fd)) AND EPOLLHUP = 0"
  by (simp_all add: fire_def Let_def epoll_masks)

lemma own_event_fd [simp]: "fired_fd (own_event reg fd sv s) = fd"
  by (simp add: own_event_def)

text \<open>What one such event does.\<close>

lemma dispatch_own_in:
  assumes "plain_session fd sv" and "inet_conn_map (sv_ep sv) fd = Some c"
    and "ready_to_read (reg (epfd (sv_ep sv)) fd (world s))" and "GetRequest k c s = Ret (rs, c', t)"
    and "rs = kReadAll \<or> rs = kReadHalf"
  shows "dispatch k (own_event reg fd sv s) sv s = Some (Ret (put_conn fd c' sv,
    if rs = kReadAll then snd (ModEvent k fd EPOLLOUT (sv_ep (put_conn fd c' sv)) t) else t))"
proof -
  have m: "mask (own_event reg fd sv s) AND EPOLLIN \<noteq> 0" "mask (own_event reg fd sv s) AND EPOLLERR = 0"
      "mask (own_event reg fd sv s) AND EPOLLHUP = 0"
    using assms(3) fire_registered by (auto simp: ready_to_read_def own_event_def)
  then have "handle_net_event k (own_event reg fd sv s) sv s = Some (Ret (0, put_conn fd c' sv,
      if rs = kReadAll then snd (ModEvent k fd EPOLLOUT (sv_ep (put_conn fd c' sv)) t) else t))"
    using assms by (auto simp: handle_net_event_def plain_session_def Let_def)
  with assms(1) show ?thesis by (auto simp: dispatch_def plain_session_def)
qed

lemma dispatch_own_out:
  assumes "plain_session fd sv" and "inet_conn_map (sv_ep sv) fd = Some c"
    and "reg (epfd (sv_ep sv)) fd (world s) = Some EPOLLOUT" and "SendReply k c s = (ws, c', t)"
    and "ws \<noteq> kWriteError"
  shows "dispatch k (own_event reg fd sv s) sv s = Some (Ret (put_conn fd c' sv,
    if ws = kWriteAll then snd (ModEvent k fd EPOLLIN (sv_ep (put_conn fd c' sv)) t) else t))"
proof -
  have "handle_net_event k (own_event reg fd sv s) sv s = Some (Ret (0, put_conn fd c' sv,
      if ws = kWriteAll then snd (ModEvent k fd EPOLLIN (sv_ep (put_conn fd c' sv)) t) else t))"
    using assms(2-5) fire_registered [of fd]
    by (cases ws) (simp_all add: handle_net_event_def own_event_def Let_def)
  with assms(1) show ?thesis by (auto simp: dispatch_def plain_session_def)
qed

locale calm_session = session_kernel k incoming outgoing patience interest live
    + calm_stream k incoming outgoing patience calm
  for k :: "'w kernel" and incoming outgoing :: "int \<Rightarrow> 'w \<Rightarrow> byte list"
    and patience :: "'w \<Rightarrow> nat" and interest :: "int \<Rightarrow> int \<Rightarrow> 'w \<Rightarrow> u32 option"
    and live :: "int \<Rightarrow> 'w \<Rightarrow> bool" and calm :: "'w \<Rightarrow> bool" +
  assumes calm_ctl: "k_epoll_ctl k e c fd m w = (r_ctl, w') \<Longrightarrow> calm w \<Longrightarrow> calm w'"
begin

text \<open>Changing the registration of a registered session.\<close>

lemma ModEvent_own:
  assumes "interest (epfd ep) fd (world s) \<noteq> None" and "calm (world s)" and "live fd (world s)"
    and "s' = snd (ModEvent k fd m ep s)"
  shows "interest (epfd ep) fd (world s') = Some m" and "calm (world s')" and "undisturbed fd s s'"
proof -
  obtain r where c: "syscall (k_epoll_ctl k (epfd ep) EPOLL_CTL_MOD fd m) s = (r, s')"
    using assms(4) by (simp add: ModEvent_def) (metis surjective_pairing)
  show "interest (epfd ep) fd (world s') = Some m" using sys_ctl [OF c, of fd] assms(1) by auto
  show "calm (world s')" using c by (rule syscall_keeps) (use calm_ctl assms(2) in blast)
  show "undisturbed fd s s'" by (rule undisturbed_ctl [OF c])
qed

abbreviation (input) session :: "int \<Rightarrow> InetConn \<Rightarrow> Server \<Rightarrow> 'w proc \<Rightarrow> bool" where
  "session fd c sv s \<equiv> plain_session fd sv \<and> inet_conn_map (sv_ep sv) fd = Some c \<and> conn_fd c = fd
     \<and> conn_inv c \<and> reply_inv c \<and> live fd (world s) \<and> calm (world s)"

text \<open>Receiving: after some events the request is the reply, and writing is awaited.\<close>

lemma drive_request:
  assumes "session fd c sv s" and "reply c = []" and "ready_to_read (interest (epfd (sv_ep sv)) fd (world s))"
    and "received c @ incoming fd (world s) = frame m @ rest" and "acceptable m"
  shows "\<exists>n sv' s' c'. drive n interest k fd sv s = Some (Ret (sv', s')) \<and> session fd c' sv' s'
    \<and> reply c' = m \<and> last_write_pos c' = 0 \<and> last_read_pos c' = 0
    \<and> interest (epfd (sv_ep sv')) fd (world s') = Some EPOLLOUT
    \<and> incoming fd (world s') = rest \<and> outgoing fd (world s') = outgoing fd (world s)"
  using assms
proof (induction "patience (world s) + length (incoming fd (world s))" arbitrary: c sv s rule: less_induct)
  case less
  note S = less.prems(1) and rd = less.prems(3)
  have m: "m \<noteq> []" "length m + 4 \<le> 1048576" using assms(5) by (simp_all add: acceptable_def)
  have str: "received c @ incoming (conn_fd c) (world s) = frame m @ rest" using S less.prems(4) by simp
  have "\<not> wraps (received c @ incoming (conn_fd c) (world s))"
    using frame_len_sint [OF m(2)] str by (simp add: wraps_def)
  with S obtain rs c' t where g: "GetRequest k c s = Ret (rs, c', t)"
    using GetRequest_no_fault [of c s] by (metis prod_cases3)
  have C: "rs \<in> {kReadHalf, kReadAll}" "calm (world t)"
    using GetRequest_calm [OF g _ _ str m] S by auto
  have K: "live fd (world t) \<and> interest (epfd (sv_ep sv)) fd (world t) = interest (epfd (sv_ep sv)) fd (world s)
      \<and> outgoing fd (world t) = outgoing fd (world s)"
    by (rule GetRequest_reads [OF g]) (use S read_live read_frame in auto)
  have D: "dispatch k (own_event interest fd sv s) sv s = Some (Ret (put_conn fd c' sv,
      if rs = kReadAll then snd (ModEvent k fd EPOLLOUT (sv_ep (put_conn fd c' sv)) t) else t))"
    by (rule dispatch_own_in [of fd sv c interest]) (use S rd g C(1) in auto)
  show ?case
  proof (cases "rs = kReadAll")
    case True
    let ?sv = "put_conn fd c' sv" and ?s = "snd (ModEvent k fd EPOLLOUT (sv_ep (put_conn fd c' sv)) t)"
    note A = GetRequest_all [OF g [unfolded True], of]
    have a: "reply c' = m \<and> incoming fd (world t) = rest"
      using frame_inject [of "reply c'" _ m rest] A str S m by auto
    have w0: "last_write_pos c' = 0" using A(4) S less.prems(2) by (auto simp: reply_inv_def)
    have "interest (epfd (sv_ep ?sv)) fd (world t) \<noteq> None"
      using K rd by (auto simp: ready_to_read_def)
    note M = ModEvent_own [OF this C(2) _ refl, of EPOLLOUT]
    have "drive 1 interest k fd sv s = Some (Ret (?sv, ?s))" using D True by simp
    moreover have "session fd c' ?sv ?s"
      using S A w0 a m M K undisturbed_live [OF M(3)] by (auto simp: conn_inv_def reply_inv_def)
    ultimately show ?thesis
      using a w0 A(2) S M K by (intro exI [of _ 1] exI [of _ ?sv] exI [of _ ?s] exI [of _ c']) (auto simp: undisturbed_def)
  next
    case False
    with C(1) have half: "rs = kReadHalf" by simp
    let ?sv = "put_conn fd c' sv"
    note G = GetRequest_keeps [OF g _ False]
    have d: "dispatch k (own_event interest fd sv s) sv s = Some (Ret (?sv, t))" using D half by simp
    have "patience (world t) + length (incoming fd (world t)) < patience (world s) + length (incoming fd (world s))"
      using G(3) [OF _ half] G(1) S by auto
    moreover have "session fd c' ?sv t"
      using G S K C(2) by (auto simp: reply_inv_def)
    moreover have "reply c' = []" "received c' @ incoming fd (world t) = frame m @ rest"
      using G(1) S less.prems(2) str by auto
    moreover have "ready_to_read (interest (epfd (sv_ep ?sv)) fd (world t))" using rd K by simp
    ultimately obtain n sv' s' c'' where IH: "drive n interest k fd ?sv t = Some (Ret (sv', s'))"
        "session fd c'' sv' s'" "reply c'' = m" "last_write_pos c'' = 0" "last_read_pos c'' = 0"
        "interest (epfd (sv_ep sv')) fd (world s') = Some EPOLLOUT"
        "incoming fd (world s') = rest" "outgoing fd (world s') = outgoing fd (world t)"
      using less.hyps [of t ?sv c'] assms(5) by auto
    have "drive (Suc n) interest k fd sv s = Some (Ret (sv', s'))" using d IH(1) by simp
    with IH(2-) K show ?thesis by (intro exI [of _ "Suc n"] exI [of _ sv'] exI [of _ s'] exI [of _ c'']) simp
  qed
qed

text \<open>Replying: after some events the reply is sent, and reading is awaited again.\<close>

lemma drive_reply:
  assumes "session fd c sv s" and "last_read_pos c = 0" and "interest (epfd (sv_ep sv)) fd (world s) = Some EPOLLOUT"
  shows "\<exists>n sv' s' c'. drive n interest k fd sv s = Some (Ret (sv', s')) \<and> session fd c' sv' s'
    \<and> reply c' = [] \<and> last_read_pos c' = 0
    \<and> interest (epfd (sv_ep sv')) fd (world s') = Some EPOLLIN
    \<and> incoming fd (world s') = incoming fd (world s)
    \<and> outgoing fd (world s') = outgoing fd (world s) @ unsent c"
  using assms
proof (induction "patience (world s) + length (unsent c)" arbitrary: c sv s rule: less_induct)
  case less
  note S = less.prems(1) and wr = less.prems(3)
  obtain ws c' t where g: "SendReply k c s = (ws, c', t)" by (metis prod_cases3)
  have C: "calm (world t)" "ws \<noteq> kWriteError" using SendReply_calm [OF g] S by auto
  note W = SendReply_keeps [OF g conjunct1 [OF conjunct2 [OF conjunct2 [OF conjunct2 [OF conjunct2 [OF S]]]]]]
  have K: "live fd (world t) \<and> interest (epfd (sv_ep sv)) fd (world t) = interest (epfd (sv_ep sv)) fd (world s)
      \<and> incoming fd (world t) = incoming fd (world s)"
    by (rule SendReply_writes [OF g]) (use S write_live write_frame in auto)
  have D: "dispatch k (own_event interest fd sv s) sv s = Some (Ret (put_conn fd c' sv,
      if ws = kWriteAll then snd (ModEvent k fd EPOLLIN (sv_ep (put_conn fd c' sv)) t) else t))"
    by (rule dispatch_own_out [of fd sv c interest]) (use S wr g C(2) in auto)
  have ci: "conn_inv c'" using SendReply_conn_inv [OF g] S by simp
  show ?case
  proof (cases "ws = kWriteAll")
    case True
    let ?sv = "put_conn fd c' sv" and ?s = "snd (ModEvent k fd EPOLLIN (sv_ep (put_conn fd c' sv)) t)"
    have "interest (epfd (sv_ep ?sv)) fd (world t) \<noteq> None" using K wr by auto
    note M = ModEvent_own [OF this C(1) _ refl, of EPOLLIN]
    have "drive 1 interest k fd sv s = Some (Ret (?sv, ?s))" using D True by simp
    moreover have "session fd c' ?sv ?s"
      using S W ci M K undisturbed_live [OF M(3)] by auto
    moreover have "outgoing fd (world t) = outgoing fd (world s) @ unsent c"
      using W(1) W(5) [OF True] S by (simp add: unsent_def)
    ultimately show ?thesis
      using W(4) W(5) [OF True] less.prems(2) S M K
      by (intro exI [of _ 1] exI [of _ ?sv] exI [of _ ?s] exI [of _ c']) (auto simp: undisturbed_def)
  next
    case False
    with C(2) have half: "ws = kWriteHalf" by (cases ws) auto
    let ?sv = "put_conn fd c' sv"
    have d: "dispatch k (own_event interest fd sv s) sv s = Some (Ret (?sv, t))" using D half by simp
    have "session fd c' ?sv t" using S W ci K C(1) by auto
    moreover have "last_read_pos c' = 0" "interest (epfd (sv_ep ?sv)) fd (world t) = Some EPOLLOUT"
      using W(4) less.prems(2) wr K by simp_all
    ultimately obtain n sv' s' c'' where IH: "drive n interest k fd ?sv t = Some (Ret (sv', s'))"
        "session fd c'' sv' s'" "reply c'' = []" "last_read_pos c'' = 0"
        "interest (epfd (sv_ep sv')) fd (world s') = Some EPOLLIN"
        "incoming fd (world s') = incoming fd (world t)"
        "outgoing fd (world s') = outgoing fd (world t) @ unsent c'"
      using less.hyps [OF W(6) [OF half]] by blast
    have "drive (Suc n) interest k fd sv s = Some (Ret (sv', s'))" using d IH(1) by simp
    moreover have "outgoing fd (world t) @ unsent c' = outgoing fd (world s) @ unsent c" using W(1) S by simp
    ultimately show ?thesis
      using IH(2-) K by (intro exI [of _ "Suc n"] exI [of _ sv'] exI [of _ s'] exI [of _ c'']) simp
  qed
qed

text \<open>One request after the other.\<close>

lemma drive_serves:
  assumes "session fd c sv s" and "reply c = []" and "ready_to_read (interest (epfd (sv_ep sv)) fd (world s))"
    and "received c @ incoming fd (world s) = concat (map frame ms) @ rest" and "\<forall>m \<in> set ms. acceptable m"
  shows "\<exists>n sv' s' c'. drive n interest k fd sv s = Some (Ret (sv', s')) \<and> session fd c' sv' s'
    \<and> reply c' = [] \<and> ready_to_read (interest (epfd (sv_ep sv')) fd (world s'))
    \<and> received c' @ incoming fd (world s') = rest
    \<and> outgoing fd (world s') = outgoing fd (world s) @ concat ms"
  using assms
proof (induction ms arbitrary: c sv s)
  case Nil
  then show ?case by (intro exI [of _ 0] exI [of _ sv] exI [of _ s] exI [of _ c]) simp
next
  case (Cons m ms)
  from drive_request [OF Cons.prems(1-3), of m "concat (map frame ms) @ rest"] Cons.prems(4,5)
  obtain n1 sv1 s1 c1 where 1: "drive n1 interest k fd sv s = Some (Ret (sv1, s1))" "session fd c1 sv1 s1"
      "reply c1 = m" "last_write_pos c1 = 0" "last_read_pos c1 = 0"
      "interest (epfd (sv_ep sv1)) fd (world s1) = Some EPOLLOUT"
      "incoming fd (world s1) = concat (map frame ms) @ rest" "outgoing fd (world s1) = outgoing fd (world s)"
    by auto
  from drive_reply [OF 1(2,5,6)]
  obtain n2 sv2 s2 c2 where 2: "drive n2 interest k fd sv1 s1 = Some (Ret (sv2, s2))" "session fd c2 sv2 s2"
      "reply c2 = []" "last_read_pos c2 = 0" "interest (epfd (sv_ep sv2)) fd (world s2) = Some EPOLLIN"
      "incoming fd (world s2) = incoming fd (world s1)" "outgoing fd (world s2) = outgoing fd (world s1) @ unsent c1"
    by blast
  have "ready_to_read (interest (epfd (sv_ep sv2)) fd (world s2))" using 2(5) by (simp add: ready_to_read_def)
  moreover have "received c2 = []" using 2(4) by (simp add: received_def)
  ultimately obtain n3 sv3 s3 c3 where 3: "drive n3 interest k fd sv2 s2 = Some (Ret (sv3, s3))" "session fd c3 sv3 s3"
      "reply c3 = []" "ready_to_read (interest (epfd (sv_ep sv3)) fd (world s3))"
      "received c3 @ incoming fd (world s3) = rest" "outgoing fd (world s3) = outgoing fd (world s2) @ concat ms"
    using Cons.IH [OF 2(2,3)] 1(7) 2(6) Cons.prems(5) by auto
  have "drive (n1 + (n2 + n3)) interest k fd sv s = Some (Ret (sv3, s3))"
    using 1(1) 2(1) 3(1) by (simp add: drive_add)
  moreover have "unsent c1 = m" using 1(3,4) by (simp add: unsent_def)
  ultimately show ?case
    using 1(8) 2(7) 3(2-) by (intro exI [of _ "n1 + (n2 + n3)"] exI [of _ sv3] exI [of _ s3] exI [of _ c3]) simp
qed

lemma reachable_session:
  assumes "reachable k junk argv s0 path (ns, sv, s)" and "path \<noteq> ''-u''" and "unix_client sv = None"
    and "calm (world s)" and "inet_conn_map (sv_ep sv) fd = Some c"
  shows "session fd c sv s"
proof -
  from reachable_settled [OF assms(1,2)] have S: "serving interest (ns, sv, s)" "distinct_live (sv_ep sv) s"
    by (auto simp: settled_def)
  then have "conn_fd c = fd" "conn_inv c" "reply_inv c"
    using assms(5) by (auto simp: serving_def sessions_ok_def session_ok_def)
  with S assms(3-5) show ?thesis by (auto simp: plain_session_def serving_def distinct_live_def)
qed

end

section \<open>A run for the witnesses\<close>

interpretation sim_session: calm_session sim_fd_kernel sim_incoming sim_outgoing sim_patience sim_interest
  "\<lambda>fd w. fd \<in> sim_opened w" sim_calm
proof
  show "fd \<in> sim_opened w' \<and> sim_incoming fd w' = sim_incoming fd w \<and> sim_outgoing fd w' = sim_outgoing fd w
      \<and> sim_interest e fd w' = sim_interest e fd w"
    if "plain_call sim_fd_kernel A w w'" "fd \<notin> A" "fd \<in> sim_opened w" for A w w' fd e
    using sim_fd_plain [OF that(1)] that(2,3) by (simp add: sim_obs sim_interest_def)
  show "fd \<in> sim_opened w' \<and> sim_interest e fd w' = sim_interest e fd w"
    if "k_read sim_fd_kernel fd n w = (r, w')" "fd \<in> sim_opened w" for fd n w r w' e
    using that by (auto simp: sim_fd_fields sim_read_def grant_def sim_interest_def sim_opened_def
        split: list.splits sched.splits)
  show "fd \<in> sim_opened w' \<and> sim_interest e fd w' = sim_interest e fd w"
    if "k_write sim_fd_kernel fd bs w = (r, w')" "fd \<in> sim_opened w" for fd bs w r w' e
    using that by (auto simp: sim_fd_fields sim_write_def grant_def sim_interest_def sim_opened_def
        split: list.splits sched.splits)
qed (auto simp: sim_fd_fields sim_obs sim_opened_def sim_calm_def take_fd_def split: list.splits if_splits)

text \<open>
  A server is started, a client connects (descriptor 7) and has sent some bytes, in
  \<open>echo_proc\<close> two requests.
\<close>

definition ready_proc :: "byte list \<Rightarrow> sim proc" where
  "ready_proc bs = \<lparr>errno = EINTR, world = quiet\<lparr>ready := [[(EPOLLIN, 4)], [(EPOLLIN, 7)]],
     backlog := [(7, SockIn 0 0)], inq := (\<lambda>_. bs), schedule := [Chunk 1, Again]\<rparr>\<rparr>"

definition echo_proc :: "sim proc" where
  "echo_proc = ready_proc (frame [104, 105] @ frame [106])"

lemma sim_fd_trigger: "path \<noteq> UNIX_CLIENT_TRIGGER \<Longrightarrow> \<exists>s'. trigger sim_fd_kernel path sv s = Some (Ret (sv, s')) \<and> world s' = world s"
  by (auto simp: trigger_def FileExists_def syscall_def sim_fd_fields Let_def split: prod.splits sysres.splits)

lemma sim_fd_wait:
  assumes "ready (world s) = [(EPOLLIN, fd)] # r" and "map_of (registered (world s)) fd = Some i" and "bit i 0"
    and "0 \<le> fd"
  shows "\<exists>s'. wait_events sim_fd_kernel sv s = Some (Ret ([0],
      sv\<lparr>sv_ep := (sv_ep sv)\<lparr>firedevent := fire (EPOLLIN, fd) # drop 1 (firedevent (sv_ep sv))\<rparr>\<rparr>, s'))
    \<and> world s' = (world s)\<lparr>ready := r\<rparr>"
  using assms by (simp add: wait_events_def Poll_def syscall_def MAX_EVENTS_def sim_fd_fields)

lemma ready_demo:
  obtains sv s junk where
    "reachable sim_fd_kernel [] [''x''] (ready_proc bs) ''x'' ([], sv, s)"
    "inet_conn_map (sv_ep sv) 7 = Some (new_InetConn junk 7 (peer_name (SockIn 0 0)))" "unix_client sv = None"
    "world s = (world (ready_proc bs))\<lparr>ready := [[(EPOLLIN, 7)]], backlog := [], next_fd := 5, open_fds := [7, 4],
        registered := [(7, EPOLLIN OR EPOLLET), (4, EPOLLIN)]\<rparr>"
    "inet_listen_fd (sv_ep sv) = 4" "unix_listen_fd (sv_ep sv) = - 1" "unix_conn_fd sv = - 1" "epfd (sv_ep sv) = 3"
proof -
  let ?p = "ready_proc bs"
  let ?ep = "\<lparr>epfd = 3, inet_listen_fd = 4, unix_listen_fd = - 1, ep_unix_conn_fd = - 1,
       ep_unix_client_fd = - 1, inet_conn_map = Map.empty, firedevent = []\<rparr>"
  let ?sv = "\<lparr>unix_conn = None, unix_client = None, sv_ep = ?ep, unix_conn_fd = - 1, unix_client_fd = - 1, unix_socket_init = False\<rparr>"
  let ?s = "?p\<lparr>world := (world ?p)\<lparr>next_fd := 5, open_fds := [4], registered := [(4, EPOLLIN)]\<rparr>\<rparr>"
  have x: "''x'' \<noteq> UNIX_CLIENT_TRIGGER" by (simp add: UNIX_CLIENT_TRIGGER_def)
  have i: "main_init sim_fd_kernel [] [''x''] ?p = Some (Ret (''x'', ?sv, ?s))"
    by (simp add: main_init_def InitSignal_def getInstance_def new_Epoll_def startInetServer_def
      inet_server_listen_def AddEvent_def ready_proc_def syscall_def quiet_def Let_def sim_fd_fields take_fd_def)
  obtain t0 where t0: "trigger sim_fd_kernel ''x'' ?sv ?s = Some (Ret (?sv, t0))" "world t0 = world ?s"
    using sim_fd_trigger [OF x, of ?sv ?s] by blast
  let ?sv1 = "?sv\<lparr>sv_ep := ?ep\<lparr>firedevent := [fire (EPOLLIN, 4)]\<rparr>\<rparr>"
  obtain s1 where w1: "wait_events sim_fd_kernel ?sv t0 = Some (Ret ([0], ?sv1, s1))"
      "world s1 = (world ?s)\<lparr>ready := [[(EPOLLIN, 7)]]\<rparr>"
    using sim_fd_wait [of t0 4 "[[(EPOLLIN, 7)]]" EPOLLIN ?sv] t0(2) by (auto simp: ready_proc_def EPOLLIN_bit)
  have r1: "reachable sim_fd_kernel [] [''x''] ?p ''x'' ([0], ?sv1, s1)"
    by (rule reachable.Step [OF reachable.Start [OF i] server_step.Wait [OF t0(1) w1(1)]])
  define junk where "junk = (\<lambda>i. sim_uninit (unat READ_BUFFER_SIZE) (world s1) ! i)"
  let ?sv2 = "put_conn 7 (new_InetConn junk 7 (peer_name (SockIn 0 0))) ?sv1"
  obtain s2 where d1: "dispatch sim_fd_kernel (firedevent (sv_ep ?sv1) ! 0) ?sv1 s1 = Some (Ret (?sv2, s2))"
      and w2: "world s2 = (world ?p)\<lparr>ready := [[(EPOLLIN, 7)]], backlog := [], next_fd := 5, open_fds := [7, 4],
        registered := [(7, EPOLLIN OR EPOLLET), (4, EPOLLIN)]\<rparr>"
    using w1(2) by (auto simp: dispatch_def accept_inet_def inet_server_accept_def SetNonblock_def AddEvent_def
      syscall_def Let_def sim_fd_fields take_fd_def ready_proc_def quiet_def junk_def sim_uninit_def)
  have "reachable sim_fd_kernel [] [''x''] ?p ''x'' ([], ?sv2, s2)" by (rule reachable.Step [OF r1 server_step.Event [OF d1]])
  then show ?thesis by (rule that [where junk = junk]) (simp_all add: w2)
qed

lemma echo_demo:
  obtains sv s c ns sv' s' c' where
    "reachable sim_fd_kernel [] [''x''] echo_proc ''x'' ([], sv, s)"
    "inet_conn_map (sv_ep sv) 7 = Some c" "received c = []" "reply c = []" "unix_client sv = None"
    "world s = (world echo_proc)\<lparr>ready := [[(EPOLLIN, 7)]], backlog := [], next_fd := 5, open_fds := [7, 4],
        registered := [(7, EPOLLIN OR EPOLLET), (4, EPOLLIN)]\<rparr>"
    "(stays sim_fd_kernel ''x'' 7)\<^sup>*\<^sup>* ([], sv, s) (ns, sv', s')" "inet_conn_map (sv_ep sv') 7 = Some c'"
    "sim_incoming 7 (world s') \<noteq> sim_incoming 7 (world s)"
proof -
  obtain sv s junk where r: "reachable sim_fd_kernel [] [''x''] echo_proc ''x'' ([], sv, s)"
    "inet_conn_map (sv_ep sv) 7 = Some (new_InetConn junk 7 (peer_name (SockIn 0 0)))" "unix_client sv = None"
    and w: "world s = (world echo_proc)\<lparr>ready := [[(EPOLLIN, 7)]], backlog := [], next_fd := 5, open_fds := [7, 4],
        registered := [(7, EPOLLIN OR EPOLLET), (4, EPOLLIN)]\<rparr>"
    and f: "inet_listen_fd (sv_ep sv) = 4" "unix_listen_fd (sv_ep sv) = - 1" "unix_conn_fd sv = - 1"
    unfolding echo_proc_def by (rule ready_demo)
  let ?c = "new_InetConn junk 7 (peer_name (SockIn 0 0))"
  have x: "''x'' \<noteq> UNIX_CLIENT_TRIGGER" by (simp add: UNIX_CLIENT_TRIGGER_def)
  obtain t where t: "trigger sim_fd_kernel ''x'' sv s = Some (Ret (sv, t))" "world t = world s"
    using sim_fd_trigger [OF x, of sv s] by blast
  have b: "bit (EPOLLIN OR EPOLLET) 0" by (simp add: bit_or_iff EPOLLIN_bit)
  let ?sv3 = "sv\<lparr>sv_ep := (sv_ep sv)\<lparr>firedevent := fire (EPOLLIN, 7) # drop 1 (firedevent (sv_ep sv))\<rparr>\<rparr>"
  obtain s3 where w3: "wait_events sim_fd_kernel sv t = Some (Ret ([0], ?sv3, s3))" "world s3 = (world s)\<lparr>ready := []\<rparr>"
    using sim_fd_wait [of t 7 "[]" "EPOLLIN OR EPOLLET" sv] t(2) w b by auto
  have s3: "server_step sim_fd_kernel ''x'' ([], sv, s) ([0], ?sv3, s3)" by (rule server_step.Wait [OF t(1) w3(1)])
  obtain c' s4 where g: "GetRequest sim_fd_kernel ?c s3 = Ret (kReadHalf, c', s4)"
      "sim_incoming 7 (world s4) \<noteq> sim_incoming 7 (world s)"
    using w w3(2) by (simp add: InetConn_eval quiet_def frame_def bytes_of_word32_def sim_fd_fields echo_proc_def ready_proc_def sim_obs)
  have d2: "dispatch sim_fd_kernel (firedevent (sv_ep ?sv3) ! 0) ?sv3 s3 = Some (Ret (put_conn 7 c' ?sv3, s4))"
    using g(1) r(2,3) f by (simp add: dispatch_def handle_net_event_def fire_EPOLLIN EPOLLIN_tests put_conn_def)
  have s4: "server_step sim_fd_kernel ''x'' ([0], ?sv3, s3) ([], put_conn 7 c' ?sv3, s4)"
    by (rule server_step.Event [OF d2])
  have "(stays sim_fd_kernel ''x'' 7)\<^sup>*\<^sup>* ([], sv, s) ([], put_conn 7 c' ?sv3, s4)"
    by (rule converse_rtranclp_into_rtranclp [OF _ r_into_rtranclp]) (use s3 s4 r(2) in \<open>auto simp: stays_def\<close>)
  with r w g(2) show ?thesis
    by (intro that [of sv s ?c "[]" "put_conn 7 c' ?sv3" s4 c']) (simp_all, simp_all add: new_InetConn_def)
qed

section \<open>Properties\<close>

text \<open>
  C2: the server refines the echo service.  Take any reachable state of a server started as
  an inet server and one of its sessions, and let the server run on, serving other
  clients, accepting and dropping some, or handing them over, as long as this session
  stays in its table.  Then what happened to the session, seen through its two byte
  streams and its buffers, is a run of the abstract service.
\<close>

theorem server_refines_echo:
  assumes "session_kernel k incoming outgoing patience interest live"
    and "reachable k junk argv s0 path (ns, sv, s)" and "path \<noteq> ''-u''"
    and "inet_conn_map (sv_ep sv) fd = Some c"
    and "(stays k path fd)\<^sup>*\<^sup>* (ns, sv, s) (ns', sv', s')" and "inet_conn_map (sv_ep sv') fd = Some c'"
  shows "echo_step\<^sup>*\<^sup>* (view incoming outgoing fd c s) (view incoming outgoing fd c' s')"
  using session_kernel.run_refines [OF assms(1,5) session_kernel.reachable_settled [OF assms(1-3)] assms(4,6)] by simp

theorem server_refines_echo_witness:
  "\<exists>sv s c ns sv' s' c'. reachable sim_fd_kernel [] [''x''] echo_proc ''x'' ([], sv, s)
    \<and> inet_conn_map (sv_ep sv) 7 = Some c \<and> inet_conn_map (sv_ep sv') 7 = Some c'
    \<and> (stays sim_fd_kernel ''x'' 7)\<^sup>*\<^sup>* ([], sv, s) (ns, sv', s')
    \<and> sim_incoming 7 (world s') \<noteq> sim_incoming 7 (world s)
    \<and> echo_step\<^sup>*\<^sup>* (view sim_incoming sim_outgoing 7 c s) (view sim_incoming sim_outgoing 7 c' s')"
proof -
  obtain sv s c ns sv' s' c' where d: "reachable sim_fd_kernel [] [''x''] echo_proc ''x'' ([], sv, s)"
    "inet_conn_map (sv_ep sv) 7 = Some c" "(stays sim_fd_kernel ''x'' 7)\<^sup>*\<^sup>* ([], sv, s) (ns, sv', s')"
    "inet_conn_map (sv_ep sv') 7 = Some c'" "sim_incoming 7 (world s') \<noteq> sim_incoming 7 (world s)"
    by (rule echo_demo)
  from server_refines_echo [OF sim_session.session_kernel_axioms d(1) _ d(2-4)] d(5)
  show ?thesis
    by (intro exI [of _ sv] exI [of _ s] exI [of _ c] exI [of _ ns] exI [of _ sv'] exI [of _ s'] exI [of _ c'] conjI d) simp_all
qed

text \<open>
  C4: the two streams of a session.  If no request was partly received and no reply pending
  when we started to watch, then the bytes taken from the client since are a sequence of
  whole requests followed by a partial one that is in the buffer, and the bytes sent to the
  client since, followed by the bytes still to be sent, are exactly the bodies of these
  requests, in order: the server answers every request once, with its body, and sends
  nothing else, whatever the other clients do.
\<close>

theorem session_streams:
  assumes "session_kernel k incoming outgoing patience interest live"
    and "reachable k junk argv s0 path (ns, sv, s)" and "path \<noteq> ''-u''"
    and "inet_conn_map (sv_ep sv) fd = Some c" and "received c = []" and "unsent c = []"
    and "(stays k path fd)\<^sup>*\<^sup>* (ns, sv, s) (ns', sv', s')" and "inet_conn_map (sv_ep sv') fd = Some c'"
  shows "\<exists>ms. (\<forall>m \<in> set ms. m \<noteq> [] \<and> length m + 4 \<le> 1048576)
    \<and> incoming fd (world s) = concat (map frame ms) @ received c' @ incoming fd (world s')
    \<and> outgoing fd (world s') @ unsent c' = outgoing fd (world s) @ concat ms"
  using echo_steps_stream [OF session_kernel.run_refines [OF assms(1,7)
        session_kernel.reachable_settled [OF assms(1-3)] assms(4,8), THEN conjunct2]] assms(5,6)
  by (simp add: view_def acceptable_def)

theorem session_streams_witness:
  "\<exists>(s :: sim proc) (s' :: sim proc) c' ms. sim_incoming 7 (world s) = concat (map frame ms) @ received c' @ sim_incoming 7 (world s')
    \<and> sim_incoming 7 (world s') \<noteq> sim_incoming 7 (world s)
    \<and> sim_outgoing 7 (world s') @ unsent c' = sim_outgoing 7 (world s) @ concat ms"
proof -
  obtain sv s c ns sv' s' c' where d: "reachable sim_fd_kernel [] [''x''] echo_proc ''x'' ([], sv, s)"
    "inet_conn_map (sv_ep sv) 7 = Some c" "received c = []" "reply c = []"
    "(stays sim_fd_kernel ''x'' 7)\<^sup>*\<^sup>* ([], sv, s) (ns, sv', s')"
    "inet_conn_map (sv_ep sv') 7 = Some c'" "sim_incoming 7 (world s') \<noteq> sim_incoming 7 (world s)"
    by (rule echo_demo)
  have "unsent c = []" using d(4) by (simp add: unsent_def)
  from session_streams [OF sim_session.session_kernel_axioms d(1) _ d(2,3) this d(5,6)] obtain ms
    where "sim_incoming 7 (world s) = concat (map frame ms) @ received c' @ sim_incoming 7 (world s')"
      "sim_outgoing 7 (world s') @ unsent c' = sim_outgoing 7 (world s) @ concat ms" by auto
  with d(7) show ?thesis by blast
qed

text \<open>
  C3: every client is served.  Take any reachable state of an inet server without a
  successor and a session that waits for a request.  If the client has sent any number of
  acceptable requests, then after a number of events reported for the session all of them
  have been answered, each with its body and in order, and the session waits for the next
  request, whatever the sizes of the kernel's transfers.
\<close>

theorem session_served:
  assumes "calm_session k incoming outgoing patience interest live calm"
    and "reachable k junk argv s0 path (ns, sv, s)" and "path \<noteq> ''-u''" and "unix_client sv = None"
    and "calm (world s)" and "inet_conn_map (sv_ep sv) fd = Some c" and "reply c = []"
    and "ready_to_read (interest (epfd (sv_ep sv)) fd (world s))"
    and "received c @ incoming fd (world s) = concat (map frame ms) @ rest"
    and "\<forall>m \<in> set ms. m \<noteq> [] \<and> length m + 4 \<le> 1048576"
  shows "\<exists>n sv' s' c'. drive n interest k fd sv s = Some (Ret (sv', s'))
    \<and> inet_conn_map (sv_ep sv') fd = Some c' \<and> reply c' = []
    \<and> ready_to_read (interest (epfd (sv_ep sv')) fd (world s'))
    \<and> received c' @ incoming fd (world s') = rest
    \<and> outgoing fd (world s') = outgoing fd (world s) @ concat ms"
proof -
  note S = calm_session.reachable_session [OF assms(1-6)]
  from calm_session.drive_serves [OF assms(1) S assms(7-9)] assms(10) show ?thesis
    by (auto simp: acceptable_def)
qed

theorem session_served_witness:
  "\<exists>sv s n sv' s'. reachable sim_fd_kernel [] [''x''] echo_proc ''x'' ([], sv, s)
    \<and> drive n sim_interest sim_fd_kernel 7 sv s = Some (Ret (sv', s')) \<and> sim_outgoing 7 (world s') = [104, 105, 106]"
proof -
  obtain sv s c where d: "reachable sim_fd_kernel [] [''x''] echo_proc ''x'' ([], sv, s)"
    "inet_conn_map (sv_ep sv) 7 = Some c" "received c = []" "reply c = []" "unix_client sv = None"
    "world s = (world echo_proc)\<lparr>ready := [[(EPOLLIN, 7)]], backlog := [], next_fd := 5, open_fds := [7, 4],
        registered := [(7, EPOLLIN OR EPOLLET), (4, EPOLLIN)]\<rparr>"
    by (rule echo_demo)
  have "\<exists>n sv' s' c'. drive n sim_interest sim_fd_kernel 7 sv s = Some (Ret (sv', s'))
    \<and> inet_conn_map (sv_ep sv') 7 = Some c' \<and> reply c' = []
    \<and> ready_to_read (sim_interest (epfd (sv_ep sv')) 7 (world s'))
    \<and> received c' @ sim_incoming 7 (world s') = []
    \<and> sim_outgoing 7 (world s') = sim_outgoing 7 (world s) @ concat [[104, 105], [106]]"
    by (rule session_served [OF sim_session.calm_session_axioms d(1) _ d(5) _ d(2,4)])
      (simp_all add: d(3,6) echo_proc_def ready_proc_def sim_calm_def sim_interest_def ready_to_read_def sim_obs)
  then obtain n sv' s' where n: "drive n sim_interest sim_fd_kernel 7 sv s = Some (Ret (sv', s'))"
      "sim_outgoing 7 (world s') = sim_outgoing 7 (world s) @ concat [[104, 105], [106]]" by blast
  moreover have "sim_outgoing 7 (world s) = []" by (simp add: d(6) echo_proc_def ready_proc_def sim_obs quiet_def)
  ultimately show ?thesis
    by (intro exI [of _ sv] exI [of _ s] exI [of _ n] exI [of _ sv'] exI [of _ s'] conjI d(1)) simp_all
qed

end
