(* ===== verification/Hot_Upgrade.thy ===== *)
theory Hot_Upgrade
  imports Service
begin

text \<open>
  The hot upgrade from end to end: an old server process hands a session over to a new one
  (\<open>hot_upgrade_demo/server.cc\<close>, \<open>unix_client.cc\<close>, \<open>unix_conn.cc\<close>), each with its own kernel
  interface and world.  What connects the two worlds is that the messages sent on the
  Unix-domain socket arrive, and that the descriptor in them stands for the same connection.

  The lemmas show what the new process does with a message that carries a session or the
  listener, that the client of a session cannot tell that the server was replaced, and that
  a client that connects after the listener has changed hands is served by the new process.
\<close>

section \<open>Receiving a session\<close>

lemma recv_loop_plain:
  assumes "recv_loop k u cl str read s = Some p"
  shows "plain k {} s (snd (snd p))"
proof (rule recv_loop.raw_induct [where P = "\<lambda>k u cl str read s p. plain k {} s (snd (snd p))", OF _ assms])
  fix f and k :: "'w kernel" and u cl str read s and p :: "(RecvMsgStatus + byte list) \<times> UnixConn \<times> 'w proc"
  assume IH: "\<And>k u cl str read s p. f k u cl str read s = Some p \<Longrightarrow> plain k {} s (snd (snd p))"
    and body: "(if read < MSG_DATA_BUF_LEN
      then case syscall (k_recvmsg k (uc_fd u) (nat MSG_DATA_BUF_LEN) cl) s of
          (None, s') \<Rightarrow>
            if errno s' = EAGAIN \<or> errno s' = EINTR then f k u cl str read s'
            else Some (Inl kRecvMsgClose, u, s')
        | (Some (bs, ctl), s') \<Rightarrow>
            (let u' = u\<lparr>uc_cmptr := (case ctl of None \<Rightarrow> uc_cmptr u | Some d \<Rightarrow> d),
                        msgDataBuf := store (msgDataBuf u) 0 bs\<rparr> in
             if bs = [] then Some (Inl kRecvMsgClose, u', s')
             else f k u' (case ctl of None \<Rightarrow> 0 | Some _ \<Rightarrow> CONTROLLEN)
                    (str @ load (msgDataBuf u') 0 (length bs)) (read + int (length bs)) s')
      else Some (Inr str, u, s)) = Some p"
  obtain r s1 where c: "syscall (k_recvmsg k (uc_fd u) (nat MSG_DATA_BUF_LEN) cl) s = (r, s1)" by fastforce
  then have "plain k {} s s1" by (rule plain_call1)
  moreover have "plain k {} s1 (snd (snd p))" if "read < MSG_DATA_BUF_LEN"
    using body that c by (auto simp: Let_def split: option.splits if_splits dest: IH)
  ultimately show "plain k {} s (snd (snd p))"
    using body by (auto intro: plain_trans split: if_splits)
qed

lemma makeCommonReply_plain: "plain k {} s (snd (makeCommonReply k u s))"
  by (auto simp: makeCommonReply_def split: prod.splits option.splits dest!: plain_call1 [where A = "{}"])

text \<open>
  The kernel of the new process: sessions and messages, calls that touch no descriptor keep
  the world calm, and registering fails only for a descriptor that is registered.
\<close>

locale receiving_kernel = calm_session k incoming outgoing patience interest live calm
    + passing_kernel k sent inbox patience messages able
  for k :: "'w kernel" and incoming outgoing :: "int \<Rightarrow> 'w \<Rightarrow> byte list"
    and patience :: "'w \<Rightarrow> nat" and interest :: "int \<Rightarrow> int \<Rightarrow> 'w \<Rightarrow> u32 option"
    and live :: "int \<Rightarrow> 'w \<Rightarrow> bool" and calm :: "'w \<Rightarrow> bool"
    and sent messages :: "int \<Rightarrow> 'w \<Rightarrow> (byte list \<times> int option) list" and inbox :: "int \<Rightarrow> 'w \<Rightarrow> byte list"
    and able :: "'w \<Rightarrow> bool" +
  assumes calm_off: "plain_call k {} w w' \<Longrightarrow> calm w \<Longrightarrow> calm w'"
    and add_Fail: "k_epoll_ctl k e EPOLL_CTL_ADD fd m w = (Fail x, w') \<Longrightarrow> interest e fd w \<noteq> None"
begin

lemma plain_off:
  assumes "plain k {} s s'" and "live fd (world s)"
  shows "live fd (world s') \<and> incoming fd (world s') = incoming fd (world s) \<and> outgoing fd (world s') = outgoing fd (world s)
    \<and> interest e fd (world s') = interest e fd (world s) \<and> (calm (world s) \<longrightarrow> calm (world s'))"
  using assms unfolding plain_def
proof (induction rule: rtranclp_induct)
  case (step w w')
  with off [OF step(2), of fd e] calm_off [OF step(2)] show ?case by auto
qed simp

lemma AddEvent_own:
  assumes "interest (epfd ep) fd (world s) = None" and "calm (world s)" and "s' = snd (AddEvent k fd m ep s)"
  shows "interest (epfd ep) fd (world s') = Some m \<and> calm (world s') \<and> undisturbed fd s s'"
proof -
  obtain r where c: "syscall (k_epoll_ctl k (epfd ep) EPOLL_CTL_ADD fd m) s = (r, s')"
    using assms(3) by (simp add: AddEvent_def) (metis surjective_pairing)
  have "r \<noteq> None"
  proof
    assume "r = None"
    with syscall_NoneD [of "k_epoll_ctl k (epfd ep) EPOLL_CTL_ADD fd m" s s'] c add_Fail assms(1) show False by blast
  qed
  then obtain v where "syscall (k_epoll_ctl k (epfd ep) EPOLL_CTL_ADD fd m) s = (Some v, s')" using c by auto
  from ctl_Ok [OF syscall_SomeD [OF this, THEN conjunct1]] have "interest (epfd ep) fd (world s') = Some m" by simp
  moreover have "calm (world s')" using c by (rule syscall_keeps) (use calm_ctl assms(2) in blast)
  ultimately show ?thesis using undisturbed_ctl [OF c] by blast
qed

lemma receive_session:
  assumes "able (world s)" and "messages (uc_fd u) (world s) = (transfer_message kTransferSessionFd session_data, Some d) # q"
    and "\<forall>m \<in> set q. snd m \<noteq> None" and "live d (world s)" and "calm (world s)"
    and "interest (epfd ep) d (world s) = None"
  shows "\<exists>u' s' junk. processRecv k u ep s = Some (Ret (kRecvMsgOk, u', ep\<lparr>inet_conn_map :=
        (inet_conn_map ep)(d \<mapsto> new_InetConn junk d ''received conn tmp no ip_port'')\<rparr>, s'))
    \<and> interest (epfd ep) d (world s') = Some (EPOLLIN OR EPOLLET) \<and> calm (world s') \<and> undisturbed d s s'"
proof -
  let ?m = "transfer_message kTransferSessionFd session_data"
  obtain u' s1 where l: "recv_loop k u CONTROLLEN [] 0 s = Some (Inr ?m, u', s1)" "uc_cmptr u' = d" "length ?m = 1024"
    by (rule recv_transfer [OF assms(1-3)]) simp
  define junk where "junk = (\<lambda>i. k_uninit k (unat READ_BUFFER_SIZE) (world s1) ! i)"
  let ?c = "new_InetConn junk d ''received conn tmp no ip_port''"
  let ?ep = "ep\<lparr>inet_conn_map := (inet_conn_map ep)(d \<mapsto> ?c)\<rparr>"
  let ?s2 = "snd (SetNonblock k ?c s1)"
  let ?s3 = "snd (AddEvent k d (EPOLLIN OR EPOLLET) ?ep ?s2)"
  let ?s4 = "snd (makeCommonReply k u' ?s3)"
  have "4 < length (drop 4 ?m)" by (simp add: l(3))
  moreover have "word32_of_bytes (take 4 ?m) = msg_type_code kTransferSessionFd" by (rule transfer_message_type)
  ultimately have r: "processRecv k u ep s = Some (Ret (kRecvMsgOk, u', ?ep, ?s4))"
    using l by (simp add: processRecv_def dispatch_message_def HandleSessionFdMsg_def Let_def case_prod_beta junk_def)
  have p: "plain k {} s ?s2" using plain_trans [OF _ SetNonblock_plain] recv_loop_plain [OF l(1)] by simp
  note 1 = plain_off [OF p assms(4), of "epfd ep"]
  have 2: "interest (epfd ep) d (world ?s3) = Some (EPOLLIN OR EPOLLET) \<and> calm (world ?s3) \<and> undisturbed d ?s2 ?s3"
    using AddEvent_own [of ?ep d ?s2 ?s3 "EPOLLIN OR EPOLLET"] 1 assms(5,6) by simp
  then have "live d (world ?s3)" using 1 undisturbed_live by blast
  note 3 = plain_off [OF makeCommonReply_plain this, of u' "epfd ep"]
  have "undisturbed d s ?s4" using 1 2 3 by (auto simp: undisturbed_def)
  with r 2 3 show ?thesis by (intro exI [of _ u'] exI [of _ ?s4] exI [of _ junk]) simp
qed

text \<open>The event of the Unix-domain connection, and the session from there on.\<close>

lemma dispatch_receive:
  assumes "unix_conn sv = Some u" and "unix_conn_fd sv = uc_fd u" and "fired_fd fe = uc_fd u"
    and "uc_fd u \<notin> {inet_listen_fd (sv_ep sv), unix_listen_fd (sv_ep sv)}"
    and "mask fe AND EPOLLIN \<noteq> 0" and "mask fe AND EPOLLERR = 0" and "mask fe AND EPOLLHUP = 0"
    and "processRecv k u (sv_ep sv) s = Some (Ret (kRecvMsgOk, u', ep', s'))"
  shows "dispatch k fe sv s = Some (Ret (sv\<lparr>unix_conn := Some u', sv_ep := ep'\<rparr>, s'))"
  using assms by (auto simp: dispatch_def handle_unix_event_def)

lemma receive_and_serve:
  assumes "unix_conn sv = Some u" and "unix_conn_fd sv = uc_fd u" and "unix_client sv = None"
    and "uc_fd u \<notin> {inet_listen_fd (sv_ep sv), unix_listen_fd (sv_ep sv)}"
    and "d \<notin> {inet_listen_fd (sv_ep sv), unix_listen_fd (sv_ep sv), uc_fd u}"
    and "fired_fd fe = uc_fd u" and "mask fe AND EPOLLIN \<noteq> 0" and "mask fe AND EPOLLERR = 0" and "mask fe AND EPOLLHUP = 0"
    and "able (world s)" and "messages (uc_fd u) (world s) = (transfer_message kTransferSessionFd session_data, Some d) # q"
    and "\<forall>m \<in> set q. snd m \<noteq> None" and "live d (world s)" and "calm (world s)"
    and "interest (epfd (sv_ep sv)) d (world s) = None"
    and "incoming d (world s) = concat (map frame ms) @ rest" and "\<forall>m \<in> set ms. acceptable m"
  shows "\<exists>sv1 s1 n sv2 s2. dispatch k fe sv s = Some (Ret (sv1, s1))
    \<and> drive n interest k d sv1 s1 = Some (Ret (sv2, s2))
    \<and> outgoing d (world s2) = outgoing d (world s) @ concat ms"
proof -
  from receive_session [OF assms(10-15)] obtain u' s1 junk where
    r: "processRecv k u (sv_ep sv) s = Some (Ret (kRecvMsgOk, u', (sv_ep sv)\<lparr>inet_conn_map :=
        (inet_conn_map (sv_ep sv))(d \<mapsto> new_InetConn junk d ''received conn tmp no ip_port'')\<rparr>, s1))"
    and i: "interest (epfd (sv_ep sv)) d (world s1) = Some (EPOLLIN OR EPOLLET)" "calm (world s1)" "undisturbed d s s1"
    by blast
  let ?c = "new_InetConn junk d ''received conn tmp no ip_port''"
  let ?sv = "sv\<lparr>unix_conn := Some u', sv_ep := (sv_ep sv)\<lparr>inet_conn_map := (inet_conn_map (sv_ep sv))(d \<mapsto> ?c)\<rparr>\<rparr>"
  have D: "dispatch k fe sv s = Some (Ret (?sv, s1))" by (rule dispatch_receive [OF assms(1,2,6,4,7-9) r])
  have S: "session d ?c ?sv s1"
    using assms(2,3,5) i(2) undisturbed_live [OF i(3) assms(13)] by (simp add: plain_session_def)
  have "ready_to_read (interest (epfd (sv_ep ?sv)) d (world s1))" using i(1) by (simp add: ready_to_read_def)
  moreover have "received ?c @ incoming d (world s1) = concat (map frame ms) @ rest" "reply ?c = []"
    using i(3) assms(13,16) by (simp_all add: undisturbed_def) (simp add: new_InetConn_def)
  ultimately obtain n sv2 s2 where "drive n interest k d ?sv s1 = Some (Ret (sv2, s2))"
      "outgoing d (world s2) = outgoing d (world s1) @ concat ms"
    using drive_serves [OF S _ _ _ assms(17)] by blast
  with D i(3) assms(13) show ?thesis by (auto simp: undisturbed_def)
qed

text \<open>The listener: it is registered, and whoever connects next is served.\<close>

lemma receive_listener:
  assumes "able (world s)" and "messages (uc_fd u) (world s) = (transfer_message kTransferListenFd listen_data, Some d) # q"
    and "\<forall>m \<in> set q. snd m \<noteq> None" and "live d (world s)" and "calm (world s)"
    and "interest (epfd ep) d (world s) = None"
  shows "\<exists>u' s'. processRecv k u ep s = Some (Ret (kRecvMsgOk, u', ep\<lparr>inet_listen_fd := d\<rparr>, s'))
    \<and> interest (epfd ep) d (world s') = Some EPOLLIN \<and> calm (world s') \<and> (\<forall>fd. undisturbed fd s s')"
proof -
  let ?m = "transfer_message kTransferListenFd listen_data"
  obtain u' s1 where l: "recv_loop k u CONTROLLEN [] 0 s = Some (Inr ?m, u', s1)" "uc_cmptr u' = d" "length ?m = 1024"
    by (rule recv_transfer [OF assms(1-3)]) simp
  let ?ep = "ep\<lparr>inet_listen_fd := d\<rparr>"
  let ?s2 = "snd (AddEvent k d EPOLLIN ?ep s1)"
  let ?s3 = "snd (makeCommonReply k u' ?s2)"
  have "4 < length (drop 4 ?m)" by (simp add: l(3))
  moreover have "word32_of_bytes (take 4 ?m) = msg_type_code kTransferListenFd" by (rule transfer_message_type)
  ultimately have r: "processRecv k u ep s = Some (Ret (kRecvMsgOk, u', ?ep, ?s3))"
    using l by (simp add: processRecv_def dispatch_message_def HandleListenFdMsg_def attachInetListenFd_def Let_def case_prod_beta)
  have p: "plain k {} s s1" using recv_loop_plain [OF l(1)] by simp
  note 1 = plain_off [OF p assms(4), of "epfd ep"]
  have 2: "interest (epfd ep) d (world ?s2) = Some EPOLLIN \<and> calm (world ?s2) \<and> undisturbed d s1 ?s2"
    using AddEvent_own [of ?ep d s1 ?s2 EPOLLIN] 1 assms(5,6) by simp
  then have "live d (world ?s2)" using 1 undisturbed_live by blast
  note 3 = plain_off [OF makeCommonReply_plain this, of u' "epfd ep"]
  have "undisturbed fd s ?s3" for fd
    by (intro undisturbed_trans [OF undisturbed_plain [OF p] undisturbed_trans [OF undisturbed_events(1)
          undisturbed_plain [OF makeCommonReply_plain]]]) simp_all
  with r 2 3 show ?thesis by (intro exI [of _ u'] exI [of _ ?s3]) simp
qed

lemma accept_and_serve:
  assumes "k_accept k (inet_listen_fd (sv_ep sv)) (world s) = (Ok (fd, a), w)" and "0 \<le> fd"
    and "fired_fd fe = inet_listen_fd (sv_ep sv)" and "unix_client sv = None"
    and "live (inet_listen_fd (sv_ep sv)) (world s)" and "live (unix_listen_fd (sv_ep sv)) (world s)"
    and "live (unix_conn_fd sv) (world s)" and "calm (world s)" and "interest (epfd (sv_ep sv)) fd w = None"
    and "incoming fd w = concat (map frame ms) @ rest" and "\<forall>m \<in> set ms. acceptable m"
  shows "\<exists>sv1 s1 n sv2 s2. dispatch k fe sv s = Some (Ret (sv1, s1))
    \<and> drive n interest k fd sv1 s1 = Some (Ret (sv2, s2))
    \<and> outgoing fd (world s2) = outgoing fd w @ concat ms"
proof -
  let ?t = "s\<lparr>world := w\<rparr>"
  define junk where "junk = (\<lambda>i. k_uninit k (unat READ_BUFFER_SIZE) w ! i)"
  let ?c = "new_InetConn junk fd (peer_name a)"
  let ?sv = "put_conn fd ?c sv"
  let ?s1 = "snd (AddEvent k fd (EPOLLIN OR EPOLLET) (sv_ep ?sv) (snd (SetNonblock k ?c ?t)))"
  from accept_fresh [OF assms(1)] have fresh: "\<not> live fd (world s)" "live fd w" by simp_all
  then have ne: "fd \<notin> {inet_listen_fd (sv_ep sv), unix_listen_fd (sv_ep sv), unix_conn_fd sv}"
    using assms(5-7) by auto
  have D: "dispatch k fe sv s = Some (Ret (?sv, ?s1))"
    using assms(1-3) by (simp add: dispatch_def accept_inet_def inet_server_accept_def syscall_def Let_def junk_def)
  have "calm w" using calm_off [OF plain_accept [OF assms(1)] assms(8)] .
  note 1 = plain_off [OF SetNonblock_plain, of fd ?t ?c "epfd (sv_ep sv)"]
  have 2: "interest (epfd (sv_ep sv)) fd (world ?s1) = Some (EPOLLIN OR EPOLLET) \<and> calm (world ?s1)
      \<and> undisturbed fd (snd (SetNonblock k ?c ?t)) ?s1"
    using AddEvent_own [of "sv_ep ?sv" fd "snd (SetNonblock k ?c ?t)" ?s1 "EPOLLIN OR EPOLLET"] 1 assms(9) fresh(2) \<open>calm w\<close>
    by simp
  then have i: "live fd (world ?s1)" "incoming fd (world ?s1) = incoming fd w" "outgoing fd (world ?s1) = outgoing fd w"
    using 1 fresh(2) by (simp_all add: undisturbed_def)
  have "session fd ?c ?sv ?s1" using ne assms(4) 2 i(1) by (simp add: plain_session_def)
  moreover have "ready_to_read (interest (epfd (sv_ep ?sv)) fd (world ?s1))" using 2 by (simp add: ready_to_read_def)
  moreover have "received ?c @ incoming fd (world ?s1) = concat (map frame ms) @ rest" "reply ?c = []"
    using i(2) assms(10) by simp_all (simp add: new_InetConn_def)
  ultimately obtain n sv2 s2 where "drive n interest k fd ?sv ?s1 = Some (Ret (sv2, s2))"
      "outgoing fd (world s2) = outgoing fd (world ?s1) @ concat ms"
    using drive_serves [where fd = fd and c = ?c and sv = ?sv and s = ?s1] assms(11) by blast
  with D i(3) show ?thesis by auto
qed

end

section \<open>Streams of requests\<close>

lemma frames_split:
  assumes "concat (map frame ms) = concat (map frame ms1) @ rest"
    and "\<forall>m \<in> set ms. acceptable m" and "\<forall>m \<in> set ms1. acceptable m"
  shows "\<exists>ms2. ms = ms1 @ ms2 \<and> rest = concat (map frame ms2)"
  using assms
proof (induction ms1 arbitrary: ms)
  case (Cons m1 ms1)
  have "length (concat (map frame ms)) \<noteq> 0" unfolding Cons.prems(1) by simp
  then obtain m ms' where ms: "ms = m # ms'" by (cases ms) auto
  have "frame m @ concat (map frame ms') = frame m1 @ (concat (map frame ms1) @ rest)"
    using Cons.prems(1) by (simp add: ms)
  moreover have "length m < 2 ^ 32" "length m1 < 2 ^ 32" using Cons.prems(2,3) by (auto simp: ms acceptable_def)
  ultimately have "m = m1" "concat (map frame ms') = concat (map frame ms1) @ rest"
    using frame_inject by blast+
  with Cons.IH [of ms'] Cons.prems(2,3) show ?case by (auto simp: ms)
qed simp

section \<open>An evaluation\<close>

interpretation sim_fd_msg: msg_kernel sim_fd_kernel sim_sent sim_inbox sim_patience
  by (unfold_locales; unfold sim_fd_fields;
      fact sim_msg.sendmsg_Ok sim_msg.sendmsg_progress sim_msg.sendmsg_Fail sim_msg.sendmsg_transient
        sim_msg.recvmsg_Ok sim_msg.recvmsg_sent sim_msg.recvmsg_Fail sim_msg.recvmsg_transient)

lemma sim_calm_plain: "plain_call sim_fd_kernel A w w' \<Longrightarrow> sim_calm w \<Longrightarrow> sim_calm w'"
  by (induction rule: plain_call.induct)
    (auto simp: sim_fd_fields sim_read_def sim_write_def sim_sendmsg_def sim_recvmsg_def grant_def take_fd_def sim_calm_def
      split: list.splits sched.splits if_splits)

interpretation sim_receiving: receiving_kernel sim_fd_kernel sim_incoming sim_outgoing sim_patience sim_interest
  "\<lambda>fd w. fd \<in> sim_opened w" sim_calm sim_sent sim_messages sim_inbox sim_any
proof (unfold_locales, unfold sim_fd_fields(4))
  show "sim_interest e fd w \<noteq> None" if "k_epoll_ctl sim_fd_kernel e EPOLL_CTL_ADD fd m w = (Fail x, w')" for e fd m w x w'
    using that by (simp add: sim_fd_fields)
qed (fact sim_passing.recvmsg_head sim_passing.recvmsg_kept sim_passing.calm_recvmsg sim_calm_plain)+

text \<open>
  For the evaluation: an old server with a successor and a client (descriptor 7) that has
  sent two requests, and a new one that receives the session as its descriptor 8.
\<close>

definition old_proc :: "sim proc" where
  "old_proc = demo_proc\<lparr>world := (world demo_proc)\<lparr>inq := (\<lambda>_. frame [104, 105] @ frame [106])\<rparr>\<rparr>"

definition new_server :: Server where
  "new_server = demo_server\<lparr>unix_conn := Some \<lparr>uc_fd = 6, uc_cmptr = 0, msgDataBuf = (\<lambda>_. 0)\<rparr>, unix_conn_fd := 6,
     sv_ep := (sv_ep demo_server)\<lparr>inet_listen_fd := - 1, unix_listen_fd := 4\<rparr>\<rparr>"

definition new_proc :: "byte list \<Rightarrow> sim proc" where
  "new_proc m = \<lparr>errno = EINTR, world = quiet\<lparr>inq := (\<lambda>_. frame [104, 105] @ frame [106]), open_fds := [8, 6, 4],
     backlog := [(9, SockIn 0 0)], msg_in := (\<lambda>_. [(m, Some 8)])\<rparr>\<rparr>"

lemma old_init:
  "main_init sim_fd_kernel [] [UNIX_CLIENT_TRIGGER] old_proc = Some (Ret (UNIX_CLIENT_TRIGGER, demo_server,
     old_proc\<lparr>world := (world old_proc)\<lparr>next_fd := 5, open_fds := [4], registered := [(4, EPOLLIN)]\<rparr>\<rparr>))"
  by (simp add: main_init_def InitSignal_def getInstance_def new_Epoll_def startInetServer_def inet_server_listen_def
      AddEvent_def UNIX_CLIENT_TRIGGER_def old_proc_def demo_proc_def demo_server_def syscall_def quiet_def Let_def
      sim_fd_fields take_fd_def)

lemma old_trigger:
  "\<exists>uc s'. trigger sim_fd_kernel UNIX_CLIENT_TRIGGER demo_server
      (old_proc\<lparr>world := (world old_proc)\<lparr>next_fd := 5, open_fds := [4], registered := [(4, EPOLLIN)]\<rparr>\<rparr>)
      = Some (Ret (demo_server\<lparr>unix_client_fd := 5, unix_client := Some uc, unix_socket_init := True\<rparr>, s'))
    \<and> ready (world s') = [[(EPOLLIN, 4)], [(EPOLLIN, 7)]] \<and> registered (world s') = [(4, EPOLLIN)]
    \<and> backlog (world s') = [(7, SockIn 0 0)] \<and> open_fds (world s') = [5, 4] \<and> schedule (world s') = []
    \<and> inq (world s') = inq (world old_proc) \<and> outq (world s') = outq quiet"
proof -
  have *: "length (transfer_message kTransferListenFd listen_data) = 1024"
    by (simp add: length_transfer_message)
  show ?thesis
    by (simp add: trigger_def FileExists_def unix_client_conn_def old_proc_def demo_proc_def demo_server_def quiet_def
        sim_defs UNIX_CLIENT_TRIGGER_def Let_def SUN_PATH_LEN_def UNIX_SOCKET_LOCK_FILE_def sim_fd_fields take_fd_def
        TransferListenFd_def transfer_def new_UnixClient_def MSG_DATA_BUF_LEN_def *
        send_loop.simps [of _ _ "transfer_message kTransferListenFd listen_data"])
qed

lemma sim_fd_accept:
  assumes "backlog (world s) = (fd, SockIn p a) # r" and "0 \<le> fd" and "fd \<notin> set (open_fds (world s))"
    and "fired_fd fe = inet_listen_fd (sv_ep sv)"
  shows "\<exists>junk ip s'. dispatch sim_fd_kernel fe sv s = Some (Ret (put_conn fd (new_InetConn junk fd ip) sv, s'))
    \<and> ready (world s') = ready (world s) \<and> schedule (world s') = schedule (world s)
    \<and> inq (world s') = inq (world s) \<and> outq (world s') = outq (world s)
    \<and> map_of (registered (world s')) fd = Some (EPOLLIN OR EPOLLET)"
  using assms
  by (auto simp: dispatch_def accept_inet_def inet_server_accept_def SetNonblock_def AddEvent_def
      syscall_def Let_def sim_fd_fields take_fd_def)

lemma sim_fd_trigger_again:
  assumes "unix_socket_init sv"
  shows "\<exists>s'. trigger sim_fd_kernel path sv s = Some (Ret (sv, s')) \<and> world s' = world s"
  using assms by (auto simp: trigger_def FileExists_def syscall_def Let_def sim_fd_fields split: prod.splits sysres.splits)

text \<open>With an empty schedule the message goes out in one piece.\<close>

lemma sim_fd_transfer:
  assumes "schedule (world s) = []" and "length data \<le> 1016"
  shows "\<exists>uc' t. transfer sim_fd_kernel ty data uc fd s = Some (kSendMsgOk, uc', t)
    \<and> sim_sent (client_fd uc) (world t) = sim_sent (client_fd uc) (world s) @ [(transfer_message ty data, Some fd)]"
proof -
  let ?m = "transfer_message ty data"
  have len: "length ?m = 1024" by (rule length_transfer_message [OF assms(2)])
  have 1: "send_loop sim_fd_kernel d ?m fd 1024 s' = Some (Some 1024, s')" for d and s' :: "sim proc"
    by (simp add: send_loop.simps MSG_DATA_BUF_LEN_def)
  have "syscall (sim_sendmsg (client_fd uc) ?m (Some fd)) s = (Some 1024, s\<lparr>world := (world s)\<lparr>msg_out :=
      (msg_out (world s))(client_fd uc := msg_out (world s) (client_fd uc) @ [(?m, Some fd)])\<rparr>\<rparr>)"
    using assms(1) by (simp add: sim_defs len)
  then have "send_loop sim_fd_kernel (client_fd uc) ?m fd 0 s = Some (Some 1024, s\<lparr>world := (world s)\<lparr>msg_out :=
      (msg_out (world s))(client_fd uc := msg_out (world s) (client_fd uc) @ [(?m, Some fd)])\<rparr>\<rparr>)"
    by (subst send_loop.simps) (simp add: sim_fd_fields MSG_DATA_BUF_LEN_def 1)
  then show ?thesis
    using assms(1) by (simp add: transfer_def Let_def GetReply_def MSG_DATA_BUF_LEN_def sim_fd_fields
      sim_sent_def sim_recvmsg_def grant_def syscall_def split: list.splits)
qed

lemma sim_fd_receive:
  "\<exists>svn sn. dispatch sim_fd_kernel (fire (EPOLLIN, 6)) new_server (new_proc (transfer_message kTransferListenFd listen_data))
      = Some (Ret (svn, sn)) \<and> backlog (world sn) = [(9, SockIn 0 0)] \<and> open_fds (world sn) = [8, 6, 4]
    \<and> registered (world sn) = [(8, EPOLLIN)] \<and> inq (world sn) = (\<lambda>_. frame [104, 105] @ frame [106]) \<and> outq (world sn) = outq quiet"
proof -
  let ?m = "transfer_message kTransferListenFd listen_data" and ?u = "\<lparr>uc_fd = 6, uc_cmptr = 0, msgDataBuf = (\<lambda>_. 0)\<rparr>"
  have len: "length ?m = 1024" by (simp add: length_transfer_message)
  then have ne: "?m \<noteq> []" by auto
  let ?s1 = "(new_proc ?m)\<lparr>world := (world (new_proc ?m))\<lparr>msg_in := (msg_in (world (new_proc ?m)))(6 := [])\<rparr>\<rparr>"
  have "syscall (sim_recvmsg 6 1024 CONTROLLEN) (new_proc ?m) = (Some (?m, Some 8), ?s1)"
    by (simp add: sim_defs len new_proc_def quiet_def CONTROLLEN_def)
  then have "recv_loop sim_fd_kernel ?u CONTROLLEN [] 0 (new_proc ?m) = Some (Inr ?m,
      ?u\<lparr>uc_cmptr := 8, msgDataBuf := store (\<lambda>_. 0) 0 ?m\<rparr>, ?s1)"
    using ne load_store_same [of "\<lambda>_. 0" 0 ?m] by (subst recv_loop.simps)
      (simp add: sim_fd_fields MSG_DATA_BUF_LEN_def len recv_loop_done)
  then show ?thesis
    using transfer_message_type [of kTransferListenFd listen_data] len
    by (simp add: dispatch_def handle_unix_event_def new_server_def demo_server_def fire_EPOLLIN EPOLLIN_tests processRecv_def
        dispatch_message_def HandleListenFdMsg_def attachInetListenFd_def AddEvent_def makeCommonReply_def Let_def sim_fd_fields
        syscall_def sim_sendmsg_def grant_def new_proc_def quiet_def)
qed

lemma old_demo:
  obtains sv s uc c where
    "reachable sim_fd_kernel [] [UNIX_CLIENT_TRIGGER] old_proc UNIX_CLIENT_TRIGGER ([0], sv, s)"
    "unix_client sv = Some uc" "inet_conn_map (sv_ep sv) 7 = Some c" "received c = []" "reply c = []" "EmptyReadBuf c"
    "firedevent (sv_ep sv) ! 0 = fire (EPOLLIN, 7)"
    "inq (world s) = inq (world old_proc)" "outq (world s) = outq quiet" "schedule (world s) = []"
proof -
  let ?R = "reachable sim_fd_kernel [] [UNIX_CLIENT_TRIGGER] old_proc UNIX_CLIENT_TRIGGER"
  note r0 = reachable.Start [OF old_init]
  obtain uc s1 where t: "trigger sim_fd_kernel UNIX_CLIENT_TRIGGER demo_server
      (old_proc\<lparr>world := (world old_proc)\<lparr>next_fd := 5, open_fds := [4], registered := [(4, EPOLLIN)]\<rparr>\<rparr>)
      = Some (Ret (demo_server\<lparr>unix_client_fd := 5, unix_client := Some uc, unix_socket_init := True\<rparr>, s1))"
    and w1: "ready (world s1) = [[(EPOLLIN, 4)], [(EPOLLIN, 7)]]" "registered (world s1) = [(4, EPOLLIN)]"
      "backlog (world s1) = [(7, SockIn 0 0)]" "open_fds (world s1) = [5, 4]" "schedule (world s1) = []"
      "inq (world s1) = inq (world old_proc)" "outq (world s1) = outq quiet"
    using old_trigger by blast
  let ?sv1 = "demo_server\<lparr>unix_client_fd := 5, unix_client := Some uc, unix_socket_init := True\<rparr>"
  from sim_fd_wait [of s1 4 _ EPOLLIN ?sv1] w1(1,2) obtain sv2 s2 where
      w: "wait_events sim_fd_kernel ?sv1 s1 = Some (Ret ([0], sv2, s2))" "world s2 = (world s1)\<lparr>ready := [[(EPOLLIN, 7)]]\<rparr>"
    and sv2: "firedevent (sv_ep sv2) ! 0 = fire (EPOLLIN, 4)" "unix_client sv2 = Some uc" "unix_socket_init sv2"
      "inet_listen_fd (sv_ep sv2) = 4"
    by (auto simp: demo_server_def EPOLLIN_bit)
  have r1: "?R ([0], sv2, s2)" using r0 t w(1) by (blast intro: reachable.Step server_step.Wait)
  from sim_fd_accept [of s2 7 0 0 "[]" "firedevent (sv_ep sv2) ! 0" sv2] w1 w(2) sv2 obtain junk ip s3 where
      a: "dispatch sim_fd_kernel (firedevent (sv_ep sv2) ! 0) sv2 s2 = Some (Ret (put_conn 7 (new_InetConn junk 7 ip) sv2, s3))"
    and w3: "ready (world s3) = [[(EPOLLIN, 7)]]" "map_of (registered (world s3)) 7 = Some (EPOLLIN OR EPOLLET)"
      "schedule (world s3) = []" "inq (world s3) = inq (world old_proc)" "outq (world s3) = outq quiet"
    by auto
  let ?sv3 = "put_conn 7 (new_InetConn junk 7 ip) sv2"
  have r2: "?R ([], ?sv3, s3)" using r1 a by (blast intro: reachable.Step server_step.Event)
  obtain s4 where t2: "trigger sim_fd_kernel UNIX_CLIENT_TRIGGER ?sv3 s3 = Some (Ret (?sv3, s4))" "world s4 = world s3"
    using sim_fd_trigger_again [of ?sv3] sv2(3) by auto
  have b: "bit (EPOLLIN OR EPOLLET) 0" by (simp add: bit_or_iff EPOLLIN_bit)
  let ?sv5 = "?sv3\<lparr>sv_ep := (sv_ep ?sv3)\<lparr>firedevent := fire (EPOLLIN, 7) # drop 1 (firedevent (sv_ep ?sv3))\<rparr>\<rparr>"
  from sim_fd_wait [of s4 7 "[]" "EPOLLIN OR EPOLLET" ?sv3] w3 t2(2) b obtain s5 where
      w5: "wait_events sim_fd_kernel ?sv3 s4 = Some (Ret ([0], ?sv5, s5))" "world s5 = (world s3)\<lparr>ready := []\<rparr>"
    by auto
  have r5: "?R ([0], ?sv5, s5)" using r2 t2(1) w5(1) by (blast intro: reachable.Step server_step.Wait)
  show ?thesis
    by (rule that [OF r5, of uc "new_InetConn junk 7 ip"]) (use sv2 w3 w5(2) in \<open>simp_all, simp_all add: new_InetConn_def\<close>)
qed

section \<open>Properties\<close>

text \<open>
  C1: the upgrade is transparent to the client.  A client sends the requests \<open>ms\<close> on a
  session of the old server.  The old server runs on and serves any number of them, among
  its other clients, until it dispatches a readable event of this session while it has a
  successor and no partial request is buffered; let the kernel take the transfer message in
  one piece.  Then the old server hands the session over and forgets it; and if the message
  waits for the new server, with a descriptor that stands for the same connection, then the
  new server registers the session and, after a number of events reported for it, what was
  sent to the client by both servers together are the answers to all requests, each with
  its body, in order: none is lost, none is answered twice.
\<close>

theorem upgrade_transparent:
  assumes old: "session_kernel k incoming outgoing patience interest live" "msg_kernel k sent inbox patience'"
    and "reachable k junk argv s0 path (ns, sv, s)" and "inet_conn_map (sv_ep sv) fd = Some c"
    and "received c = []" and "unsent c = []"
    and "incoming fd (world s) = concat (map frame ms)" and "\<forall>m \<in> set ms. m \<noteq> [] \<and> length m + 4 \<le> 1048576"
    and "(stays k path fd)\<^sup>*\<^sup>* (ns, sv, s) (n # ns1, sv1, s1)" and "inet_conn_map (sv_ep sv1) fd = Some c1"
    and event: "fe = firedevent (sv_ep sv1) ! n" "fired_fd fe = fd" "mask fe AND EPOLLIN \<noteq> 0"
      "mask fe AND EPOLLERR = 0" "mask fe AND EPOLLHUP = 0"
    and "unix_client sv1 = Some uc" and "EmptyReadBuf c1"
    and "TransferSessionFd k uc fd s1 = Some (st, uc', t)"
    and "sent (client_fd uc) (world t) = sent (client_fd uc) (world s1) @ [(b, Some fd)]" and "length b = 1024"
    and new: "receiving_kernel kn incomingn outgoingn patiencen interestn liven calmn sentn messagesn inboxn ablen"
      "unix_conn svn = Some u" "unix_conn_fd svn = uc_fd u" "unix_client svn = None"
      "uc_fd u \<notin> {inet_listen_fd (sv_ep svn), unix_listen_fd (sv_ep svn)}"
      "d \<notin> {inet_listen_fd (sv_ep svn), unix_listen_fd (sv_ep svn), uc_fd u}"
      "fired_fd fen = uc_fd u" "mask fen AND EPOLLIN \<noteq> 0" "mask fen AND EPOLLERR = 0" "mask fen AND EPOLLHUP = 0"
      "ablen (world sn)" "messagesn (uc_fd u) (world sn) = [(b, Some d)]"
      "liven d (world sn)" "calmn (world sn)" "interestn (epfd (sv_ep svn)) d (world sn) = None"
    and same: "incomingn d (world sn) = incoming fd (world s1)" "outgoingn d (world sn) = outgoing fd (world s1)"
  shows "dispatch k fe sv1 s1 = Some (Ret (drop_conn k fd (sv1\<lparr>unix_client := Some uc'\<rparr>) t)) \<and>
    (\<exists>svn1 sn1 m svn2 sn2. dispatch kn fen svn sn = Some (Ret (svn1, sn1))
      \<and> drive m interestn kn d svn1 sn1 = Some (Ret (svn2, sn2))
      \<and> outgoingn d (world sn2) = outgoing fd (world s) @ concat ms)"
proof -
  let ?m = "transfer_message kTransferSessionFd session_data"
  note ok = assms(8) [folded acceptable_def]
  have r1: "reachable k junk argv s0 path (n # ns1, sv1, s1)"
    using assms(9,3) by (induction rule: converse_rtranclp_induct) (auto simp: stays_def intro: reachable.Step)
  from reachable_client_ok [OF r1] assms(16) have path: "path \<noteq> ''-u''"
    by (auto simp: client_ok_def UNIX_CLIENT_TRIGGER_def)
  note S1 = session_kernel.reachable_settled [OF old(1) r1 path]
  have l: "fd \<noteq> inet_listen_fd (sv_ep sv1)"
    by (rule session_kernel.settled_listen [OF old(1) S1 assms(10)])
  note sk = session_kernel.axioms(1) [OF old(1)]
  from session_handover [OF sk r1 event(1) assms(16)] assms(10,17) event l
  have H: "received c1 = []" "unsent c1 = []"
      "dispatch k fe sv1 s1 = Some (Ret (drop_conn k fd (sv1\<lparr>unix_client := Some uc'\<rparr>) t))"
    using assms(18) by auto
  note R = session_kernel.run_refines [OF old(1) assms(9) session_kernel.reachable_settled [OF old(1) assms(3) path] assms(4,10)]
  from echo_steps_stream [OF R [THEN conjunct2]] assms(5,6) H(1,2) obtain ms1 where
      ms1: "\<forall>m \<in> set ms1. acceptable m" "incoming fd (world s) = concat (map frame ms1) @ incoming fd (world s1)"
      "outgoing fd (world s1) = outgoing fd (world s) @ concat ms1"
    by (auto simp: view_def)
  from frames_split [of ms ms1] ms1(1,2) assms(7) ok obtain ms2 where ms2: "ms = ms1 @ ms2"
      "incoming fd (world s1) = concat (map frame ms2)" by auto
  from msg_kernel.transfer_returns [OF old(2), of session_data kTransferSessionFd uc fd s1] assms(18,19)
  obtain j where "b = take j ?m" by (auto simp: TransferSessionFd_def)
  with assms(20) have b: "b = ?m" by (simp add: length_transfer_message)
  from receiving_kernel.receive_and_serve [OF new(1-11) new(12) [unfolded b] _ new(13-15), of ms2 "[]"] same ms2 ok
  have "\<exists>svn1 sn1 m svn2 sn2. dispatch kn fen svn sn = Some (Ret (svn1, sn1))
      \<and> drive m interestn kn d svn1 sn1 = Some (Ret (svn2, sn2))
      \<and> outgoingn d (world sn2) = outgoing fd (world s1) @ concat ms2"
    by auto
  with H(3) ms1(3) ms2(1) show ?thesis by simp
qed

theorem upgrade_transparent_witness:
  "\<exists>sv s sv' s' svn1 sn1 m svn2 sn2.
    reachable sim_fd_kernel [] [UNIX_CLIENT_TRIGGER] old_proc UNIX_CLIENT_TRIGGER ([0], sv, s)
    \<and> inet_conn_map (sv_ep sv) 7 \<noteq> None
    \<and> dispatch sim_fd_kernel (fire (EPOLLIN, 7)) sv s = Some (Ret (sv', s')) \<and> inet_conn_map (sv_ep sv') 7 = None
    \<and> dispatch sim_fd_kernel (fire (EPOLLIN, 6)) new_server
      (new_proc (transfer_message kTransferSessionFd session_data)) = Some (Ret (svn1, sn1))
    \<and> drive m sim_interest sim_fd_kernel 8 svn1 sn1 = Some (Ret (svn2, sn2))
    \<and> sim_outgoing 8 (world sn2) = [104, 105, 106]"
proof -
  obtain sv s uc c where d:
    "reachable sim_fd_kernel [] [UNIX_CLIENT_TRIGGER] old_proc UNIX_CLIENT_TRIGGER ([0], sv, s)"
    "unix_client sv = Some uc" "inet_conn_map (sv_ep sv) 7 = Some c" "received c = []" "reply c = []" "EmptyReadBuf c"
    "firedevent (sv_ep sv) ! 0 = fire (EPOLLIN, 7)"
    "inq (world s) = inq (world old_proc)" "outq (world s) = outq quiet" "schedule (world s) = []"
    by (rule old_demo)
  have un: "unsent c = []" using d(5) by (simp add: unsent_def)
  obtain uc' t where T: "TransferSessionFd sim_fd_kernel uc 7 s = Some (kSendMsgOk, uc', t)"
      "sim_sent (client_fd uc) (world t) = sim_sent (client_fd uc) (world s)
        @ [(transfer_message kTransferSessionFd session_data, Some 7)]"
    using sim_fd_transfer [OF d(10), of session_data kTransferSessionFd uc 7] by (auto simp: TransferSessionFd_def)
  have "dispatch sim_fd_kernel (fire (EPOLLIN, 7)) sv s = Some (Ret (drop_conn sim_fd_kernel 7 (sv\<lparr>unix_client := Some uc'\<rparr>) t)) \<and>
    (\<exists>svn1 sn1 m svn2 sn2. dispatch sim_fd_kernel (fire (EPOLLIN, 6)) new_server
      (new_proc (transfer_message kTransferSessionFd session_data)) = Some (Ret (svn1, sn1))
      \<and> drive m sim_interest sim_fd_kernel 8 svn1 sn1 = Some (Ret (svn2, sn2))
      \<and> sim_outgoing 8 (world sn2) = sim_outgoing 7 (world s) @ concat [[104, 105], [106]])"
    by (rule upgrade_transparent [OF sim_session.session_kernel_axioms sim_fd_msg.msg_kernel_axioms d(1,3,4) un _ _ rtranclp.rtrancl_refl
        d(3) d(7) [symmetric] _ _ _ _ d(2,6) T _ sim_receiving.receiving_kernel_axioms])
      (simp_all add: d(8,9) fire_EPOLLIN EPOLLIN_tests length_transfer_message sim_obs sim_messages_def sim_any_def sim_calm_def
        sim_interest_def sim_opened_def old_proc_def new_proc_def new_server_def demo_server_def demo_proc_def quiet_def, simp_all)
  then obtain svn1 sn1 m svn2 sn2 where
    n: "dispatch sim_fd_kernel (fire (EPOLLIN, 7)) sv s = Some (Ret (drop_conn sim_fd_kernel 7 (sv\<lparr>unix_client := Some uc'\<rparr>) t))"
      "dispatch sim_fd_kernel (fire (EPOLLIN, 6)) new_server
      (new_proc (transfer_message kTransferSessionFd session_data)) = Some (Ret (svn1, sn1))"
      "drive m sim_interest sim_fd_kernel 8 svn1 sn1 = Some (Ret (svn2, sn2))"
      "sim_outgoing 8 (world sn2) = sim_outgoing 7 (world s) @ concat [[104, 105], [106]]"
    by blast
  obtain sv' s' where v: "drop_conn sim_fd_kernel 7 (sv\<lparr>unix_client := Some uc'\<rparr>) t = (sv', s')" by fastforce
  then have "inet_conn_map (sv_ep sv') 7 = None"
    by (auto simp: drop_conn_def Let_def split: prod.splits option.splits)
  with n v d(1,3) show ?thesis
    by (intro exI [of _ sv] exI [of _ s] exI [of _ sv'] exI [of _ s'] exI [of _ svn1] exI [of _ sn1] exI [of _ m]
      exI [of _ svn2] exI [of _ sn2]) (simp add: d(9) sim_obs quiet_def)
qed

text \<open>
  C5: the listener changes hands.  An old server finds its trigger file, connects to its
  successor and sends its listening socket, which the kernel takes in one piece.  Then it
  stops listening, with its sessions kept: its own descriptor of the socket is taken from
  the epoll instance and closed.  If the message waits for the new server, the
  new server registers the socket it received as its listener, and whoever connects next,
  having sent acceptable requests, is served by the new server.
\<close>

theorem listener_upgrade:
  assumes old: "msg_kernel k sent inbox patience" "detaching_kernel k interest opened" "FileExists k UNIX_CLIENT_TRIGGER s = (True, s1)" "\<not> unix_socket_init sv"
      "unix_client_conn k UNIX_SOCKET_LOCK_FILE s1 = Ret (fd, s2)" "0 \<le> fd"
      "TransferListenFd k (new_UnixClient k fd s2) (inet_listen_fd (sv_ep sv)) s2 = Some (kSendMsgOk, uc, s3)"
      "sent fd (world s3) = sent fd (world s2) @ [(b, Some (inet_listen_fd (sv_ep sv)))]"
    and new: "receiving_kernel kn incomingn outgoingn patiencen interestn liven calmn sentn messagesn inboxn ablen"
      "unix_conn svn = Some u" "unix_conn_fd svn = uc_fd u" "unix_client svn = None"
      "uc_fd u \<notin> {inet_listen_fd (sv_ep svn), unix_listen_fd (sv_ep svn)}"
      "fired_fd fen = uc_fd u" "mask fen AND EPOLLIN \<noteq> 0" "mask fen AND EPOLLERR = 0" "mask fen AND EPOLLHUP = 0"
      "ablen (world sn)" "messagesn (uc_fd u) (world sn) = [(b, Some d)]" "calmn (world sn)"
      "liven d (world sn)" "liven (uc_fd u) (world sn)" "liven (unix_listen_fd (sv_ep svn)) (world sn)"
      "interestn (epfd (sv_ep svn)) d (world sn) = None"
  shows "(\<exists>s4. trigger k UNIX_CLIENT_TRIGGER sv s = Some (Ret (sv\<lparr>unix_client_fd := fd, unix_client := Some uc,
        unix_socket_init := True, sv_ep := (sv_ep sv)\<lparr>inet_listen_fd := - 1\<rparr>\<rparr>, s4))
        \<and> inet_listen_fd (sv_ep sv) \<notin> opened (world s4)
        \<and> interest (epfd (sv_ep sv)) (inet_listen_fd (sv_ep sv)) (world s4) = None) \<and>
    (\<exists>svn1 sn1. dispatch kn fen svn sn = Some (Ret (svn1, sn1)) \<and> sv_ep svn1 = (sv_ep svn)\<lparr>inet_listen_fd := d\<rparr>
      \<and> interestn (epfd (sv_ep svn)) d (world sn1) = Some EPOLLIN
      \<and> (\<forall>fe cfd a w ms rest. fired_fd fe = d \<and> k_accept kn d (world sn1) = (Ok (cfd, a), w) \<and> 0 \<le> cfd
            \<and> interestn (epfd (sv_ep svn)) cfd w = None \<and> incomingn cfd w = concat (map frame ms) @ rest
            \<and> (\<forall>m \<in> set ms. m \<noteq> [] \<and> length m + 4 \<le> 1048576) \<longrightarrow>
          (\<exists>svn2 sn2 n svn3 sn3. dispatch kn fe svn1 sn1 = Some (Ret (svn2, sn2))
            \<and> drive n interestn kn cfd svn2 sn2 = Some (Ret (svn3, sn3))
            \<and> outgoingn cfd (world sn3) = outgoingn cfd w @ concat ms)))"
proof -
  let ?m = "transfer_message kTransferListenFd listen_data"
  have c: "client_fd (new_UnixClient k fd s2) = fd" by (simp add: new_UnixClient_def)
  from msg_kernel.transfer_returns [OF old(1), of listen_data kTransferListenFd "new_UnixClient k fd s2"
      "inet_listen_fd (sv_ep sv)" s2] old(7,8)
  obtain j where "b = take j ?m" "j = 1024" by (auto simp: TransferListenFd_def c)
  then have b: "b = ?m" by (simp add: length_transfer_message)
  let ?s4 = "snd (detachInetListenFd k (sv_ep sv) s3)"
  have T: "trigger k UNIX_CLIENT_TRIGGER sv s = Some (Ret (sv\<lparr>unix_client_fd := fd, unix_client := Some uc,
        unix_socket_init := True, sv_ep := (sv_ep sv)\<lparr>inet_listen_fd := - 1\<rparr>\<rparr>, ?s4))"
    using old(3-7) by (simp add: trigger_def Let_def detachInetListenFd_def)
  note C = detaching_kernel.detach_closes [OF old(2) surjective_pairing [of "detachInetListenFd k (sv_ep sv) s3"]]
  from receiving_kernel.receive_listener [OF new(1,10) new(11) [unfolded b] _ new(13,12,16)]
  obtain u' sn1 where r: "processRecv kn u (sv_ep svn) sn = Some (Ret (kRecvMsgOk, u', (sv_ep svn)\<lparr>inet_listen_fd := d\<rparr>, sn1))"
    and i: "interestn (epfd (sv_ep svn)) d (world sn1) = Some EPOLLIN" "calmn (world sn1)"
      "\<And>x. liven x (world sn) \<Longrightarrow> liven x (world sn1)"
    using session_kernel.undisturbed_live [OF calm_session.axioms(1) [OF receiving_kernel.axioms(1) [OF new(1)]]]
    by fastforce
  let ?svn = "svn\<lparr>unix_conn := Some u', sv_ep := (sv_ep svn)\<lparr>inet_listen_fd := d\<rparr>\<rparr>"
  have D: "dispatch kn fen svn sn = Some (Ret (?svn, sn1))"
    by (rule receiving_kernel.dispatch_receive [OF new(1-3,6,5,7-9) r])
  have "\<exists>svn2 sn2 n svn3 sn3. dispatch kn fe ?svn sn1 = Some (Ret (svn2, sn2))
      \<and> drive n interestn kn cfd svn2 sn2 = Some (Ret (svn3, sn3)) \<and> outgoingn cfd (world sn3) = outgoingn cfd w @ concat ms"
    if "fired_fd fe = d \<and> k_accept kn d (world sn1) = (Ok (cfd, a), w) \<and> 0 \<le> cfd
      \<and> interestn (epfd (sv_ep svn)) cfd w = None \<and> incomingn cfd w = concat (map frame ms) @ rest
      \<and> (\<forall>m \<in> set ms. m \<noteq> [] \<and> length m + 4 \<le> 1048576)" for fe cfd a w ms rest
    by (rule receiving_kernel.accept_and_serve [OF new(1), of ?svn sn1 cfd a w])
      (use that i new(3,4,13-15) in \<open>auto simp: acceptable_def\<close>)
  with T C D i(1) show ?thesis by (intro conjI exI [of _ ?s4] exI [of _ ?svn] exI [of _ sn1]) simp_all
qed

theorem listener_upgrade_witness:
  "\<exists>sv' s' svn1 sn1 svn2 sn2 n svn3 sn3.
    trigger sim_fd_kernel UNIX_CLIENT_TRIGGER demo_server (old_proc\<lparr>world := (world old_proc)\<lparr>schedule := []\<rparr>\<rparr>) = Some (Ret (sv', s'))
    \<and> inet_listen_fd (sv_ep sv') = - 1 \<and> 4 \<notin> sim_opened (world s') \<and> sim_interest 3 4 (world s') = None
    \<and> dispatch sim_fd_kernel (fire (EPOLLIN, 6)) new_server (new_proc (transfer_message kTransferListenFd listen_data))
        = Some (Ret (svn1, sn1))
    \<and> inet_listen_fd (sv_ep svn1) = 8
    \<and> dispatch sim_fd_kernel (fire (EPOLLIN, 8)) svn1 sn1 = Some (Ret (svn2, sn2))
    \<and> drive n sim_interest sim_fd_kernel 9 svn2 sn2 = Some (Ret (svn3, sn3))
    \<and> sim_outgoing 9 (world sn3) = [104, 105, 106]"
proof -
  let ?m = "transfer_message kTransferListenFd listen_data" and ?s = "old_proc\<lparr>world := (world old_proc)\<lparr>schedule := []\<rparr>\<rparr>"
  obtain s1 where f: "FileExists sim_fd_kernel UNIX_CLIENT_TRIGGER ?s = (True, s1)" "world s1 = world ?s"
    by (simp add: FileExists_def syscall_def sim_fd_fields old_proc_def demo_proc_def)
  obtain s2 where c: "unix_client_conn sim_fd_kernel UNIX_SOCKET_LOCK_FILE s1 = Ret (3, s2)" "schedule (world s2) = []"
    using f(2) by (simp add: unix_client_conn_def old_proc_def demo_proc_def quiet_def syscall_def Let_def SUN_PATH_LEN_def
        UNIX_SOCKET_LOCK_FILE_def sim_fd_fields take_fd_def)
  have cf: "client_fd (new_UnixClient sim_fd_kernel 3 s2) = 3" by (simp add: new_UnixClient_def)
  obtain uc s3 where T: "TransferListenFd sim_fd_kernel (new_UnixClient sim_fd_kernel 3 s2) 4 s2 = Some (kSendMsgOk, uc, s3)"
      "sim_sent 3 (world s3) = sim_sent 3 (world s2) @ [(?m, Some 4)]"
    using sim_fd_transfer [OF c(2), of listen_data kTransferListenFd "new_UnixClient sim_fd_kernel 3 s2" 4]
    by (auto simp: TransferListenFd_def cf)
  have l: "inet_listen_fd (sv_ep demo_server) = 4" "\<not> unix_socket_init demo_server" "epfd (sv_ep demo_server) = 3" by (simp_all add: demo_server_def)
  note L = listener_upgrade [OF sim_fd_msg.msg_kernel_axioms sim_detaching.detaching_kernel_axioms f(1) l(2) c(1) _ T [folded l(1)]
      sim_receiving.receiving_kernel_axioms, where svn = new_server and sn = "new_proc ?m" and d = 8
      and u = "\<lparr>uc_fd = 6, uc_cmptr = 0, msgDataBuf = (\<lambda>_. 0)\<rparr>" and fen = "fire (EPOLLIN, 6)"]
  have N: "unix_conn new_server = Some \<lparr>uc_fd = 6, uc_cmptr = 0, msgDataBuf = (\<lambda>_. 0)\<rparr>" "unix_conn_fd new_server = 6"
      "unix_client new_server = None" "inet_listen_fd (sv_ep new_server) = - 1" "unix_listen_fd (sv_ep new_server) = 4"
      "epfd (sv_ep new_server) = 3"
    by (simp_all add: new_server_def demo_server_def)
  from L N l(1,3) obtain sv' s' svn1 sn1 where
    1: "trigger sim_fd_kernel UNIX_CLIENT_TRIGGER demo_server ?s = Some (Ret (sv', s'))" "inet_listen_fd (sv_ep sv') = - 1"
      "4 \<notin> sim_opened (world s')" "sim_interest 3 4 (world s') = None"
      "dispatch sim_fd_kernel (fire (EPOLLIN, 6)) new_server (new_proc ?m) = Some (Ret (svn1, sn1))"
      "sv_ep svn1 = (sv_ep new_server)\<lparr>inet_listen_fd := 8\<rparr>"
    and 2: "\<forall>fe cfd a w ms rest. fired_fd fe = 8 \<and> k_accept sim_fd_kernel 8 (world sn1) = (Ok (cfd, a), w) \<and> 0 \<le> cfd
            \<and> sim_interest 3 cfd w = None \<and> sim_incoming cfd w = concat (map frame ms) @ rest
            \<and> (\<forall>m \<in> set ms. m \<noteq> [] \<and> length m + 4 \<le> 1048576) \<longrightarrow>
          (\<exists>svn2 sn2 n svn3 sn3. dispatch sim_fd_kernel fe svn1 sn1 = Some (Ret (svn2, sn2))
            \<and> drive n sim_interest sim_fd_kernel cfd svn2 sn2 = Some (Ret (svn3, sn3))
            \<and> sim_outgoing cfd (world sn3) = sim_outgoing cfd w @ concat ms)"
    by (auto simp: fire_EPOLLIN EPOLLIN_tests new_proc_def quiet_def sim_any_def sim_messages_def sim_calm_def sim_opened_def
        sim_interest_def)
  from sim_fd_receive 1(5) have w: "backlog (world sn1) = [(9, SockIn 0 0)]" "open_fds (world sn1) = [8, 6, 4]"
      "registered (world sn1) = [(8, EPOLLIN)]" "inq (world sn1) = (\<lambda>_. frame [104, 105] @ frame [106])" "outq (world sn1) = outq quiet"
    by auto
  let ?w = "(world sn1)\<lparr>backlog := [], open_fds := [9, 8, 6, 4]\<rparr>"
  have "k_accept sim_fd_kernel 8 (world sn1) = (Ok (9, SockIn 0 0), ?w)" using w by (simp add: sim_fd_fields take_fd_def)
  with 2 [rule_format, of "fire (EPOLLIN, 8)" 9 "SockIn 0 0" ?w "[[104, 105], [106]]" "[]"] w
  obtain svn2 sn2 n svn3 sn3 where 3: "dispatch sim_fd_kernel (fire (EPOLLIN, 8)) svn1 sn1 = Some (Ret (svn2, sn2))"
      "drive n sim_interest sim_fd_kernel 9 svn2 sn2 = Some (Ret (svn3, sn3))" "sim_outgoing 9 (world sn3) = [104, 105, 106]"
    by (auto simp: sim_interest_def sim_obs quiet_def)
  have "inet_listen_fd (sv_ep svn1) = 8" by (simp add: 1(6))
  with 1(1-5) 3 show ?thesis by blast
qed

end
