(* ===== verification/Objects.thy ===== *)
theory Objects
  imports Service
begin

text \<open>
  The server with its objects on the heap (\<open>hot_upgrade_demo/server.cc\<close>, the destructors of
  \<open>unix_conn.cc\<close>).  In \<open>Server\<close> the connection objects are values in the table of connections;
  the program keeps pointers there, changes the objects in place, and creates and deletes
  them.  Here the table holds addresses, an access to an object that is not allocated and a
  second release are faults, and addresses are never used again, so that no mistake is
  hidden by reuse.

  The lemmas show that the handlers on pointers do what those on values do, so that no
  pointer dangles and nothing is released twice, which objects are alive in a server that
  was started as an inet server, and which ones are lost.
\<close>

section \<open>Memory\<close>

type_synonym addr = nat

text \<open>
  A \<open>UnixConn\<close> owns the two blocks its constructor gets from \<open>malloc\<close>; \<open>brk\<close> is the first
  address never used.
\<close>

record heap =
  conn_objs :: "addr \<rightharpoonup> InetConn"
  unix_objs :: "addr \<rightharpoonup> UnixConn \<times> addr \<times> addr"
  blocks :: "addr set"
  brk :: addr

definition new_conn :: "InetConn \<Rightarrow> heap \<Rightarrow> addr \<times> heap" where
  "new_conn c h = (brk h, h\<lparr>conn_objs := (conn_objs h)(brk h \<mapsto> c), brk := brk h + 1\<rparr>)"

definition load_conn :: "addr \<Rightarrow> heap \<Rightarrow> InetConn outcome" where
  "load_conn a h = (case conn_objs h a of None \<Rightarrow> Fault UseAfterFree | Some c \<Rightarrow> Ret c)"

definition store_conn :: "addr \<Rightarrow> InetConn \<Rightarrow> heap \<Rightarrow> heap" where
  "store_conn a c h = h\<lparr>conn_objs := (conn_objs h)(a \<mapsto> c)\<rparr>"

definition delete_conn :: "addr \<Rightarrow> heap \<Rightarrow> heap outcome" where
  "delete_conn a h = (case conn_objs h a of
     None \<Rightarrow> Fault UseAfterFree | Some _ \<Rightarrow> Ret (h\<lparr>conn_objs := (conn_objs h)(a := None)\<rparr>))"

definition new_unix :: "UnixConn \<Rightarrow> heap \<Rightarrow> addr \<times> heap" where
  "new_unix u h = (brk h, h\<lparr>unix_objs := (unix_objs h)(brk h \<mapsto> (u, brk h + 1, brk h + 2)),
     blocks := {brk h + 1, brk h + 2} \<union> blocks h, brk := brk h + 3\<rparr>)"

definition load_unix :: "addr \<Rightarrow> heap \<Rightarrow> UnixConn outcome" where
  "load_unix a h = (case unix_objs h a of None \<Rightarrow> Fault UseAfterFree | Some (u, _) \<Rightarrow> Ret u)"

definition store_unix :: "addr \<Rightarrow> UnixConn \<Rightarrow> heap \<Rightarrow> heap" where
  "store_unix a u h = h\<lparr>unix_objs := (unix_objs h)(a := map_option (\<lambda>(_, bs). (u, bs)) (unix_objs h a))\<rparr>"

definition free_block :: "addr \<Rightarrow> heap \<Rightarrow> heap outcome" where
  "free_block b h = (if b \<in> blocks h then Ret (h\<lparr>blocks := blocks h - {b}\<rparr>) else Fault UseAfterFree)"

text \<open>The destructor, then the object itself; deleting a null pointer has no effect.\<close>

definition delete_unix :: "addr option \<Rightarrow> heap \<Rightarrow> heap run" where
  "delete_unix p h = (case p of
     None \<Rightarrow> Some (Ret h)
   | Some a \<Rightarrow> (case unix_objs h a of
       None \<Rightarrow> Some (Fault UseAfterFree)
     | Some (_, cmptr, msgData) \<Rightarrow>
         run_bind (Some (free_block cmptr h)) (\<lambda>h1. run_bind (Some (free_block msgData h1)) (\<lambda>h2.
           Some (Ret (h2\<lparr>unix_objs := (unix_objs h2)(a := None)\<rparr>))))))"

section \<open>The handlers on pointers\<close>

text \<open>
  The pointers, the heap, and in \<open>globals\<close> all other members; the table and the
  \<open>UnixConn\<close> that \<open>globals\<close> has as values are not used.
\<close>

record PServer =
  globals :: Server
  table :: "int \<rightharpoonup> addr"
  unix_ptr :: "addr option"
  mem :: heap

definition p_file :: "int \<Rightarrow> InetConn \<Rightarrow> PServer \<Rightarrow> PServer" where
  "p_file fd conn P = (let (a, h) = new_conn conn (mem P) in P\<lparr>table := (table P)(fd \<mapsto> a), mem := h\<rparr>)"

definition p_HandleSessionFdMsg :: "'w kernel \<Rightarrow> UnixConn \<Rightarrow> int \<Rightarrow> byte list \<Rightarrow> PServer \<Rightarrow> 'w proc
    \<Rightarrow> (bool \<times> PServer \<times> 'w proc) outcome" where
  "p_HandleSessionFdMsg k u fd buffer P s =
     (if \<not> 4 < length buffer then Fault AssertFailed
      else let conn = new_InetConn (\<lambda>i. k_uninit k (unat READ_BUFFER_SIZE) (world s) ! i) fd
                        ''received conn tmp no ip_port'';
               (_, s1) = SetNonblock k conn s;
               P' = p_file fd conn P;
               (_, s2) = AddEvent k fd (EPOLLIN OR EPOLLET) (sv_ep (globals P')) s1;
               (_, s3) = makeCommonReply k u s2
           in Ret (True, P', s3))"

definition p_HandleListenFdMsg :: "'w kernel \<Rightarrow> UnixConn \<Rightarrow> int \<Rightarrow> byte list \<Rightarrow> PServer \<Rightarrow> 'w proc
    \<Rightarrow> (bool \<times> PServer \<times> 'w proc) outcome" where
  "p_HandleListenFdMsg k u fd buffer P s =
     map_outcome (\<lambda>(b, ep', s'). (b, P\<lparr>globals := (globals P)\<lparr>sv_ep := ep'\<rparr>\<rparr>, s'))
       (HandleListenFdMsg k u fd buffer (sv_ep (globals P)) s)"

definition p_dispatch_message :: "'w kernel \<Rightarrow> UnixConn \<Rightarrow> byte list \<Rightarrow> PServer \<Rightarrow> 'w proc
    \<Rightarrow> (RecvMsgStatus \<times> PServer \<times> 'w proc) outcome" where
  "p_dispatch_message k u requestStr P s =
     (let fd = uc_cmptr u; msgType = word32_of_bytes (take 4 requestStr); rest = drop 4 requestStr;
          finish = map_outcome (\<lambda>(_, P', s'). (kRecvMsgOk, P', s')) in
      if msgType = msg_type_code kTransferListenFd then finish (p_HandleListenFdMsg k u fd rest P s)
      else if msgType = msg_type_code kTransferSessionFd then finish (p_HandleSessionFdMsg k u fd rest P s)
      else Ret (kRecvMSGParseError, P, s))"

definition p_processRecv :: "'w kernel \<Rightarrow> addr \<Rightarrow> PServer \<Rightarrow> 'w proc \<Rightarrow> (RecvMsgStatus \<times> PServer \<times> 'w proc) run" where
  "p_processRecv k a P s =
     run_bind (Some (load_unix a (mem P))) (\<lambda>u. case recv_loop k u CONTROLLEN [] 0 s of
         None \<Rightarrow> None
       | Some (Inl st, u', s') \<Rightarrow> Some (Ret (st, P\<lparr>mem := store_unix a u' (mem P)\<rparr>, s'))
       | Some (Inr requestStr, u', s') \<Rightarrow>
           Some (p_dispatch_message k u' requestStr (P\<lparr>mem := store_unix a u' (mem P)\<rparr>) s'))"

definition p_handle_unix_event :: "'w kernel \<Rightarrow> FiredEvent \<Rightarrow> PServer \<Rightarrow> 'w proc
    \<Rightarrow> (int \<times> PServer \<times> 'w proc) run" where
  "p_handle_unix_event k fe P s =
     (if mask fe AND EPOLLERR \<noteq> 0 \<or> mask fe AND EPOLLHUP \<noteq> 0 then Some (Ret (- 1, P, s))
      else case unix_ptr P of
        None \<Rightarrow> Some (Ret (- 1, P, s))
      | Some a \<Rightarrow>
          if mask fe AND EPOLLIN \<noteq> 0 then
            run_bind (p_processRecv k a P s) (\<lambda>(rms, P', s').
              Some (Ret (if rms \<noteq> kRecvMsgOk then - 1 else 0, P', s')))
          else Some (Ret (0, P, s)))"

definition p_handle_net_event :: "'w kernel \<Rightarrow> FiredEvent \<Rightarrow> PServer \<Rightarrow> 'w proc
    \<Rightarrow> (int \<times> PServer \<times> 'w proc) run" where
  "p_handle_net_event k fe P s =
     (if mask fe AND EPOLLERR \<noteq> 0 \<or> mask fe AND EPOLLHUP \<noteq> 0 then Some (Ret (- 1, P, s))
      else case table P (fired_fd fe) of
        None \<Rightarrow> Some (Ret (- 1, P, s))
      | Some a \<Rightarrow> run_bind (Some (load_conn a (mem P))) (\<lambda>conn.
          if mask fe AND EPOLLIN \<noteq> 0 \<and> EmptyReadBuf conn \<and> unix_client (globals P) \<noteq> None then
            (case TransferSessionFd k (the (unix_client (globals P))) (fired_fd fe) s of
               None \<Rightarrow> None
             | Some (sms, uc', s') \<Rightarrow> Some (Ret (- 1, P\<lparr>globals := (globals P)\<lparr>unix_client := Some uc'\<rparr>\<rparr>, s')))
          else if mask fe AND EPOLLIN \<noteq> 0 then
            run_bind (Some (GetRequest k conn s)) (\<lambda>(rs, conn', s').
              let P' = P\<lparr>mem := store_conn a conn' (mem P)\<rparr> in
              if rs = kReadAll
              then Some (Ret (0, P', snd (ModEvent k (fired_fd fe) EPOLLOUT (sv_ep (globals P')) s')))
              else if rs \<noteq> kReadHalf then Some (Ret (- 1, P', s'))
              else Some (Ret (0, P', s')))
          else if mask fe AND EPOLLOUT \<noteq> 0 then
            (let (ws, conn', s') = SendReply k conn s; P' = P\<lparr>mem := store_conn a conn' (mem P)\<rparr> in
             if ws = kWriteAll
             then Some (Ret (0, P', snd (ModEvent k (fired_fd fe) EPOLLIN (sv_ep (globals P')) s')))
             else if ws \<noteq> kWriteHalf then Some (Ret (- 1, P', s'))
             else Some (Ret (0, P', s')))
          else Some (Ret (0, P, s))))"

definition p_accept_inet :: "'w kernel \<Rightarrow> PServer \<Rightarrow> 'w proc \<Rightarrow> (PServer \<times> 'w proc) run" where
  "p_accept_inet k P s =
     (let (fd, ip_port, s1) = inet_server_accept k (inet_listen_fd (sv_ep (globals P))) [] s in
      if fd < 0 then Some (Exit (- 1))
      else let conn = new_InetConn (\<lambda>i. k_uninit k (unat READ_BUFFER_SIZE) (world s1) ! i) fd ip_port;
               s2 = snd (SetNonblock k conn s1);
               P' = p_file fd conn P
           in Some (Ret (P', snd (AddEvent k fd (EPOLLIN OR EPOLLET) (sv_ep (globals P')) s2))))"

text \<open>The pointer is overwritten; the object it named before is not deleted.\<close>

definition p_accept_unix :: "'w kernel \<Rightarrow> PServer \<Rightarrow> 'w proc \<Rightarrow> (PServer \<times> 'w proc) run" where
  "p_accept_unix k P s =
     run_bind (Some (unix_server_accept k (unix_listen_fd (sv_ep (globals P))) False s)) (\<lambda>((fd, _), s1).
       if fd < 0 then Some (Exit (- 1))
       else let (a, h) = new_unix (new_UnixConn k fd s1) (mem P);
                P' = P\<lparr>globals := (globals P)\<lparr>unix_conn_fd := fd\<rparr>, unix_ptr := Some a, mem := h\<rparr>
            in Some (Ret (P', snd (AddEvent k fd EPOLLIN (sv_ep (globals P')) s1))))"

definition p_drop_unix :: "'w kernel \<Rightarrow> int \<Rightarrow> PServer \<Rightarrow> 'w proc \<Rightarrow> (PServer \<times> 'w proc) run" where
  "p_drop_unix k fd P s =
     (let s' = snd (sys_close k fd (snd (DelEvent k fd (sv_ep (globals P)) s))) in
      run_bind (delete_unix (unix_ptr P) (mem P)) (\<lambda>h. Some (Ret (P\<lparr>unix_ptr := None, mem := h\<rparr>, s'))))"

definition p_drop_conn :: "'w kernel \<Rightarrow> int \<Rightarrow> PServer \<Rightarrow> 'w proc \<Rightarrow> (PServer \<times> 'w proc) run" where
  "p_drop_conn k fd P s =
     (let s' = snd (sys_close k fd (snd (DelEvent k fd (sv_ep (globals P)) s))) in
      case table P fd of
        None \<Rightarrow> Some (Ret (P, s'))
      | Some conn \<Rightarrow> run_bind (Some (delete_conn conn (mem P))) (\<lambda>h.
          Some (Ret (P\<lparr>table := (table P)(fd := None), mem := h\<rparr>, s'))))"

definition p_dispatch :: "'w kernel \<Rightarrow> FiredEvent \<Rightarrow> PServer \<Rightarrow> 'w proc \<Rightarrow> (PServer \<times> 'w proc) run" where
  "p_dispatch k fe P s =
     (if fired_fd fe = inet_listen_fd (sv_ep (globals P)) then p_accept_inet k P s
      else if fired_fd fe = unix_listen_fd (sv_ep (globals P)) then p_accept_unix k P s
      else if fired_fd fe = unix_conn_fd (globals P) then
        run_bind (p_handle_unix_event k fe P s) (\<lambda>(ret, P', s').
          if ret = - 1 then p_drop_unix k (fired_fd fe) P' s' else Some (Ret (P', s')))
      else
        run_bind (p_handle_net_event k fe P s) (\<lambda>(ret, P', s').
          if ret = - 1 then p_drop_conn k (fired_fd fe) P' s' else Some (Ret (P', s'))))"

text \<open>The trigger and the poll do not touch the objects.\<close>

inductive p_step :: "'w kernel \<Rightarrow> string \<Rightarrow> nat list \<times> PServer \<times> 'w proc
    \<Rightarrow> nat list \<times> PServer \<times> 'w proc \<Rightarrow> bool" for k path where
  p_Wait: "trigger k path (globals P) s = Some (Ret (sv1, s1)) \<Longrightarrow>
    wait_events k sv1 s1 = Some (Ret (ns, sv2, s2)) \<Longrightarrow>
    p_step k path ([], P, s) (ns, P\<lparr>globals := sv2\<rparr>, s2)"
| p_Event: "p_dispatch k (firedevent (sv_ep (globals P)) ! n) P s = Some (Ret (P', s')) \<Longrightarrow>
    p_step k path (n # ns, P, s) (ns, P', s')"

definition p_init :: "Server \<Rightarrow> PServer" where
  "p_init sv = \<lparr>globals = sv, table = Map.empty, unix_ptr = None,
     mem = \<lparr>conn_objs = Map.empty, unix_objs = Map.empty, blocks = {}, brk = 0\<rparr>\<rparr>"

inductive p_reachable :: "'w kernel \<Rightarrow> FiredEvent list \<Rightarrow> string list \<Rightarrow> 'w proc \<Rightarrow> string
    \<Rightarrow> nat list \<times> PServer \<times> 'w proc \<Rightarrow> bool" for k junk argv s0 where
  p_Start: "main_init k junk argv s0 = Some (Ret (path, sv, s)) \<Longrightarrow>
    p_reachable k junk argv s0 path ([], p_init sv, s)"
| p_Step: "p_reachable k junk argv s0 path cfg \<Longrightarrow> p_step k path cfg cfg' \<Longrightarrow>
    p_reachable k junk argv s0 path cfg'"

section \<open>The values behind the pointers\<close>

definition value_of :: "PServer \<Rightarrow> Server" where
  "value_of P = (globals P)\<lparr>
     unix_conn := Option.bind (unix_ptr P) (map_option fst \<circ> unix_objs (mem P)),
     sv_ep := (sv_ep (globals P))\<lparr>inet_conn_map := conn_objs (mem P) \<circ>\<^sub>m table P\<rparr>\<rparr>"

text \<open>
  No two entries of the table share an object, every pointer names an object, and the
  object of the Unix-domain connection owns its two blocks.
\<close>

definition heap_ok :: "PServer \<Rightarrow> bool" where
  "heap_ok P \<longleftrightarrow> inj_on (table P) (dom (table P)) \<and> ran (table P) \<subseteq> dom (conn_objs (mem P))
     \<and> (\<forall>a \<in> dom (conn_objs (mem P)) \<union> dom (unix_objs (mem P)). a < brk (mem P))
     \<and> (\<forall>a. unix_ptr P = Some a \<longrightarrow> (\<exists>u b1 b2. unix_objs (mem P) a = Some (u, b1, b2)
          \<and> b1 \<noteq> b2 \<and> b1 \<in> blocks (mem P) \<and> b2 \<in> blocks (mem P)))"

lemma value_of_simps [simp]:
  "unix_client (value_of P) = unix_client (globals P)"
  "unix_conn_fd (value_of P) = unix_conn_fd (globals P)"
  "unix_socket_init (value_of P) = unix_socket_init (globals P)"
  "inet_listen_fd (sv_ep (value_of P)) = inet_listen_fd (sv_ep (globals P))"
  "unix_listen_fd (sv_ep (value_of P)) = unix_listen_fd (sv_ep (globals P))"
  "epfd (sv_ep (value_of P)) = epfd (sv_ep (globals P))"
  "firedevent (sv_ep (value_of P)) = firedevent (sv_ep (globals P))"
  "inet_conn_map (sv_ep (value_of P)) = conn_objs (mem P) \<circ>\<^sub>m table P"
  by (simp_all add: value_of_def)

lemma table_entry:
  assumes "heap_ok P" and "table P fd = Some a"
  obtains c where "conn_objs (mem P) a = Some c" and "load_conn a (mem P) = Ret c"
    and "inet_conn_map (sv_ep (value_of P)) fd = Some c"
proof -
  have "a \<in> dom (conn_objs (mem P))" using assms by (auto simp: heap_ok_def intro: ranI)
  then show ?thesis using assms(2) that by (auto simp: load_conn_def)
qed

lemma table_distinct:
  "heap_ok P \<Longrightarrow> table P fd = Some a \<Longrightarrow> table P fd' = Some a \<Longrightarrow> fd' = fd"
  unfolding heap_ok_def by (metis domI inj_on_contraD)

lemma table_below: "heap_ok P \<Longrightarrow> table P fd = Some a \<Longrightarrow> a < brk (mem P)"
  by (auto simp: heap_ok_def intro: ranI)

text \<open>Changing an object in place changes one entry; so do creating and deleting.\<close>

lemma store_value:
  assumes "heap_ok P" and "table P fd = Some a" and "P' = P\<lparr>mem := store_conn a c (mem P)\<rparr>"
  shows "heap_ok P'" and "value_of P' = put_conn fd c (value_of P)"
proof -
  have "(conn_objs (store_conn a c (mem P)) \<circ>\<^sub>m table P) fd' = ((conn_objs (mem P) \<circ>\<^sub>m table P)(fd \<mapsto> c)) fd'" for fd'
    using assms(2) table_distinct [OF assms(1,2), of fd']
    by (cases "table P fd'") (auto simp: store_conn_def)
  then have "conn_objs (store_conn a c (mem P)) \<circ>\<^sub>m table P = (conn_objs (mem P) \<circ>\<^sub>m table P)(fd \<mapsto> c)" by (rule ext)
  then show "value_of P' = put_conn fd c (value_of P)"
    by (simp add: assms(3) value_of_def put_conn_def store_conn_def)
  have "dom (conn_objs (store_conn a c (mem P))) = insert a (dom (conn_objs (mem P)))" by (simp add: store_conn_def)
  then show "heap_ok P'"
    using assms(1) table_below [OF assms(1,2)] by (simp add: heap_ok_def assms(3) store_conn_def) blast
qed

lemma file_value:
  assumes "heap_ok P"
  shows "heap_ok (p_file fd c P)" and "value_of (p_file fd c P) = put_conn fd c (value_of P)"
proof -
  let ?h = "snd (new_conn c (mem P))"
  have b: "table P fd' \<noteq> Some (brk (mem P))" for fd' using table_below [OF assms] by blast
  have "(conn_objs ?h \<circ>\<^sub>m (table P)(fd \<mapsto> brk (mem P))) fd' = ((conn_objs (mem P) \<circ>\<^sub>m table P)(fd \<mapsto> c)) fd'" for fd'
    using b [of fd'] by (cases "table P fd'") (auto simp: new_conn_def)
  then have "conn_objs ?h \<circ>\<^sub>m (table P)(fd \<mapsto> brk (mem P)) = (conn_objs (mem P) \<circ>\<^sub>m table P)(fd \<mapsto> c)" by (rule ext)
  then show "value_of (p_file fd c P) = put_conn fd c (value_of P)"
    by (simp add: p_file_def new_conn_def value_of_def put_conn_def)
  show "heap_ok (p_file fd c P)"
    using assms b by (auto simp: heap_ok_def p_file_def new_conn_def inj_on_def ran_def dom_def less_SucI split: if_splits)
qed

lemma unix_entry:
  assumes "heap_ok P" and "unix_ptr P = Some a"
  obtains u b1 b2 where "unix_objs (mem P) a = Some (u, b1, b2)" and "load_unix a (mem P) = Ret u"
    and "unix_conn (value_of P) = Some u" and "b1 \<noteq> b2" and "b1 \<in> blocks (mem P)" and "b2 \<in> blocks (mem P)"
  using assms by (fastforce simp: heap_ok_def load_unix_def value_of_def)

lemma store_unix_value:
  assumes "heap_ok P" and "unix_ptr P = Some a" and "P' = P\<lparr>mem := store_unix a u (mem P)\<rparr>"
  shows "heap_ok P'" and "value_of P' = (value_of P)\<lparr>unix_conn := Some u\<rparr>"
  by (rule unix_entry [OF assms(1,2)], use assms in \<open>auto simp: heap_ok_def store_unix_def value_of_def\<close>)+

section \<open>Computations on pointers and on values\<close>

text \<open>
  The two computations agree: both run forever, exit or fault alike, or both return, and
  the results are related.
\<close>

abbreviation rel_run :: "('a \<Rightarrow> 'b \<Rightarrow> bool) \<Rightarrow> 'a run \<Rightarrow> 'b run \<Rightarrow> bool" where
  "rel_run R \<equiv> rel_option (rel_outcome R)"

lemma rel_run_bind:
  assumes "rel_run R m m'" and "\<And>x y. R x y \<Longrightarrow> rel_run S (f x) (g y)"
  shows "rel_run S (run_bind m f) (run_bind m' g)"
  using assms by (cases "(m, f)" rule: run_bind.cases; cases "(m', g)" rule: run_bind.cases) auto

definition same_state :: "PServer \<times> 'w proc \<Rightarrow> Server \<times> 'w proc \<Rightarrow> bool" where
  "same_state = (\<lambda>(P, s) (sv, t). heap_ok P \<and> sv = value_of P \<and> t = s)"

definition same_result :: "'r \<times> PServer \<times> 'w proc \<Rightarrow> 'r \<times> Server \<times> 'w proc \<Rightarrow> bool" where
  "same_result = (\<lambda>(r, p) (r', q). r' = r \<and> same_state p q)"

lemma same_state_iff [simp]: "same_state (P, s) (sv, t) \<longleftrightarrow> heap_ok P \<and> sv = value_of P \<and> t = s"
  by (simp add: same_state_def)

lemma same_result_iff [simp]: "same_result (r, p) (r', q) \<longleftrightarrow> r' = r \<and> same_state p q"
  by (simp add: same_result_def)

text \<open>Registering needs the descriptor of the epoll instance only.\<close>

lemma event_upd [simp]:
  "AddEvent k fd m (ep\<lparr>inet_conn_map := x\<rparr>) = AddEvent k fd m ep" "AddEvent k fd m (ep\<lparr>inet_listen_fd := l\<rparr>) = AddEvent k fd m ep"
  "ModEvent k fd m (ep\<lparr>inet_conn_map := x\<rparr>) = ModEvent k fd m ep" "DelEvent k fd (ep\<lparr>inet_conn_map := x\<rparr>) = DelEvent k fd ep"
  by (simp_all add: AddEvent_def ModEvent_def DelEvent_def fun_eq_iff)

lemma event_value [simp]:
  "AddEvent k fd m (sv_ep (value_of P)) = AddEvent k fd m (sv_ep (globals P))"
  "ModEvent k fd m (sv_ep (value_of P)) = ModEvent k fd m (sv_ep (globals P))"
  "DelEvent k fd (sv_ep (value_of P)) = DelEvent k fd (sv_ep (globals P))"
  by (simp_all add: value_of_def)

lemma event_put [simp]:
  "AddEvent k fd m (sv_ep (put_conn fd' c sv)) = AddEvent k fd m (sv_ep sv)"
  "ModEvent k fd m (sv_ep (put_conn fd' c sv)) = ModEvent k fd m (sv_ep sv)"
  by (simp_all add: put_conn_def)

lemma globals_file [simp]: "globals (p_file fd c P) = globals P"
  by (simp add: p_file_def new_conn_def)

lemma accept_inet_same: "heap_ok P \<Longrightarrow> rel_run same_state (p_accept_inet k P s) (accept_inet k (value_of P) s)"
  by (auto simp: p_accept_inet_def accept_inet_def Let_def file_value split: prod.splits)

lemma handle_net_same:
  assumes "heap_ok P"
  shows "rel_run same_result (p_handle_net_event k fe P s) (handle_net_event k fe (value_of P) s)"
proof (cases "table P (fired_fd fe)")
  case None
  then show ?thesis using assms by (simp add: p_handle_net_event_def handle_net_event_def)
next
  case (Some a)
  then obtain c where c: "load_conn a (mem P) = Ret c" "inet_conn_map (sv_ep (value_of P)) (fired_fd fe) = Some c"
    using table_entry [OF assms Some] by metis
  note S = store_value [OF assms Some refl]
  have g: "heap_ok (P\<lparr>globals := (globals P)\<lparr>unix_client := uc\<rparr>\<rparr>)"
      "value_of (P\<lparr>globals := (globals P)\<lparr>unix_client := uc\<rparr>\<rparr>) = (value_of P)\<lparr>unix_client := uc\<rparr>" for uc
    using assms by (simp_all add: heap_ok_def value_of_def)
  show ?thesis
    using Some c assms S g
    by (auto simp: p_handle_net_event_def handle_net_event_def Let_def simp del: value_of_simps(8)
      split: option.splits prod.splits intro!: rel_run_bind [where R = "(=)"] simp: option.rel_refl outcome.rel_refl)
qed

lemma delete_conn_value:
  assumes "heap_ok P" and "table P fd = Some a"
  obtains h where "delete_conn a (mem P) = Ret h"
    and "heap_ok (P\<lparr>table := (table P)(fd := None), mem := h\<rparr>)"
    and "value_of (P\<lparr>table := (table P)(fd := None), mem := h\<rparr>)
      = (value_of P)\<lparr>sv_ep := (sv_ep (value_of P))\<lparr>inet_conn_map := (inet_conn_map (sv_ep (value_of P)))(fd := None)\<rparr>\<rparr>"
proof -
  obtain c where c: "conn_objs (mem P) a = Some c" using table_entry [OF assms] by metis
  let ?h = "(mem P)\<lparr>conn_objs := (conn_objs (mem P))(a := None)\<rparr>" and ?t = "(table P)(fd := None)"
  have ne: "table P fd' = Some a \<Longrightarrow> fd' = fd" for fd' by (rule table_distinct [OF assms])
  have "(conn_objs ?h \<circ>\<^sub>m ?t) fd' = ((conn_objs (mem P) \<circ>\<^sub>m table P)(fd := None)) fd'" for fd'
    using ne [of fd'] by (cases "table P fd'") auto
  then have m: "conn_objs ?h \<circ>\<^sub>m ?t = (conn_objs (mem P) \<circ>\<^sub>m table P)(fd := None)" by (rule ext)
  have "inj_on ?t (dom ?t)" using assms(1) by (auto simp: heap_ok_def inj_on_def dom_def)
  moreover have "ran ?t \<subseteq> dom (conn_objs ?h)"
  proof
    fix b assume "b \<in> ran ?t"
    then obtain fd' where "fd' \<noteq> fd" "table P fd' = Some b" by (auto simp: ran_def split: if_splits)
    with assms(1) ne show "b \<in> dom (conn_objs ?h)" by (auto simp: heap_ok_def intro: ranI)
  qed
  ultimately have "heap_ok (P\<lparr>table := ?t, mem := ?h\<rparr>)" using assms(1) by (auto simp: heap_ok_def)
  with c m show ?thesis by (intro that [of ?h]) (simp_all add: delete_conn_def value_of_def)
qed

lemma drop_conn_same:
  assumes "heap_ok P"
  shows "rel_run same_state (p_drop_conn k fd P s) (Some (Ret (drop_conn k fd (value_of P) s)))"
proof (cases "table P fd")
  case None
  then have "(conn_objs (mem P) \<circ>\<^sub>m table P)(fd := None) = conn_objs (mem P) \<circ>\<^sub>m table P"
    by (simp add: fun_eq_iff)
  with None assms show ?thesis by (simp add: p_drop_conn_def drop_conn_def)
next
  case (Some a)
  obtain h where "delete_conn a (mem P) = Ret h" "heap_ok (P\<lparr>table := (table P)(fd := None), mem := h\<rparr>)"
    "value_of (P\<lparr>table := (table P)(fd := None), mem := h\<rparr>)
      = (value_of P)\<lparr>sv_ep := (sv_ep (value_of P))\<lparr>inet_conn_map := (inet_conn_map (sv_ep (value_of P)))(fd := None)\<rparr>\<rparr>"
    by (rule delete_conn_value [OF assms Some])
  with Some show ?thesis by (simp add: p_drop_conn_def drop_conn_def Let_def)
qed

lemma accept_unix_same:
  assumes "heap_ok P"
  shows "rel_run same_state (p_accept_unix k P s) (accept_unix k (value_of P) s)"
proof -
  let ?new = "\<lambda>u fd. P\<lparr>globals := (globals P)\<lparr>unix_conn_fd := fd\<rparr>, unix_ptr := Some (fst (new_unix u (mem P))),
    mem := snd (new_unix u (mem P))\<rparr>"
  have "heap_ok (?new u fd) \<and> value_of (?new u fd) = (value_of P)\<lparr>unix_conn_fd := fd, unix_conn := Some u\<rparr>" for u fd
    using assms by (auto simp: heap_ok_def value_of_def new_unix_def intro: trans_less_add1)
  then show ?thesis
    unfolding p_accept_unix_def accept_unix_def
    by (intro rel_run_bind [where R = "(=)"])
      (auto simp: Let_def case_prod_beta outcome.rel_refl)
qed

lemma drop_unix_same:
  assumes "heap_ok P"
  shows "rel_run same_state (p_drop_unix k fd P s) (Some (Ret (drop_unix k fd (value_of P) s)))"
proof (cases "unix_ptr P")
  case None
  with assms show ?thesis
    by (simp add: p_drop_unix_def drop_unix_def delete_unix_def) (simp add: value_of_def heap_ok_def)
next
  case (Some a)
  from assms Some show ?thesis
    by (rule unix_entry) (use assms Some in
      \<open>auto simp: p_drop_unix_def drop_unix_def delete_unix_def free_block_def heap_ok_def value_of_def Let_def\<close>)
qed

text \<open>The receiving side: the epoll object of the values has the table of the values.\<close>

lemma listen_msg_same:
  assumes "heap_ok P" and "value_of P = sv\<lparr>unix_conn := Some u\<rparr>"
  shows "rel_outcome (\<lambda>(b, P', s') (b', ep', t'). b' = b \<and> heap_ok P' \<and> t' = s'
      \<and> value_of P' = sv\<lparr>unix_conn := Some u, sv_ep := ep'\<rparr>)
    (p_HandleListenFdMsg k v fd buf P s) (HandleListenFdMsg k v fd buf (sv_ep sv) s)"
proof -
  have ep: "sv_ep sv = (sv_ep (globals P))\<lparr>inet_conn_map := conn_objs (mem P) \<circ>\<^sub>m table P\<rparr>"
    using arg_cong [OF assms(2), of sv_ep] by (simp add: value_of_def)
  have val: "value_of (P\<lparr>globals := (globals P)\<lparr>sv_ep := (sv_ep (globals P))\<lparr>inet_listen_fd := fd\<rparr>\<rparr>\<rparr>)
      = sv\<lparr>unix_conn := Some u, sv_ep := (sv_ep sv)\<lparr>inet_listen_fd := fd\<rparr>\<rparr>"
  proof -
    have "value_of (P\<lparr>globals := (globals P)\<lparr>sv_ep := (sv_ep (globals P))\<lparr>inet_listen_fd := fd\<rparr>\<rparr>\<rparr>)
        = (value_of P)\<lparr>sv_ep := (sv_ep sv)\<lparr>inet_listen_fd := fd\<rparr>\<rparr>" by (simp add: ep value_of_def)
    then show ?thesis by (simp add: assms(2))
  qed
  have h: "heap_ok (P\<lparr>globals := g\<rparr>)" for g using assms(1) by (simp add: heap_ok_def)
  show ?thesis
    using val h by (simp add: p_HandleListenFdMsg_def HandleListenFdMsg_def attachInetListenFd_def Let_def case_prod_beta ep)
qed

lemma session_msg_same:
  assumes "heap_ok P" and "value_of P = sv\<lparr>unix_conn := Some u\<rparr>"
  shows "rel_outcome (\<lambda>(b, P', s') (b', ep', t'). b' = b \<and> heap_ok P' \<and> t' = s'
      \<and> value_of P' = sv\<lparr>unix_conn := Some u, sv_ep := ep'\<rparr>)
    (p_HandleSessionFdMsg k v fd buf P s) (HandleSessionFdMsg k v fd buf (sv_ep sv) s)"
proof -
  have ep: "sv_ep sv = sv_ep (value_of P)" using arg_cong [OF assms(2), of sv_ep] by simp
  have val: "value_of (p_file fd c P) = sv\<lparr>unix_conn := Some u, sv_ep := (sv_ep sv)\<lparr>inet_conn_map := (inet_conn_map (sv_ep sv))(fd \<mapsto> c)\<rparr>\<rparr>" for c
    using file_value(2) [OF assms(1)] by (simp add: assms(2) put_conn_def)
  show ?thesis
    using file_value(1) [OF assms(1)] val
    by (simp add: p_HandleSessionFdMsg_def HandleSessionFdMsg_def Let_def case_prod_beta ep)
qed

lemma dispatch_message_same:
  assumes "heap_ok P" and "value_of P = sv\<lparr>unix_conn := Some u\<rparr>"
  shows "rel_outcome (\<lambda>(st, P', s') (st', u', ep', t'). st' = st \<and> u' = u \<and> heap_ok P' \<and> t' = s'
      \<and> value_of P' = sv\<lparr>unix_conn := Some u, sv_ep := ep'\<rparr>)
    (p_dispatch_message k u str P s) (dispatch_message k u str (sv_ep sv) s)"
proof -
  have "value_of P = sv\<lparr>unix_conn := Some u, sv_ep := sv_ep sv\<rparr>" using assms(2) by simp
  then show ?thesis
    using assms(1) listen_msg_same [OF assms, of k u "uc_cmptr u" "drop 4 str" s]
      session_msg_same [OF assms, of k u "uc_cmptr u" "drop 4 str" s]
    by (auto simp: p_dispatch_message_def dispatch_message_def Let_def elim!: outcome.rel_cases)
qed

lemma handle_unix_same:
  assumes "heap_ok P"
  shows "rel_run same_result (p_handle_unix_event k fe P s) (handle_unix_event k fe (value_of P) s)"
proof (cases "unix_ptr P")
  case None
  then have "unix_conn (value_of P) = None" by (simp add: value_of_def)
  with None assms show ?thesis by (simp add: p_handle_unix_event_def handle_unix_event_def)
next
  case (Some a)
  obtain u where u: "load_unix a (mem P) = Ret u" "unix_conn (value_of P) = Some u"
    by (rule unix_entry [OF assms Some])
  have "rel_run (\<lambda>(st, P', s') (st', u', ep', t'). st' = st \<and> heap_ok P' \<and> t' = s'
      \<and> value_of P' = (value_of P)\<lparr>unix_conn := Some u', sv_ep := ep'\<rparr>)
    (p_processRecv k a P s) (processRecv k u (sv_ep (value_of P)) s)"
  proof (cases "recv_loop k u CONTROLLEN [] 0 s")
    case (Some r)
    obtain x u' s' where r: "r = (x, u', s')" by (cases r)
    note S = store_unix_value [OF assms \<open>unix_ptr P = Some a\<close> refl, of u']
    from dispatch_message_same [OF S] have "rel_outcome (\<lambda>(st, P', s') (st', u'', ep', t'). st' = st \<and> heap_ok P' \<and> t' = s'
        \<and> value_of P' = (value_of P)\<lparr>unix_conn := Some u'', sv_ep := ep'\<rparr>)
      (p_dispatch_message k u' str (P\<lparr>mem := store_unix a u' (mem P)\<rparr>) s') (dispatch_message k u' str (sv_ep (value_of P)) s')" for str
      by (rule outcome.rel_mono_strong) auto
    with S r u(1) Some show ?thesis by (cases x) (simp_all add: p_processRecv_def processRecv_def)
  qed (use u(1) in \<open>simp add: p_processRecv_def processRecv_def\<close>)
  with Some u(2) assms show ?thesis
    unfolding p_handle_unix_event_def handle_unix_event_def
    by (auto intro!: rel_run_bind)
qed

lemma dispatch_same:
  assumes "heap_ok P"
  shows "rel_run same_state (p_dispatch k fe P s) (dispatch k fe (value_of P) s)"
  unfolding p_dispatch_def dispatch_def
  using accept_inet_same [OF assms] accept_unix_same [OF assms] drop_unix_same drop_conn_same
  by (auto intro!: rel_run_bind [OF handle_unix_same [OF assms]] rel_run_bind [OF handle_net_same [OF assms]])

section \<open>Runs\<close>

lemma heap_ok_globals [simp]: "heap_ok (P\<lparr>globals := g\<rparr>) = heap_ok P"
  by (simp add: heap_ok_def)

definition overlay :: "UnixConn option \<Rightarrow> (int \<rightharpoonup> InetConn) \<Rightarrow> Server \<Rightarrow> Server" where
  "overlay u m sv = sv\<lparr>unix_conn := u, sv_ep := (sv_ep sv)\<lparr>inet_conn_map := m\<rparr>\<rparr>"

lemma value_of_overlay:
  "value_of P = overlay (Option.bind (unix_ptr P) (map_option fst \<circ> unix_objs (mem P))) (conn_objs (mem P) \<circ>\<^sub>m table P) (globals P)"
  by (simp add: value_of_def overlay_def)

lemma run_bind_outcome:
  "run_bind (Some r) f = (case r of Ret x \<Rightarrow> f x | Exit n \<Rightarrow> Some (Exit n) | Fault e \<Rightarrow> Some (Fault e))"
  by (cases r) simp_all

lemma trigger_overlay:
  "trigger k path (overlay u m sv) s = map_option (map_outcome (map_prod (overlay u m) id)) (trigger k path sv s)"
  by (simp add: trigger_def overlay_def detachInetListenFd_def Let_def run_bind_outcome
      split: prod.split option.split outcome.split)

lemma wait_overlay:
  "wait_events k (overlay u m sv) s
    = map_option (map_outcome (\<lambda>(ns, sv', s'). (ns, overlay u m sv', s'))) (wait_events k sv s)"
  by (simp add: wait_events_def Poll_def overlay_def Let_def split: prod.split option.split)

lemma trigger_same:
  "trigger k path (globals P) s = Some (Ret (sv1, s1)) \<Longrightarrow>
   trigger k path (value_of P) s = Some (Ret (value_of (P\<lparr>globals := sv1\<rparr>), s1))"
  by (simp add: value_of_overlay trigger_overlay)

lemma wait_same:
  "wait_events k (globals P) s = Some (Ret (ns, sv1, s1)) \<Longrightarrow>
   wait_events k (value_of P) s = Some (Ret (ns, value_of (P\<lparr>globals := sv1\<rparr>), s1))"
  by (simp add: value_of_overlay wait_overlay)

lemma same_stateD: "rel_run same_state m m' \<Longrightarrow> m = Some (Ret (P, s)) \<Longrightarrow> heap_ok P \<and> m' = Some (Ret (value_of P, s))"
  by (auto elim!: option.rel_cases outcome.rel_cases)

lemma p_step_same:
  assumes "p_step k path (ns, P, s) (ns', P', s')" and "heap_ok P"
  shows "heap_ok P' \<and> server_step k path (ns, value_of P, s) (ns', value_of P', s')"
  using assms(1)
proof (cases rule: p_step.cases)
  case (p_Wait sv1 s1 sv2)
  from server_step.Wait [OF trigger_same [OF p_Wait(3)] wait_same [of k "P\<lparr>globals := sv1\<rparr>"]] p_Wait assms(2)
  show ?thesis by simp
next
  case (p_Event n)
  from same_stateD [OF dispatch_same [OF assms(2)] p_Event(2)] p_Event(1) show ?thesis
    by (auto intro: server_step.Event)
qed

definition cfg_value :: "nat list \<times> PServer \<times> 'w proc \<Rightarrow> nat list \<times> Server \<times> 'w proc" where
  "cfg_value = (\<lambda>(ns, P, s). (ns, value_of P, s))"

definition cfg_ok :: "nat list \<times> PServer \<times> 'w proc \<Rightarrow> bool" where
  "cfg_ok = (\<lambda>(ns, P, s). heap_ok P)"

interpretation heap_sim: simulation "p_step k path" "server_step k path" cfg_value cfg_ok for k path
  by unfold_locales (auto simp: cfg_value_def cfg_ok_def dest: p_step_same)

lemma p_init_value:
  assumes "main_init k junk argv s0 = Some (Ret (path, sv, s))"
  shows "heap_ok (p_init sv)" and "value_of (p_init sv) = sv"
  using main_init_state [OF assms] by (simp_all add: p_init_def heap_ok_def value_of_def map_comp_empty)

lemma p_reachable_run:
  "p_reachable k junk argv s0 path cfg \<Longrightarrow>
    \<exists>sv s. main_init k junk argv s0 = Some (Ret (path, sv, s)) \<and> (p_step k path)\<^sup>*\<^sup>* ([], p_init sv, s) cfg"
  by (induction rule: p_reachable.induct) (blast intro: rtranclp.rtrancl_into_rtrancl)+

lemma reachable_run:
  "(server_step k path)\<^sup>*\<^sup>* cfg cfg' \<Longrightarrow> reachable k junk argv s0 path cfg \<Longrightarrow> reachable k junk argv s0 path cfg'"
  by (induction rule: rtranclp_induct) (auto intro: reachable.Step)

lemma p_reachable_same:
  assumes "p_reachable k junk argv s0 path (ns, P, s)"
  shows "heap_ok P \<and> reachable k junk argv s0 path (ns, value_of P, s)"
proof -
  obtain sv s1 where i: "main_init k junk argv s0 = Some (Ret (path, sv, s1))"
    and r: "(p_step k path)\<^sup>*\<^sup>* ([], p_init sv, s1) (ns, P, s)" using p_reachable_run [OF assms] by blast
  from heap_sim.sim_run [OF r] p_init_value [OF i] reachable_run [OF _ reachable.Start [OF i]] show ?thesis
    by (auto simp: cfg_value_def cfg_ok_def)
qed

declare map_outcome_Ret [simp]

text \<open>Conversely every run on values is one on pointers.\<close>

lemma p_step_complete:
  assumes "server_step k path (ns, value_of P, s) (ns', sv', s')" and "heap_ok P"
  shows "\<exists>P'. p_step k path (ns, P, s) (ns', P', s') \<and> value_of P' = sv'"
  using assms(1)
proof (cases rule: server_step.cases)
  case (Wait sv1 s1)
  obtain g1 where g1: "trigger k path (globals P) s = Some (Ret (g1, s1))" "sv1 = value_of (P\<lparr>globals := g1\<rparr>)"
    using Wait(2) by (auto simp: value_of_overlay trigger_overlay)
  then obtain g2 where "wait_events k g1 s1 = Some (Ret (ns', g2, s'))" "sv' = value_of (P\<lparr>globals := g2\<rparr>)"
    using Wait(3) by (auto simp: value_of_overlay wait_overlay)
  with g1(1) Wait(1) show ?thesis by (blast intro: p_step.p_Wait)
next
  case (Event n)
  from dispatch_same [OF assms(2), of k "firedevent (sv_ep (globals P)) ! n" s] Event(2)
  obtain P' where "p_dispatch k (firedevent (sv_ep (globals P)) ! n) P s = Some (Ret (P', s'))" "value_of P' = sv'"
    by (auto elim!: option.rel_cases outcome.rel_cases)
  with Event(1) show ?thesis by (blast intro: p_step.p_Event)
qed

lemma p_reachable_complete:
  "reachable k junk argv s0 path cfg \<Longrightarrow> \<exists>cfg'. p_reachable k junk argv s0 path cfg' \<and> cfg_value cfg' = cfg"
proof (induction rule: reachable.induct)
  case (Start path sv s)
  from p_reachable.p_Start [OF Start] p_init_value [OF Start] show ?case
    by (intro exI [of _ "([], p_init sv, s)"]) (simp add: cfg_value_def)
next
  case (Step path cfg cfg1)
  then obtain ns P s where r: "p_reachable k junk argv s0 path (ns, P, s)" and cfg: "cfg = (ns, value_of P, s)"
    by (auto simp: cfg_value_def)
  obtain ns' sv' s' where cfg1: "cfg1 = (ns', sv', s')" by (metis prod_cases3)
  from p_step_complete [OF Step(2) [unfolded cfg cfg1]] p_reachable_same [OF r] obtain P' where
    "p_step k path (ns, P, s) (ns', P', s')" "value_of P' = sv'" by blast
  with r show ?case by (intro exI [of _ "(ns', P', s')"]) (auto simp: cfg_value_def cfg1 intro: p_reachable.p_Step)
qed

lemma GetRequest_faults: "GetRequest k c s \<noteq> Fault UseAfterFree"
proof -
  have r: "read_step k n c s \<noteq> Fault UseAfterFree" for n c s
    by (simp add: read_step_def Let_def split: prod.split option.split)
  have "GetHeader k c s \<noteq> Fault UseAfterFree" for c s
    using r by (auto simp: GetHeader_def split: outcome.split prod.split sum.split)
  moreover have "GetBody k c s \<noteq> Fault UseAfterFree" for c s
    using r by (auto simp: GetBody_def Let_def split: outcome.split prod.split sum.split)
  ultimately show ?thesis by (auto simp: GetRequest_def split: outcome.split prod.split option.split)
qed

lemma processRecv_faults: "processRecv k u ep s \<noteq> Some (Fault UseAfterFree)"
proof -
  have "HandleListenFdMsg k u fd buf ep s \<noteq> Fault UseAfterFree" "HandleSessionFdMsg k u fd buf ep s \<noteq> Fault UseAfterFree"
    for u fd buf s
    by (simp_all add: HandleListenFdMsg_def HandleSessionFdMsg_def Let_def case_prod_beta)
  then have "dispatch_message k u str ep s \<noteq> Fault UseAfterFree" for u str s
    by (auto simp: dispatch_message_def Let_def split: outcome.split prod.split)
  then show ?thesis by (auto simp: processRecv_def split: option.split prod.split sum.split)
qed

lemma dispatch_faults: "dispatch k fe sv s \<noteq> Some (Fault UseAfterFree)"
proof -
  have "unix_server_accept k l b s \<noteq> Fault UseAfterFree" for l b s
    by (simp add: unix_server_accept_def Let_def split: option.split prod.split sockaddr.split)
  then have "accept_unix k sv s \<noteq> Some (Fault UseAfterFree)"
    by (auto simp: accept_unix_def run_bind_Fault Let_def)
  moreover have "accept_inet k sv s \<noteq> Some (Fault UseAfterFree)"
    by (simp add: accept_inet_def Let_def split: prod.split)
  moreover have "handle_unix_event k fe sv s \<noteq> Some (Fault UseAfterFree)"
    using processRecv_faults by (auto simp: handle_unix_event_def run_bind_Fault split: option.split)
  moreover have "handle_net_event k fe sv s \<noteq> Some (Fault UseAfterFree)"
    using GetRequest_faults by (auto simp: handle_net_event_def run_bind_Fault Let_def split: option.split prod.split)
  ultimately show ?thesis by (auto simp: dispatch_def run_bind_Fault)
qed

section \<open>Which objects live\<close>

text \<open>Nothing is allocated but the objects of the table.\<close>

definition no_leak :: "PServer \<Rightarrow> bool" where
  "no_leak P \<longleftrightarrow> dom (conn_objs (mem P)) = ran (table P)
     \<and> unix_objs (mem P) = Map.empty \<and> blocks (mem P) = {} \<and> unix_ptr P = None"

lemma no_leak_globals [simp]: "no_leak (P\<lparr>globals := g\<rparr>) = no_leak P"
  by (simp add: no_leak_def)

lemma no_leak_file:
  assumes "heap_ok P" and "no_leak P" and "table P fd = None"
  shows "no_leak (p_file fd c P)"
proof -
  have "ran ((table P)(fd \<mapsto> brk (mem P))) = insert (brk (mem P)) (ran (table P))"
    using assms(3) by (simp add: ran_map_upd)
  with assms(2) show ?thesis by (simp add: no_leak_def p_file_def new_conn_def)
qed

lemma no_leak_net:
  assumes "heap_ok P" and "no_leak P" and "p_handle_net_event k fe P s = Some (Ret (r, P', s'))"
  shows "no_leak P' \<and> table P' = table P"
proof (cases "table P (fired_fd fe)")
  case None
  then show ?thesis using assms(2,3) by (auto simp: p_handle_net_event_def split: if_splits)
next
  case (Some a)
  then obtain c where c: "load_conn a (mem P) = Ret c" using table_entry [OF assms(1) Some] by metis
  have "a \<in> ran (table P)" using Some by (rule ranI)
  then have "no_leak (P\<lparr>mem := store_conn a c' (mem P)\<rparr>)" for c'
    using assms(2) by (auto simp: no_leak_def store_conn_def)
  then show ?thesis
    using assms(2,3) Some c by (auto simp: p_handle_net_event_def Let_def split: if_splits option.splits prod.splits)
qed

lemma no_leak_drop:
  assumes "heap_ok P" and "no_leak P" and "p_drop_conn k fd P s = Some (Ret (P', s'))"
  shows "no_leak P'"
proof (cases "table P fd")
  case None
  then show ?thesis using assms(2,3) by (auto simp: p_drop_conn_def Let_def)
next
  case (Some a)
  then obtain c where c: "conn_objs (mem P) a = Some c" using table_entry [OF assms(1) Some] by metis
  have "ran ((table P)(fd := None)) = ran (table P) - {a}"
  proof
    show "ran ((table P)(fd := None)) \<subseteq> ran (table P) - {a}"
      using table_distinct [OF assms(1) Some] by (auto simp: ran_def split: if_splits)
    show "ran (table P) - {a} \<subseteq> ran ((table P)(fd := None))"
    proof
      fix b assume "b \<in> ran (table P) - {a}"
      then obtain fd' where "table P fd' = Some b" "fd' \<noteq> fd" using Some by (force simp: ran_def)
      then show "b \<in> ran ((table P)(fd := None))" by (intro ranI [of _ fd']) simp
    qed
  qed
  moreover have "P' = P\<lparr>table := (table P)(fd := None), mem := (mem P)\<lparr>conn_objs := (conn_objs (mem P))(a := None)\<rparr>\<rparr>"
    using assms(3) Some c by (simp add: p_drop_conn_def delete_conn_def Let_def)
  ultimately show ?thesis using assms(2) by (simp add: no_leak_def)
qed

text \<open>A number that \<open>accept\<close> returns is not in use, so it is not in the table.\<close>

context session_kernel
begin

lemma no_leak_accept:
  assumes "heap_ok P" and "no_leak P" and "distinct_live (sv_ep (value_of P)) s"
    and "p_accept_inet k P s = Some (Ret (P', s'))"
  shows "no_leak P'"
proof -
  obtain fd a t where t: "syscall (k_accept k (inet_listen_fd (sv_ep (globals P)))) s = (Some (fd, a), t)"
    using assms(4) by (auto simp: p_accept_inet_def inet_server_accept_def Let_def split: prod.splits option.splits if_splits)
  then have "\<not> live fd (world s)" using accept_fresh syscall_SomeD [OF t] by blast
  moreover have "live fd (world s)" if "table P fd = Some b" for b
    using table_entry [OF assms(1) that] assms(3) by (metis distinct_live_def)
  ultimately have "table P fd = None" by (cases "table P fd") auto
  moreover obtain c where "P' = p_file fd c P"
    using assms(4) t by (auto simp: p_accept_inet_def inet_server_accept_def Let_def split: if_splits)
  ultimately show ?thesis using no_leak_file [OF assms(1,2)] by simp
qed

lemma no_leak_reachable:
  "p_reachable k junk argv s0 path cfg \<Longrightarrow> path \<noteq> ''-u'' \<Longrightarrow> no_leak (fst (snd cfg))"
proof (induction rule: p_reachable.induct)
  case (p_Start path sv s)
  show ?case by (simp add: no_leak_def p_init_def)
next
  case (p_Step path cfg cfg')
  obtain ns P s ns' P' s' where cfg: "cfg = (ns, P, s)" "cfg' = (ns', P', s')" by (metis prod_cases3)
  have S: "heap_ok P" "settled (ns, value_of P, s)"
    using p_reachable_same [OF p_Step(1) [unfolded cfg]] reachable_settled p_Step(4) by blast+
  have N: "no_leak P" using p_Step(3,4) by (simp add: cfg)
  from p_Step(2) [unfolded cfg] show ?case
  proof (cases rule: p_step.cases)
    case (p_Wait sv1 s1 sv2)
    then show ?thesis using N by (simp add: cfg)
  next
    case (p_Event n)
    let ?fe = "firedevent (sv_ep (globals P)) ! n"
    from S(2) p_Event(1) have I: "unix_listen_fd (sv_ep (globals P)) = - 1" "unix_conn_fd (globals P) = - 1"
        "0 \<le> fired_fd ?fe" and D: "distinct_live (sv_ep (value_of P)) s"
      by (auto simp: settled_def serving_def fired_ok_def Let_def)
    consider "p_accept_inet k P s = Some (Ret (P', s'))"
      | ret P1 s1 where "p_handle_net_event k ?fe P s = Some (Ret (ret, P1, s1))"
          and "(if ret = - 1 then p_drop_conn k (fired_fd ?fe) P1 s1 else Some (Ret (P1, s1))) = Some (Ret (P', s'))"
      using p_Event(2) I by (auto simp: p_dispatch_def split: if_splits)
    then show ?thesis
    proof cases
      case 1
      with no_leak_accept [OF S(1) N D] show ?thesis by (simp add: cfg)
    next
      case 2
      have "heap_ok P1" using handle_net_same [OF S(1), of k ?fe s] 2(1) by (auto elim!: option.rel_cases outcome.rel_cases)
      with no_leak_net [OF S(1) N 2(1)] no_leak_drop [of P1] 2(2) show ?thesis by (auto simp: cfg split: if_splits)
    qed
  qed
qed

end

text \<open>
  An object of a Unix-domain connection that no pointer names is never deleted; accepting
  a second connection while the first is open makes the first such an object.
\<close>

definition orphan :: "addr \<Rightarrow> PServer \<Rightarrow> bool" where
  "orphan a P \<longleftrightarrow> unix_objs (mem P) a \<noteq> None \<and> unix_ptr P \<noteq> Some a"

lemma orphan_globals [simp]: "orphan a (P\<lparr>globals := g\<rparr>) = orphan a P"
  by (simp add: orphan_def)

lemma orphan_net:
  assumes "p_handle_net_event k fe P s = Some (Ret (r, P', s'))" and "orphan a P"
  shows "orphan a P'"
  using assms
  by (auto simp: p_handle_net_event_def Let_def run_bind_outcome store_conn_def orphan_def
      split: if_splits option.splits prod.splits outcome.splits)

lemma orphan_msg:
  assumes "p_dispatch_message k u str P s = Ret (st, P', s')" and "orphan a P"
  shows "orphan a P'"
proof -
  have "orphan a P'" if "p_HandleListenFdMsg k u fd buf P s = Ret (r, P', s')" for fd buf r
    using that assms(2) by (auto simp: p_HandleListenFdMsg_def)
  moreover have "orphan a P'" if "p_HandleSessionFdMsg k u fd buf P s = Ret (r, P', s')" for fd buf r
    using that assms(2) by (auto simp: p_HandleSessionFdMsg_def p_file_def new_conn_def orphan_def Let_def case_prod_beta split: if_splits)
  ultimately show ?thesis using assms by (auto simp: p_dispatch_message_def Let_def split: if_splits)
qed

lemma orphan_unix:
  assumes "p_handle_unix_event k fe P s = Some (Ret (r, P', s'))" and "orphan a P"
  shows "orphan a P'"
proof -
  have "orphan a (P\<lparr>mem := store_unix b u (mem P)\<rparr>)" for b u
    using assms(2) by (auto simp: orphan_def store_unix_def)
  then have "orphan a P'" if r: "p_processRecv k b P s = Some (Ret (st, P', s'))" for b st
  proof -
    obtain u x u' s1 where "load_unix b (mem P) = Ret u" and l: "recv_loop k u CONTROLLEN [] 0 s = Some (x, u', s1)"
      using r by (auto simp: p_processRecv_def split: option.splits)
    with r \<open>\<And>b u. orphan a (P\<lparr>mem := store_unix b u (mem P)\<rparr>)\<close> show ?thesis
      by (cases x) (auto simp: p_processRecv_def intro: orphan_msg)
  qed
  with assms show ?thesis by (auto simp: p_handle_unix_event_def split: if_splits option.splits)
qed

lemma orphan_accept_unix:
  assumes "heap_ok P" and "p_accept_unix k P s = Some (Ret (P', s'))" and "unix_objs (mem P) a \<noteq> None"
  shows "orphan a P'"
proof -
  have "a < brk (mem P)" using assms(1,3) by (auto simp: heap_ok_def)
  with assms(2,3) show ?thesis
    by (auto simp: p_accept_unix_def new_unix_def orphan_def Let_def split: if_splits)
qed

lemma orphan_drop_unix:
  "p_drop_unix k fd P s = Some (Ret (P', s')) \<Longrightarrow> orphan a P \<Longrightarrow> orphan a P'"
  by (auto simp: p_drop_unix_def delete_unix_def free_block_def orphan_def Let_def run_bind_outcome
      split: option.splits outcome.splits if_splits prod.splits)

lemma orphan_drop_conn:
  "p_drop_conn k fd P s = Some (Ret (P', s')) \<Longrightarrow> orphan a P \<Longrightarrow> orphan a P'"
  by (auto simp: p_drop_conn_def delete_conn_def orphan_def Let_def split: option.splits)

lemma orphan_step:
  assumes "p_step k path (ns, P, s) (ns', P', s')" and "heap_ok P" and "orphan a P"
  shows "orphan a P'"
  using assms(1)
proof (cases rule: p_step.cases)
  case (p_Event n)
  have "unix_objs (mem P) a \<noteq> None" using assms(3) by (simp add: orphan_def)
  moreover have "orphan a P'" if "p_accept_inet k P s = Some (Ret (P', s'))"
    using that assms(3) by (auto simp: p_accept_inet_def p_file_def new_conn_def orphan_def Let_def split: prod.splits if_splits)
  ultimately show ?thesis
    using p_Event(2) assms(3) orphan_accept_unix [OF assms(2)] orphan_net orphan_unix orphan_drop_unix orphan_drop_conn
    by (fastforce simp: p_dispatch_def split: if_splits)
qed (use assms(3) in simp)

interpretation orphan_sim: simulation "p_step k path" "server_step k path" cfg_value "\<lambda>(ns, P, s). heap_ok P \<and> orphan a P"
  for k path a
  by unfold_locales (auto simp: cfg_value_def dest: p_step_same orphan_step)

section \<open>Properties\<close>

text \<open>
  C6: the server on values and the server on pointers are the same program.  The states that
  the server of \<open>server.cc\<close> reaches with its objects on the heap are, seen through the
  pointers, exactly the states that the server on values reaches; so every theorem about
  reachable servers holds for the program with pointers.
\<close>

theorem pointers_equal_values:
  "reachable k junk argv s0 path (ns, sv, s)
    \<longleftrightarrow> (\<exists>P. p_reachable k junk argv s0 path (ns, P, s) \<and> value_of P = sv)"
  using p_reachable_complete [of k junk argv s0 path "(ns, sv, s)"] p_reachable_same [of k junk argv s0 path ns _ s]
  by (auto simp: cfg_value_def)

text \<open>
  C7: no pointer dangles.  In every reachable state no handler, for no event whatsoever,
  follows a pointer to an object that has been deleted, deletes an object twice or releases
  a block twice; an event has the outcome it has on values.
\<close>

theorem no_dangling_pointer:
  assumes "p_reachable k junk argv s0 path (ns, P, s)"
  shows "p_dispatch k fe P s \<noteq> Some (Fault UseAfterFree)
    \<and> map_option (map_outcome (\<lambda>(P', s'). (value_of P', s'))) (p_dispatch k fe P s) = dispatch k fe (value_of P) s"
proof -
  have ok: "heap_ok P" using p_reachable_same [OF assms] by simp
  from dispatch_same [OF ok, of k fe s]
  have "map_option (map_outcome (\<lambda>(P', s'). (value_of P', s'))) (p_dispatch k fe P s) = dispatch k fe (value_of P) s"
    by (auto elim!: option.rel_cases outcome.rel_cases)
  with dispatch_faults [of k fe "value_of P" s] show ?thesis by auto
qed

theorem no_dangling_pointer_witness:
  "\<exists>P s P' s'. p_reachable sim_fd_kernel [] [''x''] echo_proc ''x'' ([], P, s) \<and> table P 7 \<noteq> None
    \<and> p_dispatch sim_fd_kernel (fire (EPOLLHUP, 7)) P s = Some (Ret (P', s')) \<and> table P' 7 = None"
proof -
  obtain sv s c where d: "reachable sim_fd_kernel [] [''x''] echo_proc ''x'' ([], sv, s)" "inet_conn_map (sv_ep sv) 7 = Some c"
    by (rule echo_demo)
  obtain P where P: "p_reachable sim_fd_kernel [] [''x''] echo_proc ''x'' ([], P, s)" "value_of P = sv"
    using p_reachable_complete [OF d(1)] by (auto simp: cfg_value_def)
  have t: "table P 7 \<noteq> None" using d(2) P(2) by (cases "table P 7") auto
  have I: "sim_session.settled ([], sv, s)" using sim_session.reachable_settled [OF d(1)] by simp
  have n: "inet_listen_fd (sv_ep sv) \<noteq> 7" using sim_session.settled_listen [OF I d(2)] by simp
  from I have u: "unix_listen_fd (sv_ep sv) = - 1" "unix_conn_fd sv = - 1" by (simp_all add: sim_session.settled_def serving_def)
  have "mask (fire (EPOLLHUP, 7)) AND EPOLLHUP \<noteq> 0" by (simp add: fire_def Let_def epoll_masks)
  then obtain sv' s' where "dispatch sim_fd_kernel (fire (EPOLLHUP, 7)) sv s = Some (Ret (sv', s'))" "inet_conn_map (sv_ep sv') 7 = None"
    using n u by (simp add: dispatch_def handle_net_event_def drop_conn_def)
  with no_dangling_pointer [OF P(1), of "fire (EPOLLHUP, 7)"] P(2) obtain P' where
      p: "p_dispatch sim_fd_kernel (fire (EPOLLHUP, 7)) P s = Some (Ret (P', s'))" "inet_conn_map (sv_ep (value_of P')) 7 = None"
    by auto
  have "heap_ok P'" using same_stateD [OF dispatch_same [OF conjunct1 [OF p_reachable_same [OF P(1)]]] p(1)] by simp
  then have "table P' 7 = None" using p(2) table_entry [of P' 7] by (cases "table P' 7") fastforce+
  with P(1) t p(1) show ?thesis by blast
qed

text \<open>
  C12: no session object is lost.  A server started as an inet server has in every reachable
  state exactly the connection objects that its table names, each under one number, and
  nothing of the hand-over's receiving side.
\<close>

theorem sessions_not_leaked:
  assumes "session_kernel k incoming outgoing patience interest live"
    and "p_reachable k junk argv s0 path (ns, P, s)" and "path \<noteq> ''-u''"
  shows "dom (conn_objs (mem P)) = ran (table P) \<and> inj_on (table P) (dom (table P))
    \<and> unix_objs (mem P) = Map.empty \<and> blocks (mem P) = {}"
  using session_kernel.no_leak_reachable [OF assms] p_reachable_same [OF assms(2)]
  by (simp add: no_leak_def heap_ok_def)

theorem sessions_not_leaked_witness:
  "\<exists>P s a. p_reachable sim_fd_kernel [] [''x''] echo_proc ''x'' ([], P, s) \<and> table P 7 = Some a
    \<and> dom (conn_objs (mem P)) = ran (table P) \<and> a \<in> dom (conn_objs (mem P))"
proof -
  obtain sv s c where d: "reachable sim_fd_kernel [] [''x''] echo_proc ''x'' ([], sv, s)" "inet_conn_map (sv_ep sv) 7 = Some c"
    by (rule echo_demo)
  obtain P where P: "p_reachable sim_fd_kernel [] [''x''] echo_proc ''x'' ([], P, s)" "value_of P = sv"
    using p_reachable_complete [OF d(1)] by (auto simp: cfg_value_def)
  obtain a where a: "table P 7 = Some a" using d(2) P(2) by (cases "table P 7") auto
  from sessions_not_leaked [OF sim_session.session_kernel_axioms P(1)] P(1) a show ?thesis by (blast intro: ranI)
qed

text \<open>
  C25: the object of a Unix-domain connection can be lost.  If a second predecessor connects
  while the first is still connected, the object of the first is no longer named by a
  pointer and stays allocated for as long as the server runs, so that its destructor, which
  releases its two buffers, never runs.
\<close>

theorem unix_conn_leaked:
  assumes "p_reachable k junk argv s0 path (ns, P, s)" and "unix_ptr P = Some a"
    and "p_accept_unix k P s = Some (Ret (P1, s1))" and "(p_step k path)\<^sup>*\<^sup>* (ns1, P1, s1) (ns2, P2, s2)"
  shows "a \<in> dom (unix_objs (mem P2)) \<and> unix_ptr P2 \<noteq> Some a"
proof -
  have ok: "heap_ok P" using p_reachable_same [OF assms(1)] by simp
  have "unix_objs (mem P) a \<noteq> None" by (rule unix_entry [OF ok assms(2)]) simp
  with orphan_accept_unix [OF ok assms(3)] have "orphan a P1" by simp
  moreover have "heap_ok P1" using same_stateD [OF accept_unix_same [OF ok] assms(3)] by simp
  ultimately have "orphan a P2" using orphan_sim.sim_run [OF assms(4), of a] by simp
  then show ?thesis by (auto simp: orphan_def)
qed

definition leak_proc :: "sim proc" where
  "leak_proc = \<lparr>errno = EINTR, world = quiet\<lparr>ready := [[(EPOLLIN, 4)]],
     backlog := [(7, SockUn ''p''), (8, SockUn ''q'')], files := [(''p'', demo_stat), (''q'', demo_stat)]\<rparr>\<rparr>"

lemma sim_accept_unix:
  assumes "backlog (world s) = (fd, SockUn [c]) # r" and "map_of (files (world s)) [c] = Some demo_stat"
    and "clock (world s) = 1000" and "0 \<le> fd"
  shows "\<exists>P' s'. p_accept_unix sim_kernel P s = Some (Ret (P', s')) \<and> unix_ptr P' \<noteq> None
    \<and> backlog (world s') = r \<and> files (world s') = filter (\<lambda>(q, _). q \<noteq> [c]) (files (world s)) \<and> clock (world s') = 1000"
  using assms
  by (simp add: p_accept_unix_def unix_server_accept_def syscall_def demo_stat_def SUN_PATH_LEN_def sun_path_len_def S_IRWXG_def S_IRWXO_def
      S_IRWXU_def STALE_def new_unix_def AddEvent_def Let_def)

theorem unix_conn_leaked_witness:
  "\<exists>P s a P1 s1. p_reachable sim_kernel [] [''-u''] leak_proc ''-u'' ([], P, s) \<and> unix_ptr P = Some a
    \<and> p_accept_unix sim_kernel P s = Some (Ret (P1, s1)) \<and> a \<in> dom (unix_objs (mem P1)) \<and> unix_ptr P1 \<noteq> Some a"
proof -
  let ?R = "p_reachable sim_kernel [] [''-u''] leak_proc ''-u''"
  obtain sv s where i: "main_init sim_kernel [] [''-u''] leak_proc = Some (Ret (''-u'', sv, s))"
    and sv: "inet_listen_fd (sv_ep sv) = - 1" "unix_listen_fd (sv_ep sv) = 4" "world s = (world leak_proc)\<lparr>next_fd := 5, registered := [(4, EPOLLIN)]\<rparr>"
    by (simp add: main_init_def InitSignal_def getInstance_def new_Epoll_def startUnixServer_def unix_server_listen_def
        UNIX_SOCKET_LOCK_FILE_def SUN_PATH_LEN_def AddEvent_def syscall_def leak_proc_def quiet_def Let_def)
  let ?P = "p_init sv"
  obtain s1 where t: "trigger sim_kernel ''-u'' (globals ?P) s = Some (Ret (sv, s1))" "world s1 = world s"
    using demo_trigger_again [of sv "''-u''" s] by (auto simp: UNIX_CLIENT_TRIGGER_def p_init_def)
  obtain sv2 s2 where w: "wait_events sim_kernel sv s1 = Some (Ret ([0], sv2, s2))" "world s2 = (world s)\<lparr>ready := []\<rparr>"
    and fe: "firedevent (sv_ep sv2) ! 0 = fire (EPOLLIN, 4)" "inet_listen_fd (sv_ep sv2) = - 1" "unix_listen_fd (sv_ep sv2) = 4"
    using demo_wait [of s1 4 "[]" EPOLLIN sv] sv t(2) by (auto simp: EPOLLIN_bit leak_proc_def)
  let ?P2 = "?P\<lparr>globals := sv2\<rparr>"
  have r2: "?R ([0], ?P2, s2)"
    by (rule p_reachable.p_Step [OF p_reachable.p_Start [OF i] p_step.p_Wait [OF t(1) w(1)]])
  obtain P3 s3 where a3: "p_accept_unix sim_kernel ?P2 s2 = Some (Ret (P3, s3))" "unix_ptr P3 \<noteq> None"
      "backlog (world s3) = [(8, SockUn ''q'')]" "files (world s3) = [(''q'', demo_stat)]" "clock (world s3) = 1000"
    using sim_accept_unix [of s2 7 "CHR ''p''" "[(8, SockUn ''q'')]" ?P2] w(2) sv(3) by (auto simp: leak_proc_def quiet_def)
  have "p_dispatch sim_kernel (firedevent (sv_ep (globals ?P2)) ! 0) ?P2 s2 = Some (Ret (P3, s3))"
    using fe a3(1) by (simp add: p_dispatch_def)
  then have r3: "?R ([], P3, s3)" by (rule p_reachable.p_Step [OF r2 p_step.p_Event])
  obtain a where a: "unix_ptr P3 = Some a" using a3(2) by auto
  obtain P4 s4 where a4: "p_accept_unix sim_kernel P3 s3 = Some (Ret (P4, s4))"
    using sim_accept_unix [of s3 8 "CHR ''q''" "[]" P3] a3(3-5) by auto
  from unix_conn_leaked [OF r3 a a4 rtranclp.rtrancl_refl] r3 a a4 show ?thesis by blast
qed

end
