(* ===== verification/Echo_Client.thy ===== *)
theory Echo_Client
  imports Inet_Conn Inet_Socket
begin

text \<open>
  The load client (\<open>hot_upgrade_demo/client.cc\<close>): ten connections, on each in turn one
  framed request is written and the reply awaited, forever.

  The lemmas show that the request on the wire is the frame the server expects, that the
  reply is collected whatever the transfers, and that the client spins forever once the
  server has closed the connection.
\<close>

section \<open>Operations\<close>

definition CLIENT_NUM :: nat where "CLIENT_NUM = 10"
definition BUFFER_SIZE :: nat where "BUFFER_SIZE = 1024"

definition message :: "byte list" where "message = chars ''message''"

text \<open>The request buffer after the two \<open>memcpy\<close>; the rest of the array is uninitialised.\<close>

definition request_buf :: "(nat \<Rightarrow> byte) \<Rightarrow> nat \<Rightarrow> byte" where
  "request_buf junk = store (store junk 0 (bytes_of_word32 (of_nat (length message)))) 4 message"

partial_function (option) write_loop ::
  "'w kernel \<Rightarrow> int \<Rightarrow> (nat \<Rightarrow> byte) \<Rightarrow> nat \<Rightarrow> nat \<Rightarrow> 'w proc \<Rightarrow> 'w proc outcome option" where
  "write_loop k fd buf write_pos target s =
     (if write_pos < target
      then case sys_write k fd (load buf write_pos (target - write_pos)) s of
          (None, s') \<Rightarrow>
            if errno s' = EAGAIN then write_loop k fd buf write_pos target s' else Some (Exit (- 1))
        | (Some nwrite, s') \<Rightarrow> write_loop k fd buf (write_pos + nwrite) target s'
      else Some (Ret s))"

text \<open>A result of zero (end of file) advances nothing and leaves the loop running.\<close>

partial_function (option) read_loop ::
  "'w kernel \<Rightarrow> int \<Rightarrow> (nat \<Rightarrow> byte) \<Rightarrow> nat \<Rightarrow> nat \<Rightarrow> 'w proc
    \<Rightarrow> ((nat \<Rightarrow> byte) \<times> nat \<times> 'w proc) outcome option" where
  "read_loop k fd buf read_pos target s =
     (if read_pos < target
      then case sys_read k fd (BUFFER_SIZE - read_pos) s of
          (None, s') \<Rightarrow>
            if errno s' = EAGAIN then read_loop k fd buf read_pos target s' else Some (Exit (- 1))
        | (Some bs, s') \<Rightarrow> read_loop k fd (store buf read_pos bs) (read_pos + length bs) target s'
      else Some (Ret (buf, read_pos, s)))"

text \<open>
  The function ends without a return statement; its result is never used.  The model
  returns the read buffer, which the source prints.
\<close>

definition client_echo_request :: "'w kernel \<Rightarrow> int \<Rightarrow> 'w proc \<Rightarrow> ((nat \<Rightarrow> byte) \<times> 'w proc) run" where
  "client_echo_request k client_fd s =
     (let junk = (\<lambda>i. k_uninit k BUFFER_SIZE (world s) ! i);
          target_write_pos = length message + 4 in
      run_bind (write_loop k client_fd (request_buf junk) 0 target_write_pos s) (\<lambda>s1.
      run_bind (read_loop k client_fd (\<lambda>i. k_uninit k BUFFER_SIZE (world s1) ! i) 0 (length message) s1)
        (\<lambda>(buf, _, s2). Some (Ret (buf, s2)))))"

primrec open_clients :: "nat \<Rightarrow> 'w kernel \<Rightarrow> 'w proc \<Rightarrow> (int list \<times> 'w proc) run" where
  "open_clients 0 k s = Some (Ret ([], s))"
| "open_clients (Suc i) k s = run_bind (open_clients i k s) (\<lambda>(fds, s1).
     let (fd, s2) = inet_client_conn k ''127.0.0.1'' 9221 s1 in
     if fd < 0 then Some (Exit (- 1)) else Some (Ret (fds @ [fd], s2)))"

primrec client_round :: "'w kernel \<Rightarrow> int list \<Rightarrow> 'w proc \<Rightarrow> 'w proc run" where
  "client_round k [] s = Some (Ret s)"
| "client_round k (fd # fds) s =
     run_bind (client_echo_request k fd s) (\<lambda>(_, s'). client_round k fds s')"

text \<open>The endless loop, cut after a number of rounds.\<close>

primrec client_rounds :: "nat \<Rightarrow> 'w kernel \<Rightarrow> int list \<Rightarrow> 'w proc \<Rightarrow> 'w proc run" where
  "client_rounds 0 k fds s = Some (Ret s)"
| "client_rounds (Suc n) k fds s =
     run_bind (client_round k fds s) (\<lambda>s'. client_rounds n k fds s')"

definition client_main :: "nat \<Rightarrow> 'w kernel \<Rightarrow> 'w proc \<Rightarrow> 'w proc run" where
  "client_main n k s =
     run_bind (open_clients CLIENT_NUM k s) (\<lambda>(fds, s'). client_rounds n k fds s')"

section \<open>The loops\<close>

lemma length_message [simp]: "length message = 7"
  by (simp add: message_def)

lemma load_request_buf: "load (request_buf junk) 0 (length message + 4) = frame message"
proof -
  let ?h = "bytes_of_word32 (of_nat (length message))"
  have "load (request_buf junk) 0 (4 + length message) = load (store junk 0 ?h) 0 (length ?h) @ message"
    using load_extend [of "store junk 0 ?h" "length ?h" message] by (simp only: request_buf_def length_bytes_of_word32)
  then show ?thesis by (simp only: load_store_same frame_def add.commute)
qed

context calm_stream
begin

lemma write_loop_sends:
  assumes "calm (world s)" and "pos \<le> target"
  shows "\<exists>s'. write_loop k fd buf pos target s = Some (Ret s') \<and> calm (world s')
    \<and> outgoing fd (world s') = outgoing fd (world s) @ load buf pos (target - pos)
    \<and> incoming fd (world s') = incoming fd (world s)"
  using assms
proof (induction "(target - pos, patience (world s))" arbitrary: pos s
    rule: wf_induct_rule [OF wf_lex_prod [OF wf_less_than wf_less_than]])
  case (1 pos s)
  show ?case
  proof (cases "pos < target")
    case False
    with 1(2,3) show ?thesis by (subst write_loop.simps) simp
  next
    case True
    obtain r s1 where c: "sys_write k fd (load buf pos (target - pos)) s = (r, s1)" by fastforce
    note C = calm_sys_write [OF c 1(2)]
    have inc: "incoming fd (world s1) = incoming fd (world s)"
      using c by (cases r) (auto dest!: syscall_SomeD syscall_NoneD intro: write_frame)
    show ?thesis
    proof (cases r)
      case None
      note N = sys_write_None [OF c [unfolded None]]
      have "((target - pos, patience (world s1)), (target - pos, patience (world s))) \<in> less_than <*lex*> less_than"
        using N(3) C(2) [OF None] by simp
      from 1(1) [OF this C(1) 1(3)] True c None N(1) C(2) [OF None] inc show ?thesis
        by (subst write_loop.simps) simp
    next
      case (Some n)
      note W = sys_write_Some [OF c [unfolded Some]]
      have "load buf pos (target - pos) \<noteq> []" using True by (metis length_load length_0_conv zero_less_diff less_irrefl)
      with W(4) have "0 < n" by blast
      moreover from W(1) have le: "n \<le> target - pos" by simp
      ultimately have "((target - (pos + n), patience (world s1)), (target - pos, patience (world s))) \<in> less_than <*lex*> less_than"
        by auto
      moreover have le': "pos + n \<le> target" using le True by simp
      ultimately obtain s' where IH: "write_loop k fd buf (pos + n) target s1 = Some (Ret s')"
          "calm (world s')" "outgoing fd (world s') = outgoing fd (world s1) @ load buf (pos + n) (target - (pos + n))"
          "incoming fd (world s') = incoming fd (world s1)"
        using 1(1) [OF _ C(1)] by blast
      have "load buf pos (target - pos) = load buf pos n @ load buf (pos + n) (target - (pos + n))"
        using load_split [of buf pos n "target - (pos + n)"] le le'
        by (metis diff_diff_left le_add_diff_inverse)
      with IH True c Some W(2) le inc show ?thesis
        by (subst write_loop.simps) (simp add: take_load min_absorb1)
    qed
  qed
qed

lemma read_loop_collects:
  assumes "calm (world s)" and "pos \<le> BUFFER_SIZE" and "target \<le> BUFFER_SIZE"
    and "target \<le> pos + length (incoming fd (world s))"
  shows "\<exists>buf' pos' s'. read_loop k fd buf pos target s = Some (Ret (buf', pos', s'))
    \<and> target \<le> pos' \<and> pos' \<le> BUFFER_SIZE
    \<and> load buf' 0 pos' @ incoming fd (world s') = load buf 0 pos @ incoming fd (world s)"
  using assms
proof (induction "patience (world s) + length (incoming fd (world s))" arbitrary: buf pos s rule: less_induct)
  case less
  show ?case
  proof (cases "pos < target")
    case False
    with less.prems show ?thesis by (subst read_loop.simps) auto
  next
    case True
    obtain r s1 where c: "sys_read k fd (BUFFER_SIZE - pos) s = (r, s1)" by fastforce
    note C = calm_sys_read [OF c less.prems(1)]
    show ?thesis
    proof (cases r)
      case None
      note N = sys_read_None [OF c [unfolded None]] and E = sys_read_energy_None [OF c [unfolded None]]
      from less.hyps [OF E C(1) less.prems(2,3)] less.prems(4) N(1) C(2) [OF None] True c None
      show ?thesis by (subst read_loop.simps) auto
    next
      case (Some bs)
      note R = sys_read_Some [OF c [unfolded Some]]
      have "bs \<noteq> []" using R(4) True less.prems(2-4) by auto
      note E = sys_read_energy_Some [OF c [unfolded Some] this]
      have "pos + length bs \<le> BUFFER_SIZE" using R(1) less.prems(2) by simp
      from less.hyps [OF E C(1) this less.prems(3), of "store buf pos bs"] less.prems(4) R(2) True c Some
      show ?thesis by (subst read_loop.simps) (auto simp: load_extend)
    qed
  qed
qed

text \<open>A reply that consists of the message is collected whole.\<close>

lemma read_loop_message:
  assumes "calm (world s)" and "incoming fd (world s) = message"
  shows "\<exists>buf' pos s'. read_loop k fd buf 0 7 s = Some (Ret (buf', pos, s')) \<and> load buf' 0 7 = message"
proof -
  from read_loop_collects [OF assms(1), of 0 7 fd buf] assms(2)
  obtain buf' pos s' where r: "read_loop k fd buf 0 7 s = Some (Ret (buf', pos, s'))" "7 \<le> pos"
      "load buf' 0 pos @ incoming fd (world s') = message"
    by (auto simp: BUFFER_SIZE_def)
  have "take 7 (load buf' 0 pos @ incoming fd (world s')) = load buf' 0 7"
    using r(2) by (simp add: take_load min_absorb1)
  with r(1,3) show ?thesis by auto
qed

end

context calm_kernel
begin

lemma read_loop_eof:
  assumes "read_loop k fd buf pos target s = Some r"
    and "calm (world s)" and "incoming fd (world s) = []" and "pos < target"
  shows False
proof -
  define P where "P \<equiv> \<lambda>k' fd (buf :: nat \<Rightarrow> byte) (pos :: nat) (target :: nat) (s :: 'w proc) (r :: ((nat \<Rightarrow> byte) \<times> nat \<times> 'w proc) outcome).
    \<not> (k' = k \<and> calm (world s) \<and> incoming fd (world s) = [] \<and> pos < target)"
  have "P k fd buf pos target s r"
  proof (rule read_loop.raw_induct [where P = P, OF _ assms(1)])
    fix f and k' :: "'w kernel" and fd buf pos target s and r :: "((nat \<Rightarrow> byte) \<times> nat \<times> 'w proc) outcome"
    assume IH: "\<And>k' fd buf pos target s r. f k' fd buf pos target s = Some r \<Longrightarrow> P k' fd buf pos target s r"
      and body: "(if pos < target
        then case sys_read k' fd (BUFFER_SIZE - pos) s of
            (None, s') \<Rightarrow> if errno s' = EAGAIN then f k' fd buf pos target s' else Some (Exit (- 1))
          | (Some bs, s') \<Rightarrow> f k' fd (store buf pos bs) (pos + length bs) target s'
        else Some (Ret (buf, pos, s))) = Some r"
    show "P k' fd buf pos target s r"
      unfolding P_def
    proof
      assume a: "k' = k \<and> calm (world s) \<and> incoming fd (world s) = [] \<and> pos < target"
      obtain x s1 where c: "sys_read k fd (BUFFER_SIZE - pos) s = (x, s1)" by fastforce
      note C = calm_sys_read [OF c] and N = sys_read_None [of fd "BUFFER_SIZE - pos" s s1]
        and S = sys_read_Some [of fd "BUFFER_SIZE - pos" s _ s1]
      show False
      proof (cases x)
        case None
        with body a c C N have "P k fd buf pos target s1 r" by (auto intro: IH)
        with None a c C N show False by (auto simp: P_def)
      next
        case (Some bs)
        with body a c have "P k fd (store buf pos bs) (pos + length bs) target s1 r" by (auto intro: IH)
        moreover have "bs = []" "incoming fd (world s1) = []" using S(2) c Some a by auto
        ultimately show False using a C by (auto simp: P_def)
      qed
    qed
  qed
  with assms(2-4) show False by (simp add: P_def)
qed

end

section \<open>Properties\<close>

text \<open>
  one exchange of the client.  In a world without signals and resets, if the server
  answers with at least the seven bytes of the message, \<open>client_echo_request\<close> returns; it
  has sent exactly one frame of the message, and its buffer starts with the first seven
  bytes that arrived.
\<close>

theorem client_echo_exchange:
  assumes "calm_stream k incoming outgoing patience calm" and "calm (world s)"
    and "7 \<le> length (incoming fd (world s))"
  shows "\<exists>buf s'. client_echo_request k fd s = Some (Ret (buf, s'))
    \<and> (\<exists>s1. write_loop k fd (request_buf (\<lambda>i. k_uninit k BUFFER_SIZE (world s) ! i)) 0 11 s = Some (Ret s1)
         \<and> outgoing fd (world s1) = outgoing fd (world s) @ frame message)
    \<and> load buf 0 7 = take 7 (incoming fd (world s))"
proof -
  let ?b = "request_buf (\<lambda>i. k_uninit k BUFFER_SIZE (world s) ! i)"
  from calm_stream.write_loop_sends [OF assms(1,2), of 0 "length message + 4" fd ?b]
  obtain s1 where w: "write_loop k fd ?b 0 (length message + 4) s = Some (Ret s1)" "calm (world s1)"
      "outgoing fd (world s1) = outgoing fd (world s) @ load ?b 0 (length message + 4)"
      "incoming fd (world s1) = incoming fd (world s)"
    by auto
  let ?r = "\<lambda>i. k_uninit k BUFFER_SIZE (world s1) ! i"
  from calm_stream.read_loop_collects [OF assms(1) w(2), of 0 7 fd ?r] assms(3) w(4)
  obtain buf pos s2 where r: "read_loop k fd ?r 0 7 s1 = Some (Ret (buf, pos, s2))" "7 \<le> pos"
      "load buf 0 pos @ incoming fd (world s2) = incoming fd (world s)"
    by (auto simp: BUFFER_SIZE_def)
  have "take 7 (load buf 0 pos @ incoming fd (world s2)) = load buf 0 7"
    using r(2) by (simp add: take_load min_absorb1)
  with r(3) have b: "load buf 0 7 = take 7 (incoming fd (world s))" by simp
  have "client_echo_request k fd s = Some (Ret (buf, s2))"
    using w(1) r(1) by (simp add: client_echo_request_def Let_def)
  with b w(1,3) load_request_buf show ?thesis by auto
qed

theorem client_echo_exchange_witness:
  "\<exists>buf s'. client_echo_request sim_kernel 5 \<lparr>errno = EINTR, world = quiet\<lparr>inq := (\<lambda>_. message),
       schedule := [Chunk 2, Again, Chunk 20, Again, Chunk 3]\<rparr>\<rparr> = Some (Ret (buf, s'))
    \<and> load buf 0 7 = message"
  using client_echo_exchange [OF sim_calm_k.calm_stream_axioms, where fd = 5
      and s = "\<lparr>errno = EINTR, world = quiet\<lparr>inq := (\<lambda>_. message),
       schedule := [Chunk 2, Again, Chunk 20, Again, Chunk 3]\<rparr>\<rparr>"]
  by (auto simp: sim_calm_def sim_obs)

text \<open>
  a client whose server has closed the connection spins forever.  Once the stream has
  ended before the whole reply arrived, and the connection is not reset, the reading loop
  never returns.
\<close>

theorem client_spins_at_eof:
  assumes "calm_kernel k incoming patience calm" and "calm (world s)"
    and "incoming fd (world s) = []" and "pos < target"
  shows "read_loop k fd buf pos target s = None"
  using calm_kernel.read_loop_eof [OF assms(1) _ assms(2-4)] by fastforce

theorem client_spins_at_eof_witness:
  "read_loop sim_kernel 5 (\<lambda>_. 0) 3 7 \<lparr>errno = EINTR, world = quiet\<lparr>schedule := [Again]\<rparr>\<rparr> = None"
  by (rule client_spins_at_eof [OF sim_calm_k.calm_kernel_axioms])
    (simp_all add: sim_calm_def sim_obs quiet_def)

end
