(* ===== verification/Sbuf.thy ===== *)
theory Sbuf
  imports Prelude
begin

text \<open>
  The bounded buffer shared by threads (\<open>csapp/concurrent_program/sbuf.c\<close>): a ring of \<open>n\<close>
  slots guarded by a binary semaphore and two counting semaphores.

  The two operations are modelled as programs of elementary actions, one per access to
  shared memory: run alone (\<open>sbuf_insert\<close>, \<open>sbuf_remove\<close>), and interleaved in any order by
  any number of threads (\<open>sbuf_step\<close>).

  The lemmas show that the operations run alone implement a bounded queue, that interleaved
  they keep mutual exclusion and the bounds, that items leave in the order they entered,
  that they are steps of an atomic queue, that nobody is blocked forever by the lock, and
  when the counters overflow.
\<close>

section \<open>Data\<close>

record sbuf_t =
  buf :: "nat \<Rightarrow> int"
  sb_n :: nat
  front :: nat
  rear :: nat
  mutex :: nat
  slots :: nat
  items :: nat


section \<open>Elementary actions\<close>

text \<open>\<open>sem_wait\<close> on a semaphore of value zero blocks (\<open>None\<close>).\<close>

definition P :: "nat \<Rightarrow> nat option" where
  "P s = (case s of 0 \<Rightarrow> None | Suc m \<Rightarrow> Some m)"

definition V :: "nat \<Rightarrow> nat" where
  "V s = Suc s"

definition sbuf_init :: "nat \<Rightarrow> sbuf_t" where
  "sbuf_init n = \<lparr>buf = (\<lambda>_. 0), sb_n = n, front = 0, rear = 0, mutex = 1, slots = n, items = 0\<rparr>"

text \<open>\<open>sp->buf[(++sp->rear) % (sp->n)] = item\<close>, as the increment and the store.\<close>

definition bump_rear :: "sbuf_t \<Rightarrow> sbuf_t outcome" where
  "bump_rear sp = (if rear sp = INT_MAX then Fault SignedOverflow else Ret (sp\<lparr>rear := rear sp + 1\<rparr>))"

definition put_item :: "int \<Rightarrow> sbuf_t \<Rightarrow> sbuf_t" where
  "put_item item sp = sp\<lparr>buf := (buf sp)(rear sp mod sb_n sp := item)\<rparr>"

text \<open>\<open>item = sp->buf[(++sp->front) % (sp->n)]\<close>, as the increment and the load.\<close>

definition bump_front :: "sbuf_t \<Rightarrow> sbuf_t outcome" where
  "bump_front sp = (if front sp = INT_MAX then Fault SignedOverflow else Ret (sp\<lparr>front := front sp + 1\<rparr>))"

definition get_item :: "sbuf_t \<Rightarrow> int" where
  "get_item sp = buf sp (front sp mod sb_n sp)"

text \<open>
  The block behind \<open>sp->buf\<close> is given back; the other members, the pointer among them, stay
  as they are, so that a later access through it is a fault.
\<close>

definition sbuf_deinit :: "sbuf_t \<times> (nat \<Rightarrow> int) cell \<Rightarrow> (sbuf_t \<times> (nat \<Rightarrow> int) cell) outcome" where
  "sbuf_deinit = (\<lambda>(sp, block). map_outcome (Pair sp) (cell_free block))"

lemma sbuf_deinit_once:
  assumes "sbuf_deinit (sp, block) = Ret (sp', block')"
  shows "sp' = sp" and "\<exists>array. cell_load block = Ret array" and "cell_load block' = Fault UseAfterFree"
    and "sbuf_deinit (sp', block') = Fault UseAfterFree"
  using assms by (cases block; auto simp: sbuf_deinit_def)+

section \<open>The operations run alone\<close>

definition sbuf_insert :: "sbuf_t \<Rightarrow> int \<Rightarrow> sbuf_t run" where
  "sbuf_insert sp item = (case P (slots sp) of None \<Rightarrow> None | Some v \<Rightarrow>
     (let sp1 = sp\<lparr>slots := v\<rparr> in
      case P (mutex sp1) of None \<Rightarrow> None | Some v \<Rightarrow>
      run_bind (Some (bump_rear (sp1\<lparr>mutex := v\<rparr>))) (\<lambda>sp2.
        let sp3 = put_item item sp2; sp4 = sp3\<lparr>mutex := V (mutex sp3)\<rparr>
        in Some (Ret (sp4\<lparr>items := V (items sp4)\<rparr>)))))"

text \<open>The source drops the item; the model returns it.\<close>

definition sbuf_remove :: "sbuf_t \<Rightarrow> (int \<times> sbuf_t) run" where
  "sbuf_remove sp = (case P (items sp) of None \<Rightarrow> None | Some v \<Rightarrow>
     (let sp1 = sp\<lparr>items := v\<rparr> in
      case P (mutex sp1) of None \<Rightarrow> None | Some v \<Rightarrow>
      run_bind (Some (bump_front (sp1\<lparr>mutex := v\<rparr>))) (\<lambda>sp2.
        let item = get_item sp2; sp3 = sp2\<lparr>mutex := V (mutex sp2)\<rparr>
        in Some (Ret (item, sp3\<lparr>slots := V (slots sp3)\<rparr>)))))"

text \<open>A sequence of insertions, and of \<open>m\<close> removals with the items in order.\<close>

primrec enq_all :: "('s \<Rightarrow> 'a \<Rightarrow> 's run) \<Rightarrow> 'a list \<Rightarrow> 's \<Rightarrow> 's run" where
  "enq_all enq [] s = Some (Ret s)"
| "enq_all enq (x # xs) s = run_bind (enq s x) (enq_all enq xs)"

primrec deq_all :: "('s \<Rightarrow> ('a \<times> 's) run) \<Rightarrow> nat \<Rightarrow> 's \<Rightarrow> ('a list \<times> 's) run" where
  "deq_all deq 0 s = Some (Ret ([], s))"
| "deq_all deq (Suc m) s = run_bind (deq s) (\<lambda>(x, s').
     run_bind (deq_all deq m s') (\<lambda>(xs, s''). Some (Ret (x # xs, s''))))"

section \<open>The operations interleaved\<close>

text \<open>Where a thread stands: outside, or in front of the named action of an operation.\<close>

datatype pc =
    Idle
  | InsSlots int | InsMutex int | InsBump int | InsPut int | InsUnlock | InsPost
  | RemItems | RemMutex | RemBump | RemGet | RemUnlock int | RemPost int

text \<open>
  A configuration: the shared buffer, the threads, and the items inserted and removed so
  far, in the order of the store and load actions.
\<close>

record sys =
  sp :: sbuf_t
  threads :: "pc list"
  log_in :: "int list"
  log_out :: "int list"

inductive sbuf_step :: "sys \<Rightarrow> sys \<Rightarrow> bool" where
  call_insert: "i < length (threads c) \<Longrightarrow> threads c ! i = Idle \<Longrightarrow>
    sbuf_step c (c\<lparr>threads := (threads c)[i := InsSlots x]\<rparr>)"
| ins_slots: "i < length (threads c) \<Longrightarrow> threads c ! i = InsSlots x \<Longrightarrow> P (slots (sp c)) = Some v \<Longrightarrow>
    sbuf_step c (c\<lparr>sp := (sp c)\<lparr>slots := v\<rparr>, threads := (threads c)[i := InsMutex x]\<rparr>)"
| ins_mutex: "i < length (threads c) \<Longrightarrow> threads c ! i = InsMutex x \<Longrightarrow> P (mutex (sp c)) = Some v \<Longrightarrow>
    sbuf_step c (c\<lparr>sp := (sp c)\<lparr>mutex := v\<rparr>, threads := (threads c)[i := InsBump x]\<rparr>)"
| ins_bump: "i < length (threads c) \<Longrightarrow> threads c ! i = InsBump x \<Longrightarrow> bump_rear (sp c) = Ret b \<Longrightarrow>
    sbuf_step c (c\<lparr>sp := b, threads := (threads c)[i := InsPut x]\<rparr>)"
| ins_put: "i < length (threads c) \<Longrightarrow> threads c ! i = InsPut x \<Longrightarrow>
    sbuf_step c (c\<lparr>sp := put_item x (sp c), threads := (threads c)[i := InsUnlock], log_in := log_in c @ [x]\<rparr>)"
| ins_unlock: "i < length (threads c) \<Longrightarrow> threads c ! i = InsUnlock \<Longrightarrow>
    sbuf_step c (c\<lparr>sp := (sp c)\<lparr>mutex := V (mutex (sp c))\<rparr>, threads := (threads c)[i := InsPost]\<rparr>)"
| ins_post: "i < length (threads c) \<Longrightarrow> threads c ! i = InsPost \<Longrightarrow>
    sbuf_step c (c\<lparr>sp := (sp c)\<lparr>items := V (items (sp c))\<rparr>, threads := (threads c)[i := Idle]\<rparr>)"
| call_remove: "i < length (threads c) \<Longrightarrow> threads c ! i = Idle \<Longrightarrow>
    sbuf_step c (c\<lparr>threads := (threads c)[i := RemItems]\<rparr>)"
| rem_items: "i < length (threads c) \<Longrightarrow> threads c ! i = RemItems \<Longrightarrow> P (items (sp c)) = Some v \<Longrightarrow>
    sbuf_step c (c\<lparr>sp := (sp c)\<lparr>items := v\<rparr>, threads := (threads c)[i := RemMutex]\<rparr>)"
| rem_mutex: "i < length (threads c) \<Longrightarrow> threads c ! i = RemMutex \<Longrightarrow> P (mutex (sp c)) = Some v \<Longrightarrow>
    sbuf_step c (c\<lparr>sp := (sp c)\<lparr>mutex := v\<rparr>, threads := (threads c)[i := RemBump]\<rparr>)"
| rem_bump: "i < length (threads c) \<Longrightarrow> threads c ! i = RemBump \<Longrightarrow> bump_front (sp c) = Ret b \<Longrightarrow>
    sbuf_step c (c\<lparr>sp := b, threads := (threads c)[i := RemGet]\<rparr>)"
| rem_get: "i < length (threads c) \<Longrightarrow> threads c ! i = RemGet \<Longrightarrow>
    sbuf_step c (c\<lparr>threads := (threads c)[i := RemUnlock (get_item (sp c))],
                   log_out := log_out c @ [get_item (sp c)]\<rparr>)"
| rem_unlock: "i < length (threads c) \<Longrightarrow> threads c ! i = RemUnlock x \<Longrightarrow>
    sbuf_step c (c\<lparr>sp := (sp c)\<lparr>mutex := V (mutex (sp c))\<rparr>, threads := (threads c)[i := RemPost x]\<rparr>)"
| rem_post: "i < length (threads c) \<Longrightarrow> threads c ! i = RemPost x \<Longrightarrow>
    sbuf_step c (c\<lparr>sp := (sp c)\<lparr>slots := V (slots (sp c))\<rparr>, threads := (threads c)[i := Idle]\<rparr>)"

definition sys_init :: "nat \<Rightarrow> nat \<Rightarrow> sys" where
  "sys_init n t = \<lparr>sp = sbuf_init n, threads = replicate t Idle, log_in = [], log_out = []\<rparr>"

inductive sbuf_reachable :: "nat \<Rightarrow> nat \<Rightarrow> sys \<Rightarrow> bool" for n t where
  init: "sbuf_reachable n t (sys_init n t)"
| step: "sbuf_reachable n t c \<Longrightarrow> sbuf_step c c' \<Longrightarrow> sbuf_reachable n t c'"

section \<open>The invariant\<close>

text \<open>The phases of an operation, as sets of positions.\<close>

fun in_lock :: "pc \<Rightarrow> bool" where
  "in_lock (InsBump x) = True" | "in_lock (InsPut x) = True" | "in_lock InsUnlock = True"
| "in_lock RemBump = True" | "in_lock RemGet = True" | "in_lock (RemUnlock x) = True"
| "in_lock _ = False"

fun has_slot :: "pc \<Rightarrow> bool" where
  "has_slot (InsMutex x) = True" | "has_slot (InsBump x) = True"
| "has_slot RemGet = True" | "has_slot (RemUnlock x) = True" | "has_slot (RemPost x) = True"
| "has_slot _ = False"

fun has_item :: "pc \<Rightarrow> bool" where
  "has_item (InsPut x) = True" | "has_item InsUnlock = True" | "has_item InsPost = True"
| "has_item RemMutex = True" | "has_item RemBump = True"
| "has_item _ = False"

fun at_put :: "pc \<Rightarrow> bool" where "at_put (InsPut x) = True" | "at_put _ = False"
fun at_get :: "pc \<Rightarrow> bool" where "at_get RemGet = True" | "at_get _ = False"

text \<open>
  The items between the two counters, without the slot that has been reserved but not yet
  written and with the one that has been released but not yet read.
\<close>

definition stored_items :: "sys \<Rightarrow> int list" where
  "stored_items c = map (\<lambda>j. buf (sp c) (j mod sb_n (sp c)))
     [front (sp c) + 1 - tally at_get (threads c)..<rear (sp c) + 1 - tally at_put (threads c)]"

definition sbuf_inv :: "nat \<Rightarrow> sys \<Rightarrow> bool" where
  "sbuf_inv n c \<longleftrightarrow> sb_n (sp c) = n
     \<and> mutex (sp c) + tally in_lock (threads c) = 1
     \<and> front (sp c) \<le> rear (sp c) \<and> rear (sp c) \<le> INT_MAX
     \<and> slots (sp c) + tally has_slot (threads c) + (rear (sp c) - front (sp c)) = n
     \<and> items (sp c) + tally has_item (threads c) = rear (sp c) - front (sp c)
     \<and> tally at_put (threads c) \<le> rear (sp c) \<and> tally at_get (threads c) \<le> front (sp c)
     \<and> log_in c = log_out c @ stored_items c"

lemma sbuf_inv_init: "sbuf_inv n (sys_init n t)"
  by (simp add: sbuf_inv_def sys_init_def sbuf_init_def stored_items_def tally_def INT_MAX_def)

lemma tallies:
  assumes "i < length ts" and "ts ! i = p"
  shows "tally in_lock (ts[i := q]) + of_bool (in_lock p) = tally in_lock ts + of_bool (in_lock q)"
    and "tally has_slot (ts[i := q]) + of_bool (has_slot p) = tally has_slot ts + of_bool (has_slot q)"
    and "tally has_item (ts[i := q]) + of_bool (has_item p) = tally has_item ts + of_bool (has_item q)"
    and "tally at_put (ts[i := q]) + of_bool (at_put p) = tally at_put ts + of_bool (at_put q)"
    and "tally at_get (ts[i := q]) + of_bool (at_get p) = tally at_get ts + of_bool (at_get q)"
  using tally_update [OF assms(1)] assms(2) by metis+

text \<open>Positions that write or read the ring are inside the lock.\<close>

lemma tally_disjoint:
  assumes "\<And>x. Q x \<Longrightarrow> R x" and "\<And>x. Q' x \<Longrightarrow> R x" and "\<And>x. \<not> (Q x \<and> Q' x)"
  shows "tally Q xs + tally Q' xs \<le> tally R xs"
  using assms unfolding tally_def by (induction xs) auto

lemma put_get_in_lock: "tally at_put ts + tally at_get ts \<le> tally in_lock ts"
proof (rule tally_disjoint)
  show "at_put x \<Longrightarrow> in_lock x" "at_get x \<Longrightarrow> in_lock x" "\<not> (at_put x \<and> at_get x)" for x
    by (cases x; simp)+
qed

lemma mod_distinct: "j < r \<Longrightarrow> r - j < n \<Longrightarrow> j mod n \<noteq> r mod (n :: nat)"
  by (metis add_diff_inverse_nat less_imp_not_less mod_add_self2 mod_if mod_less nat_diff_split_asm
      mod_eq_dvd_iff_nat dvd_imp_le zero_less_diff less_or_eq_imp_le leD)

lemma sbuf_inv_step:
  assumes "sbuf_step c c'" and "sbuf_inv n c"
  shows "sbuf_inv n c'"
  using assms
proof (induction rule: sbuf_step.induct)
  case (call_insert i c x)
  with tallies [OF call_insert(1,2), of "InsSlots x"] show ?case
    by (simp add: sbuf_inv_def stored_items_def)
next
  case (ins_slots i c x v)
  with tallies [OF ins_slots(1,2), of "InsMutex x"] show ?case
    by (simp add: sbuf_inv_def stored_items_def P_def split: nat.splits)
next
  case (ins_mutex i c x v)
  with tallies [OF ins_mutex(1,2), of "InsBump x"] show ?case
    by (simp add: sbuf_inv_def stored_items_def P_def split: nat.splits)
next
  case (ins_bump i c x b)
  with tallies [OF ins_bump(1,2), of "InsPut x"] tally_pos [of i "threads c" has_slot] show ?case
    by (auto simp: sbuf_inv_def stored_items_def bump_rear_def split: if_splits)
next
  case (ins_put i c x)
  let ?r = "rear (sp c)" and ?f = "front (sp c)" and ?ts = "threads c"
  note T = tallies [OF ins_put(1,2), of InsUnlock] and I = ins_put(3) [unfolded sbuf_inv_def]
  have one: "tally at_put ?ts = 1" "tally at_get ?ts = 0"
    using put_get_in_lock [of ?ts] I tally_pos [of i ?ts at_put] ins_put(1,2) by auto
  have fr: "?f < ?r" "?r - ?f \<le> n" using I tally_pos [of i ?ts has_item] ins_put(1,2) by auto
  have "stored_items (c\<lparr>sp := put_item x (sp c), threads := ?ts[i := InsUnlock]\<rparr>) = stored_items c @ [x]"
  proof -
    have "[?f + 1..<?r + 1] = [?f + 1..<?r] @ [?r]" using fr(1) by simp
    moreover have "j mod n \<noteq> ?r mod n" if "j \<in> set [?f + 1..<?r]" for j
      using that fr by (intro mod_distinct) auto
    ultimately show ?thesis using T(4,5) one I by (simp add: stored_items_def put_item_def)
  qed
  with T I fr(1) show ?case by (simp add: sbuf_inv_def put_item_def stored_items_def)
next
  case (ins_unlock i c)
  with tallies [OF ins_unlock(1,2), of InsPost] show ?case
    by (simp add: sbuf_inv_def stored_items_def V_def)
next
  case (ins_post i c)
  with tallies [OF ins_post(1,2), of Idle] show ?case
    by (simp add: sbuf_inv_def stored_items_def V_def)
next
  case (call_remove i c)
  with tallies [OF call_remove(1,2), of RemItems] show ?case
    by (simp add: sbuf_inv_def stored_items_def)
next
  case (rem_items i c v)
  with tallies [OF rem_items(1,2), of RemMutex] show ?case
    by (simp add: sbuf_inv_def stored_items_def P_def split: nat.splits)
next
  case (rem_mutex i c v)
  with tallies [OF rem_mutex(1,2), of RemBump] show ?case
    by (simp add: sbuf_inv_def stored_items_def P_def split: nat.splits)
next
  case (rem_bump i c b)
  with tallies [OF rem_bump(1,2), of RemGet] tally_pos [of i "threads c" has_item] show ?case
    by (auto simp: sbuf_inv_def stored_items_def bump_front_def split: if_splits)
next
  case (rem_get i c)
  let ?r = "rear (sp c)" and ?f = "front (sp c)" and ?ts = "threads c" and ?x = "get_item (sp c)"
  note T = tallies [OF rem_get(1,2), of "RemUnlock ?x"] and I = rem_get(3) [unfolded sbuf_inv_def]
  have one: "tally at_get ?ts = 1" "tally at_put ?ts = 0"
    using put_get_in_lock [of ?ts] I tally_pos [of i ?ts at_get] rem_get(1,2) by auto
  have "[?f..<?r + 1] = ?f # [?f + 1..<?r + 1]" using I by (simp add: upt_conv_Cons)
  then have "stored_items c = ?x # stored_items (c\<lparr>threads := ?ts[i := RemUnlock ?x]\<rparr>)"
    using T(4,5) one I by (simp add: stored_items_def get_item_def)
  with T I show ?case by (simp add: sbuf_inv_def stored_items_def)
next
  case (rem_unlock i c x)
  with tallies [OF rem_unlock(1,2), of "RemPost x"] show ?case
    by (simp add: sbuf_inv_def stored_items_def V_def)
next
  case (rem_post i c x)
  with tallies [OF rem_post(1,2), of Idle] show ?case
    by (auto simp: sbuf_inv_def stored_items_def V_def)
qed

section \<open>The atomic queue\<close>

text \<open>
  The specification of the interleaved buffer: a queue of at most \<open>n\<close> items on which an
  operation takes effect in one step, somewhere between its call and its return.
\<close>

datatype op = Free | Inserting int | Inserted | Removing | Removed int

record queue_sys =
  queue :: "int list"
  ops :: "op list"

inductive queue_step :: "nat \<Rightarrow> queue_sys \<Rightarrow> queue_sys \<Rightarrow> bool" for n where
  q_call_insert: "i < length (ops q) \<Longrightarrow> ops q ! i = Free \<Longrightarrow> queue_step n q (q\<lparr>ops := (ops q)[i := Inserting x]\<rparr>)"
| q_insert: "i < length (ops q) \<Longrightarrow> ops q ! i = Inserting x \<Longrightarrow> length (queue q) < n \<Longrightarrow>
    queue_step n q (q\<lparr>queue := queue q @ [x], ops := (ops q)[i := Inserted]\<rparr>)"
| q_return_insert: "i < length (ops q) \<Longrightarrow> ops q ! i = Inserted \<Longrightarrow> queue_step n q (q\<lparr>ops := (ops q)[i := Free]\<rparr>)"
| q_call_remove: "i < length (ops q) \<Longrightarrow> ops q ! i = Free \<Longrightarrow> queue_step n q (q\<lparr>ops := (ops q)[i := Removing]\<rparr>)"
| q_remove: "i < length (ops q) \<Longrightarrow> ops q ! i = Removing \<Longrightarrow> queue q = x # xs \<Longrightarrow>
    queue_step n q (q\<lparr>queue := xs, ops := (ops q)[i := Removed x]\<rparr>)"
| q_return_remove: "i < length (ops q) \<Longrightarrow> ops q ! i = Removed x \<Longrightarrow> queue_step n q (q\<lparr>ops := (ops q)[i := Free]\<rparr>)"

fun op_of :: "pc \<Rightarrow> op" where
  "op_of Idle = Free"
| "op_of (InsSlots x) = Inserting x" | "op_of (InsMutex x) = Inserting x"
| "op_of (InsBump x) = Inserting x" | "op_of (InsPut x) = Inserting x"
| "op_of InsUnlock = Inserted" | "op_of InsPost = Inserted"
| "op_of RemItems = Removing" | "op_of RemMutex = Removing" | "op_of RemBump = Removing" | "op_of RemGet = Removing"
| "op_of (RemUnlock x) = Removed x" | "op_of (RemPost x) = Removed x"

definition queue_view :: "sys \<Rightarrow> queue_sys" where
  "queue_view c = \<lparr>queue = stored_items c, ops = map op_of (threads c)\<rparr>"

lemma length_stored_items: "sbuf_inv n c \<Longrightarrow> length (stored_items c) \<le> n"
proof -
  assume inv: "sbuf_inv n c"
  have "tally at_get (threads c) + tally (\<lambda>_. False) (threads c) \<le> tally has_slot (threads c)"
  proof (rule tally_disjoint)
    show "at_get x \<Longrightarrow> has_slot x" for x by (cases x) simp_all
  qed auto
  with inv show ?thesis by (auto simp: sbuf_inv_def stored_items_def)
qed

text \<open>The logs tell how a step changes the stored items.\<close>

lemma stored_items_step:
  assumes "sbuf_inv n c" and "sbuf_step c c'"
  shows "log_in c' = log_in c \<Longrightarrow> log_out c' = log_out c \<Longrightarrow> stored_items c' = stored_items c"
    and "log_in c' = log_in c @ [x] \<Longrightarrow> log_out c' = log_out c \<Longrightarrow>
      stored_items c' = stored_items c @ [x] \<and> length (stored_items c) < n"
    and "log_in c' = log_in c \<Longrightarrow> log_out c' = log_out c @ [x] \<Longrightarrow> stored_items c = x # stored_items c'"
proof -
  note inv' = sbuf_inv_step [OF assms(2,1)]
  have log: "log_in c = log_out c @ stored_items c" "log_in c' = log_out c' @ stored_items c'" "length (stored_items c') \<le> n"
    using assms(1) inv' length_stored_items [OF inv'] by (simp_all add: sbuf_inv_def)
  then show "log_in c' = log_in c \<Longrightarrow> log_out c' = log_out c \<Longrightarrow> stored_items c' = stored_items c"
    and "log_in c' = log_in c \<Longrightarrow> log_out c' = log_out c @ [x] \<Longrightarrow> stored_items c = x # stored_items c'" by auto
  assume "log_in c' = log_in c @ [x]" and "log_out c' = log_out c"
  with log(1,2) have "stored_items c' = stored_items c @ [x]" by simp
  with log(3) show "stored_items c' = stored_items c @ [x] \<and> length (stored_items c) < n" by simp
qed

lemma list_update_same: "xs ! i = y \<Longrightarrow> xs[i := y] = xs"
  by auto

lemma queue_view_step:
  assumes "sbuf_inv n c" and "sbuf_step c c'"
  shows "(queue_step n)\<^sup>=\<^sup>= (queue_view c) (queue_view c')"
proof -
  note S = stored_items_step [OF assms]
  from assms(2) show ?thesis
  proof (cases rule: sbuf_step.cases)
    case (call_insert i x)
    with S(1) q_call_insert [of i "queue_view c" n x] show ?thesis by (simp add: queue_view_def map_update)
  next
    case (ins_put i x)
    with S(2) [of x] q_insert [of i "queue_view c" x n] show ?thesis by (simp add: queue_view_def map_update)
  next
    case (ins_post i)
    with S(1) q_return_insert [of i "queue_view c" n] show ?thesis by (simp add: queue_view_def map_update)
  next
    case (call_remove i)
    with S(1) q_call_remove [of i "queue_view c" n] show ?thesis by (simp add: queue_view_def map_update)
  next
    case (rem_get i)
    with S(3) [of "get_item (sp c)"] q_remove [of i "queue_view c" "get_item (sp c)" "stored_items c'" n]
    show ?thesis by (simp add: queue_view_def map_update)
  next
    case (rem_post i x)
    with S(1) q_return_remove [of i "queue_view c" x n] show ?thesis by (simp add: queue_view_def map_update)
  qed (use S(1) in \<open>auto simp: queue_view_def map_update list_update_same\<close>)
qed

interpretation sbuf_sim: simulation sbuf_step "queue_step n" queue_view "sbuf_inv n" for n
  by unfold_locales (erule (1) sbuf_inv_step [rotated], erule (1) queue_view_step)

section \<open>A bounded queue\<close>

text \<open>
  What the operations promise when run alone: \<open>content\<close> is the queue, \<open>room\<close> the number of
  insertions that still succeed.
\<close>

locale bounded_fifo =
  fixes content :: "'s \<Rightarrow> 'a list"
    and room :: "'s \<Rightarrow> nat"
    and ok :: "'s \<Rightarrow> bool"
    and enq :: "'s \<Rightarrow> 'a \<Rightarrow> 's run"
    and deq :: "'s \<Rightarrow> ('a \<times> 's) run"
  assumes enq_ok: "ok s \<Longrightarrow> 0 < room s \<Longrightarrow>
      \<exists>s'. enq s x = Some (Ret s') \<and> ok s' \<and> content s' = content s @ [x] \<and> room s \<le> room s' + 1"
    and deq_ok: "ok s \<Longrightarrow> content s = x # xs \<Longrightarrow>
      \<exists>s'. deq s = Some (Ret (x, s')) \<and> ok s' \<and> content s' = xs \<and> room s \<le> room s'"
    and deq_empty: "ok s \<Longrightarrow> content s = [] \<Longrightarrow> deq s = None"
begin

lemma enq_all_ok:
  assumes "ok s" and "length xs \<le> room s"
  shows "\<exists>s'. enq_all enq xs s = Some (Ret s') \<and> ok s' \<and> content s' = content s @ xs"
  using assms
proof (induction xs arbitrary: s)
  case (Cons x xs)
  then obtain s' where s': "enq s x = Some (Ret s')" "ok s'" "content s' = content s @ [x]" "room s \<le> room s' + 1"
    using enq_ok [of s x] by auto
  with Cons.IH [of s'] Cons.prems(2) show ?case by auto
qed simp

lemma deq_all_ok:
  assumes "ok s" and "content s = xs @ ys"
  shows "\<exists>s'. deq_all deq (length xs) s = Some (Ret (xs, s')) \<and> ok s' \<and> content s' = ys"
  using assms
proof (induction xs arbitrary: s)
  case (Cons x xs)
  then obtain s' where s': "deq s = Some (Ret (x, s'))" "ok s'" "content s' = xs @ ys"
    using deq_ok [of s x "xs @ ys"] by auto
  with Cons.IH [of s'] show ?case by auto
qed simp

lemma fifo:
  assumes "ok s" and "content s = []" and "length xs \<le> room s"
  shows "\<exists>s1 s2. enq_all enq xs s = Some (Ret s1) \<and> deq_all deq (length xs) s1 = Some (Ret (xs, s2))
    \<and> content s2 = [] \<and> deq s2 = None"
  using enq_all_ok [OF assms(1,3)] assms(2) deq_all_ok [of _ xs "[]"] deq_empty by fastforce

end

definition sbuf_content :: "sbuf_t \<Rightarrow> int list" where
  "sbuf_content b = map (\<lambda>j. buf b (j mod sb_n b)) [front b + 1..<rear b + 1]"

definition sbuf_room :: "sbuf_t \<Rightarrow> nat" where
  "sbuf_room b = min (slots b) (INT_MAX - rear b)"

definition sbuf_ok :: "sbuf_t \<Rightarrow> bool" where
  "sbuf_ok b \<longleftrightarrow> mutex b = 1 \<and> front b \<le> rear b \<and> rear b \<le> INT_MAX
     \<and> items b = rear b - front b \<and> slots b + items b = sb_n b"

interpretation sbuf: bounded_fifo sbuf_content sbuf_room sbuf_ok sbuf_insert sbuf_remove
proof
  fix b :: sbuf_t and x y :: int and xs
  assume ok: "sbuf_ok b"
  show "\<exists>b'. sbuf_insert b x = Some (Ret b') \<and> sbuf_ok b' \<and> sbuf_content b' = sbuf_content b @ [x]
      \<and> sbuf_room b \<le> sbuf_room b' + 1" if "0 < sbuf_room b"
  proof -
    let ?b = "b\<lparr>slots := slots b - 1, items := items b + 1, rear := rear b + 1,
      buf := (buf b)((rear b + 1) mod sb_n b := x)\<rparr>"
    have pos: "0 < slots b" "rear b < INT_MAX" using that by (auto simp: sbuf_room_def)
    have "sbuf_insert b x = Some (Ret ?b)"
      using ok pos by (auto simp: sbuf_insert_def P_def V_def bump_rear_def put_item_def sbuf_ok_def Let_def
          split: nat.splits)
    moreover have "sbuf_ok ?b" using ok pos by (auto simp: sbuf_ok_def)
    moreover have "[front b + 1..<rear b + 1 + 1] = [front b + 1..<rear b + 1] @ [rear b + 1]"
      using ok by (simp add: sbuf_ok_def)
    moreover have "j mod sb_n b \<noteq> (rear b + 1) mod sb_n b" if "j \<in> set [front b + 1..<rear b + 1]" for j
      using that ok pos by (intro mod_distinct) (auto simp: sbuf_ok_def)
    moreover have "front b \<le> rear b" using ok by (simp add: sbuf_ok_def)
    ultimately show ?thesis using pos by (auto simp: sbuf_content_def sbuf_room_def)
  qed
  show "\<exists>b'. sbuf_remove b = Some (Ret (y, b')) \<and> sbuf_ok b' \<and> sbuf_content b' = xs \<and> sbuf_room b \<le> sbuf_room b'"
    if "sbuf_content b = y # xs"
  proof -
    let ?b = "b\<lparr>items := items b - 1, slots := slots b + 1, front := front b + 1\<rparr>"
    have lt: "front b < rear b" using that by (cases "front b < rear b") (auto simp: sbuf_content_def)
    then have "[front b + 1..<rear b + 1] = (front b + 1) # [front b + 1 + 1..<rear b + 1]"
      by (simp add: upt_conv_Cons)
    with that have "buf b ((front b + 1) mod sb_n b) = y" "sbuf_content ?b = xs"
      by (auto simp: sbuf_content_def)
    moreover have "sbuf_remove b = Some (Ret (buf b ((front b + 1) mod sb_n b), ?b))"
      using ok lt by (auto simp: sbuf_remove_def P_def V_def bump_front_def get_item_def sbuf_ok_def Let_def
          split: nat.splits)
    moreover have "sbuf_ok ?b" using ok lt by (auto simp: sbuf_ok_def)
    ultimately show ?thesis by (auto simp: sbuf_room_def)
  qed
  show "sbuf_remove b = None" if "sbuf_content b = []"
    using ok that by (auto simp: sbuf_remove_def sbuf_content_def sbuf_ok_def P_def split: nat.splits if_splits)
qed

section \<open>Properties\<close>

lemma sbuf_reachable_inv: "sbuf_reachable n t c \<Longrightarrow> sbuf_inv n c"
  by (induction rule: sbuf_reachable.induct) (auto intro: sbuf_inv_init sbuf_inv_step)

text \<open>A reachable state for the witnesses: one thread, holding the lock for an insertion.\<close>

definition demo_sys :: sys where
  "demo_sys = \<lparr>sp = (sbuf_init 2)\<lparr>slots := 1, mutex := 0\<rparr>, threads = [InsBump 7], log_in = [], log_out = []\<rparr>"

lemma demo_sys_reachable: "sbuf_reachable 2 1 demo_sys"
proof -
  let ?c = "sys_init 2 1"
  have 1: "sbuf_reachable 2 1 (?c\<lparr>threads := [InsSlots 7]\<rparr>)"
    using sbuf_reachable.step [OF sbuf_reachable.init sbuf_step.call_insert [of 0 ?c 7]]
    by (simp add: sys_init_def)
  have 2: "sbuf_reachable 2 1 (?c\<lparr>sp := (sp ?c)\<lparr>slots := 1\<rparr>, threads := [InsMutex 7]\<rparr>)"
    using sbuf_reachable.step [OF 1 sbuf_step.ins_slots [of 0 _ 7 1]]
    by (simp add: sys_init_def sbuf_init_def P_def)
  show ?thesis
    using sbuf_reachable.step [OF 2 sbuf_step.ins_mutex [of 0 _ 7 0]]
    by (simp add: sys_init_def sbuf_init_def P_def demo_sys_def)
qed

text \<open>
  the buffer is a queue under every interleaving of any number of threads: the items
  removed so far are the first items inserted, in the order of insertion, and the items
  still stored, at most \<open>n\<close>, are the rest.
\<close>

theorem sbuf_fifo:
  assumes "sbuf_reachable n t c"
  shows "log_in c = log_out c @ stored_items c \<and> length (stored_items c) \<le> n"
  using sbuf_reachable_inv [OF assms] length_stored_items by (auto simp: sbuf_inv_def)

theorem sbuf_fifo_witness:
  "log_in demo_sys = log_out demo_sys @ stored_items demo_sys \<and> length (stored_items demo_sys) \<le> 2"
  by (rule sbuf_fifo [OF demo_sys_reachable])

text \<open>
  C10: the buffer is linearizable.  Under every interleaving of any number of threads each
  action of a thread is, seen through the items stored and the phase of each thread's
  operation, one step of the atomic bounded queue or none: an insertion takes effect where
  it stores its item and only while fewer than \<open>n\<close> items are queued, a removal where it
  loads its item, which is the first of the queue.
\<close>

theorem sbuf_linearizable:
  assumes "sbuf_reachable n t c"
  shows "(queue_step n)\<^sup>*\<^sup>* \<lparr>queue = [], ops = replicate t Free\<rparr> (queue_view c)
    \<and> (\<forall>c'. sbuf_step c c' \<longrightarrow> (queue_step n)\<^sup>=\<^sup>= (queue_view c) (queue_view c'))"
proof -
  have "sbuf_step\<^sup>*\<^sup>* (sys_init n t) c"
    using assms by (induction rule: sbuf_reachable.induct) auto
  from sbuf_sim.sim_run [OF this sbuf_inv_init] queue_view_step show ?thesis
    by (auto simp: queue_view_def sys_init_def stored_items_def sbuf_init_def tally_def)
qed

theorem sbuf_linearizable_witness:
  "(queue_step 2)\<^sup>*\<^sup>* \<lparr>queue = [], ops = [Free]\<rparr> \<lparr>queue = [], ops = [Inserting 7]\<rparr>"
  using sbuf_linearizable [OF demo_sys_reachable]
  by (simp add: queue_view_def demo_sys_def stored_items_def sbuf_init_def tally_def)

text \<open>
  C33: mutual exclusion and bounds.  In every reachable state at most one thread is between
  \<open>P(&mutex)\<close> and \<open>V(&mutex)\<close>, the counters are at most \<open>n\<close> apart and every index used is
  inside the array.
\<close>

theorem sbuf_mutual_exclusion:
  assumes "sbuf_reachable n t c" and "0 < n" and "i < length (threads c)" and "j < length (threads c)"
    and "in_lock (threads c ! i)" and "in_lock (threads c ! j)"
  shows "i = j \<and> front (sp c) \<le> rear (sp c) \<and> rear (sp c) - front (sp c) \<le> n
    \<and> rear (sp c) mod sb_n (sp c) < n \<and> front (sp c) mod sb_n (sp c) < n"
proof -
  note I = sbuf_reachable_inv [OF assms(1), unfolded sbuf_inv_def]
  then have "tally in_lock (threads c) \<le> 1" by simp
  from tally_le1 [OF this assms(3,4,5,6)] I assms(2) show ?thesis by auto
qed

theorem sbuf_mutual_exclusion_witness:
  "in_lock (threads demo_sys ! 0) \<and> rear (sp demo_sys) - front (sp demo_sys) \<le> 2
    \<and> rear (sp demo_sys) mod sb_n (sp demo_sys) < 2"
  using sbuf_mutual_exclusion [OF demo_sys_reachable, of 0 0] by (simp add: demo_sys_def)

text \<open>
  C34: no deadlock in the middle of an operation.  As long as the counters have not reached
  \<open>INT_MAX\<close>, whenever a thread has passed the first \<open>P\<close> of its operation and not yet
  finished it, some thread can take its next action.
\<close>

theorem sbuf_progress:
  assumes "sbuf_reachable n t c" and "rear (sp c) < INT_MAX" and "i < length (threads c)"
    and "\<forall>x. threads c ! i \<notin> {Idle, RemItems, InsSlots x}"
  shows "\<exists>j c'. j < length (threads c) \<and> threads c ! j \<noteq> Idle
    \<and> sbuf_step c c' \<and> threads c' ! j \<noteq> threads c ! j"
proof -
  note I = sbuf_reachable_inv [OF assms(1), unfolded sbuf_inv_def]
  have step: "\<exists>j c'. j < length (threads c) \<and> threads c ! j \<noteq> Idle \<and> sbuf_step c c' \<and> threads c' ! j \<noteq> threads c ! j"
    if "j < length (threads c)" "threads c ! j \<noteq> Idle" "sbuf_step c c'" "threads c' = (threads c)[j := q]" "q \<noteq> threads c ! j"
    for j c' q using that by (intro exI [of _ j] exI [of _ c']) simp
  have locked: ?thesis if j: "j < length (threads c)" and "in_lock (threads c ! j)" for j
    using that(2)
  proof (cases "threads c ! j")
    case (InsBump x)
    then show ?thesis using step [OF j _ sbuf_step.ins_bump [OF j InsBump]] assms(2) by (auto simp: bump_rear_def)
  next
    case (InsPut x)
    then show ?thesis using step [OF j _ sbuf_step.ins_put [OF j InsPut]] by auto
  next
    case InsUnlock
    then show ?thesis using step [OF j _ sbuf_step.ins_unlock [OF j InsUnlock]] by auto
  next
    case RemBump
    have "front (sp c) < INT_MAX" using I assms(2) by auto
    then show ?thesis using RemBump step [OF j _ sbuf_step.rem_bump [OF j RemBump]] by (auto simp: bump_front_def)
  next
    case RemGet
    then show ?thesis using step [OF j _ sbuf_step.rem_get [OF j RemGet]] by auto
  next
    case (RemUnlock x)
    then show ?thesis using step [OF j _ sbuf_step.rem_unlock [OF j RemUnlock]] by auto
  qed simp_all
  have free: "\<exists>v. P (mutex (sp c)) = Some v" if "\<forall>j < length (threads c). \<not> in_lock (threads c ! j)"
  proof -
    from that have "tally in_lock (threads c) = 0" by (auto simp: tally_def filter_empty_conv in_set_conv_nth)
    with I show ?thesis by (auto simp: P_def)
  qed
  show ?thesis
  proof (cases "\<exists>j < length (threads c). in_lock (threads c ! j)")
    case True
    with locked show ?thesis by blast
  next
    case False
    with free obtain v where v: "P (mutex (sp c)) = Some v" by blast
    show ?thesis
    proof (cases "threads c ! i")
      case (InsMutex x)
      then show ?thesis using step [OF assms(3) _ sbuf_step.ins_mutex [OF assms(3) InsMutex v]] by auto
    next
      case InsPost
      then show ?thesis using step [OF assms(3) _ sbuf_step.ins_post [OF assms(3) InsPost]] by auto
    next
      case RemMutex
      then show ?thesis using step [OF assms(3) _ sbuf_step.rem_mutex [OF assms(3) RemMutex v]] by auto
    next
      case (RemPost x)
      then show ?thesis using step [OF assms(3) _ sbuf_step.rem_post [OF assms(3) RemPost]] by auto
    qed (use assms(3,4) False in auto)
  qed
qed

theorem sbuf_progress_witness:
  "\<exists>j c'. j < length (threads demo_sys) \<and> threads demo_sys ! j \<noteq> Idle
    \<and> sbuf_step demo_sys c' \<and> threads c' ! j \<noteq> threads demo_sys ! j"
  by (rule sbuf_progress [OF demo_sys_reachable, of 0])
    (simp_all add: demo_sys_def sbuf_init_def INT_MAX_def)

text \<open>
  run alone on a fresh buffer, up to \<open>n\<close> insertions succeed without blocking and the
  same number of removals returns the items in the same order, after which a further
  removal blocks.
\<close>

theorem sbuf_sequential_fifo:
  assumes "length xs \<le> n" and "n \<le> INT_MAX"
  shows "\<exists>s1 s2. enq_all sbuf_insert xs (sbuf_init n) = Some (Ret s1)
    \<and> deq_all sbuf_remove (length xs) s1 = Some (Ret (xs, s2)) \<and> sbuf_remove s2 = None"
proof -
  have "sbuf_ok (sbuf_init n)" "sbuf_content (sbuf_init n) = []" "length xs \<le> sbuf_room (sbuf_init n)"
    using assms by (simp_all add: sbuf_ok_def sbuf_init_def sbuf_content_def sbuf_room_def)
  from sbuf.fifo [OF this] show ?thesis by blast
qed

theorem sbuf_sequential_fifo_witness:
  "\<exists>s1 s2. enq_all sbuf_insert [7, 8, 9] (sbuf_init 3) = Some (Ret s1)
    \<and> deq_all sbuf_remove 3 s1 = Some (Ret ([7, 8, 9], s2)) \<and> sbuf_remove s2 = None"
  using sbuf_sequential_fifo [of "[7, 8, 9]" 3] by (simp add: INT_MAX_def numeral_3_eq_3)

end
