(* ===== verification/Rio.thy ===== *)
theory Rio
  imports Sim_Kernel
begin

text \<open>
  The robust I/O package (\<open>csapp/system_io/rio.cc\<close>, \<open>rio_t\<close> in \<open>csapp/csapp.h\<close>): unbuffered
  reading and writing of a given number of bytes, and buffered reading of bytes and lines.

  The two functions that read \<open>n\<close> bytes have the same body over two different sources, the
  kernel's \<open>read\<close> and the buffered \<open>rio_read\<close>.  The body is modelled once, over a source
  given as a function; the locale \<open>byte_source\<close> states what it relies on, and both sources
  are shown to provide it.

  The lemmas show that the functions return, that they deliver exactly the next bytes of
  the stream however it is cut into transfers, and what \<open>rio_readlineb\<close> returns on every
  way its loop can end.
\<close>

section \<open>Data\<close>

definition RIO_BUFSIZE :: nat where "RIO_BUFSIZE = 8192"

text \<open>\<open>rio_bufptr\<close> is the distance of the pointer from the start of the buffer.\<close>

record rio_t =
  rio_fd :: int
  rio_cnt :: int
  rio_bufptr :: nat
  rio_buf :: "nat \<Rightarrow> byte"

section \<open>Operations\<close>

text \<open>
  The body of \<open>rio_readn\<close> and \<open>rio_readnb\<close>.  \<open>get n a\<close> asks the source in state \<open>a\<close> for at
  most \<open>n\<close> bytes: a result \<open>None\<close> is \<open>-1\<close>, otherwise the bytes whose number is returned;
  \<open>err\<close> reads \<open>errno\<close>.  \<open>acc\<close> holds the bytes stored in the user's buffer so far.  The
  first component of the result is \<open>None\<close> for the early return of \<open>-1\<close>, otherwise the
  final \<open>nleft\<close>.
\<close>

partial_function (option) readn_loop ::
  "(nat \<Rightarrow> 'a \<Rightarrow> (byte list option \<times> 'a) option) \<Rightarrow> ('a \<Rightarrow> errno) \<Rightarrow> nat \<Rightarrow> byte list \<Rightarrow> 'a
    \<Rightarrow> (nat option \<times> byte list \<times> 'a) option" where
  "readn_loop get err nleft acc a =
     (if 0 < nleft
      then case get nleft a of
          None \<Rightarrow> None
        | Some (None, a') \<Rightarrow>
            if err a' = EINTR then readn_loop get err nleft acc a' else Some (None, acc, a')
        | Some (Some bs, a') \<Rightarrow>
            if bs = [] then Some (Some nleft, acc, a')
            else readn_loop get err (nleft - length bs) (acc @ bs) a'
      else Some (Some nleft, acc, a))"

text \<open>The value returned for a requested \<open>n\<close>.\<close>

definition readn_value :: "nat \<Rightarrow> nat option \<Rightarrow> int" where
  "readn_value n r = (case r of None \<Rightarrow> - 1 | Some nleft \<Rightarrow> int n - int nleft)"

definition rio_readn :: "'w kernel \<Rightarrow> int \<Rightarrow> nat \<Rightarrow> 'w proc \<Rightarrow> (int \<times> byte list \<times> 'w proc) option" where
  "rio_readn k fd n s =
     map_option (apfst (readn_value n)) (readn_loop (\<lambda>m s. Some (sys_read k fd m s)) errno n [] s)"

text \<open>
  The test of \<open>errno\<close> follows any result that is not positive, so after a \<open>write\<close> that
  returned zero it reads what an earlier call left.
\<close>

partial_function (option) writen_loop ::
  "'w kernel \<Rightarrow> int \<Rightarrow> byte list \<Rightarrow> 'w proc \<Rightarrow> (bool \<times> 'w proc) option" where
  "writen_loop k fd bs s =
     (if bs \<noteq> []
      then case sys_write k fd bs s of
          (r, s') \<Rightarrow>
            (let nwritten = (case r of None \<Rightarrow> 0 | Some n \<Rightarrow> n) in
             if nwritten = 0 \<and> errno s' \<noteq> EINTR then Some (False, s')
             else writen_loop k fd (drop nwritten bs) s')
      else Some (True, s))"

definition rio_writen :: "'w kernel \<Rightarrow> int \<Rightarrow> byte list \<Rightarrow> 'w proc \<Rightarrow> (int \<times> 'w proc) option" where
  "rio_writen k fd bs s = map_option (apfst (\<lambda>ok. if ok then int (length bs) else - 1)) (writen_loop k fd bs s)"

definition rio_readinitb :: "int \<Rightarrow> rio_t \<Rightarrow> rio_t" where
  "rio_readinitb fd rp = rp\<lparr>rio_fd := fd, rio_cnt := 0, rio_bufptr := 0\<rparr>"

text \<open>
  The refilling loop of \<open>rio_read\<close>.  The first component is the value returned early
  (\<open>-1\<close> or \<open>0\<close>), or \<open>None\<close> if the loop ended with bytes in the buffer.
\<close>

partial_function (option) rio_fill ::
  "'w kernel \<Rightarrow> rio_t \<Rightarrow> 'w proc \<Rightarrow> (int option \<times> rio_t \<times> 'w proc) option" where
  "rio_fill k rp s =
     (if rio_cnt rp \<le> 0
      then case sys_read k (rio_fd rp) RIO_BUFSIZE s of
          (None, s') \<Rightarrow>
            (let rp' = rp\<lparr>rio_cnt := - 1\<rparr> in
             if errno s' \<noteq> EINTR then Some (Some (- 1), rp', s') else rio_fill k rp' s')
        | (Some bs, s') \<Rightarrow>
            (let rp' = rp\<lparr>rio_cnt := int (length bs), rio_buf := store (rio_buf rp) 0 bs\<rparr> in
             if bs = [] then Some (Some 0, rp', s')
             else rio_fill k (rp'\<lparr>rio_bufptr := 0\<rparr>) s')
      else Some (None, rp, s))"

text \<open>The bytes copied to the user's buffer stand for their number; \<open>None\<close> is \<open>-1\<close>.\<close>

definition rio_read :: "'w kernel \<Rightarrow> nat \<Rightarrow> rio_t \<times> 'w proc \<Rightarrow> (byte list option \<times> rio_t \<times> 'w proc) option" where
  "rio_read k n a = (case rio_fill k (fst a) (snd a) of
       None \<Rightarrow> None
     | Some (Some v, rp, s) \<Rightarrow> Some (if v < 0 then None else Some [], rp, s)
     | Some (None, rp, s) \<Rightarrow>
         (let cnt = (if rio_cnt rp < int n then nat (rio_cnt rp) else n) in
          Some (Some (load (rio_buf rp) (rio_bufptr rp) cnt),
                rp\<lparr>rio_bufptr := rio_bufptr rp + cnt, rio_cnt := rio_cnt rp - int cnt\<rparr>, s)))"

definition rio_readnb :: "'w kernel \<Rightarrow> nat \<Rightarrow> rio_t \<times> 'w proc \<Rightarrow> (int \<times> byte list \<times> rio_t \<times> 'w proc) option" where
  "rio_readnb k n a =
     map_option (apfst (readn_value n)) (readn_loop (rio_read k) (\<lambda>a. errno (snd a)) n [] a)"

text \<open>
  The loop of \<open>rio_readlineb\<close>, again over a source; \<open>n\<close> is the loop counter, an \<open>int\<close> that is
  compared with the \<open>size_t\<close> \<open>maxlen\<close> and whose increment can overflow.  The first component
  is \<open>Inl\<close> for an early return or the overflow, \<open>Inr n\<close> for the value at the end of the loop.
\<close>

function readline_loop ::
  "(nat \<Rightarrow> 'a \<Rightarrow> (byte list option \<times> 'a) option) \<Rightarrow> nat \<Rightarrow> nat \<Rightarrow> byte list \<Rightarrow> 'a
    \<Rightarrow> ((int outcome + nat) \<times> byte list \<times> 'a) option" where
  "readline_loop get maxlen n acc a =
     (if n < maxlen
      then case get 1 a of
          None \<Rightarrow> None
        | Some (None, a') \<Rightarrow> Some (Inl (Ret (- 1)), acc, a')
        | Some (Some [], a') \<Rightarrow> if n = 1 then Some (Inl (Ret 0), acc, a') else Some (Inr n, acc, a')
        | Some (Some (c # _), a') \<Rightarrow>
            if c = 10 then Some (Inr n, acc @ [c], a')
            else if n = INT_MAX then Some (Inl (Fault SignedOverflow), acc @ [c], a')
            else readline_loop get maxlen (n + 1) (acc @ [c]) a'
      else Some (Inr n, acc, a))"
  by pat_completeness auto
termination by (relation "measure (\<lambda>(get, maxlen, n, acc, a). maxlen - n)") auto

declare readline_loop.simps [simp del]

text \<open>
  The result value, the bytes in the user's buffer (with the terminating zero when it is
  written) and the new state.  The zero does not fit a buffer of length zero.
\<close>

definition rio_readlineb :: "'w kernel \<Rightarrow> nat \<Rightarrow> rio_t \<times> 'w proc
    \<Rightarrow> (int \<times> byte list \<times> rio_t \<times> 'w proc) run" where
  "rio_readlineb k maxlen a = (case readline_loop (rio_read k) maxlen 1 [] a of
       None \<Rightarrow> None
     | Some (Inl v, buf, a') \<Rightarrow> Some (map_outcome (\<lambda>v. (v, buf, a')) v)
     | Some (Inr n, buf, a') \<Rightarrow>
         if maxlen = 0 then Some (Fault BufferOverflow) else Some (Ret (int n, buf @ [0], a')))"

section \<open>Byte sources\<close>

text \<open>
  What the loops rely on: a request for at least one byte returns, delivers a part of the
  remaining bytes from the front, delivers nothing only at the end, loses nothing on an
  error, and is interrupted only finitely often.  \<open>failed\<close> holds of the states in which a
  request can leave the source when it reports an error.
\<close>

locale byte_source =
  fixes get :: "nat \<Rightarrow> 'a \<Rightarrow> (byte list option \<times> 'a) option"
    and err :: "'a \<Rightarrow> errno"
    and rest :: "'a \<Rightarrow> byte list"
    and energy :: "'a \<Rightarrow> nat"
    and ok :: "'a \<Rightarrow> bool"
    and failed :: "'a \<Rightarrow> bool"
  assumes get_returns: "ok a \<Longrightarrow> 0 < n \<Longrightarrow> \<exists>r a'. get n a = Some (r, a') \<and> ok a'"
    and get_bytes: "ok a \<Longrightarrow> 0 < n \<Longrightarrow> get n a = Some (Some bs, a') \<Longrightarrow>
      length bs \<le> n \<and> rest a = bs @ rest a'"
    and get_end: "ok a \<Longrightarrow> 0 < n \<Longrightarrow> get n a = Some (Some [], a') \<Longrightarrow> rest a = []"
    and get_error: "ok a \<Longrightarrow> 0 < n \<Longrightarrow> get n a = Some (None, a') \<Longrightarrow> rest a' = rest a"
    and get_failed: "ok a \<Longrightarrow> 0 < n \<Longrightarrow> get n a = Some (None, a') \<Longrightarrow> failed a'"
    and get_retry: "ok a \<Longrightarrow> 0 < n \<Longrightarrow> get n a = Some (None, a') \<Longrightarrow> err a' = EINTR \<Longrightarrow>
      energy a' < energy a"
begin

lemma get_cases:
  assumes "ok a" and "0 < n"
  obtains (error) a' where "get n a = Some (None, a')" and "ok a'" and "rest a' = rest a" and "failed a'"
  | (eof) a' where "get n a = Some (Some [], a')" and "ok a'" and "rest a = []" and "rest a' = []"
  | (bytes) bs a' where "get n a = Some (Some bs, a')" and "ok a'" and "bs \<noteq> []"
      and "length bs \<le> n" and "rest a = bs @ rest a'"
proof -
  obtain r a' where g: "get n a = Some (r, a')" "ok a'" using get_returns [OF assms] by blast
  show ?thesis
  proof (cases r)
    case None
    with g get_error [OF assms] get_failed [OF assms] show ?thesis by (intro error [of a']) auto
  next
    case (Some bs)
    show ?thesis
    proof (cases "bs = []")
      case True
      with g Some get_bytes [OF assms] get_end [OF assms] show ?thesis by (intro eof [of a']) auto
    next
      case False
      with g Some get_bytes [OF assms] show ?thesis by (intro bytes [of bs a']) auto
    qed
  qed
qed

text \<open>
  The loop returns; it has stored the bytes it consumed, which are all the bytes asked for,
  or all there are, unless an error other than an interruption ended it.
\<close>

lemma readn_loop_spec:
  assumes "ok a"
  shows "\<exists>r bs a'. readn_loop get err n acc a = Some (r, acc @ bs, a') \<and> ok a'
    \<and> rest a = bs @ rest a' \<and> length bs \<le> n
    \<and> (case r of None \<Rightarrow> err a' \<noteq> EINTR | Some nleft \<Rightarrow> nleft = n - length bs \<and> bs = take n (rest a))"
  using assms
proof (induction "(n, energy a)" arbitrary: n acc a
    rule: wf_induct_rule [OF wf_lex_prod [OF wf_less_than wf_less_than]])
  case (1 n a acc)
  show ?case
  proof (cases "0 < n")
    case False
    with 1(2) show ?thesis by (subst readn_loop.simps) simp
  next
    case True
    with 1(2) show ?thesis
    proof (cases rule: get_cases)
      case (error a')
      show ?thesis
      proof (cases "err a' = EINTR")
        case intr: True
        with get_retry [OF 1(2) True error(1)]
        have "((n, energy a'), (n, energy a)) \<in> less_than <*lex*> less_than" by simp
        from 1(1) [OF this error(2), of acc, unfolded error(3)] intr error(1) True show ?thesis
          by (subst readn_loop.simps) simp
      next
        case False
        with error True 1(2) show ?thesis by (subst readn_loop.simps) auto
      qed
    next
      case (eof a')
      with True show ?thesis by (subst readn_loop.simps) auto
    next
      case (bytes bs a')
      then have "((n - length bs, energy a'), (n, energy a)) \<in> less_than <*lex*> less_than"
        using True by (cases bs) auto
      from 1(1) [OF this bytes(2), of "acc @ bs"] obtain r cs a'' where IH:
          "readn_loop get err (n - length bs) (acc @ bs) a' = Some (r, (acc @ bs) @ cs, a'')" "ok a''"
          "rest a' = cs @ rest a''" "length cs \<le> n - length bs"
          "case r of None \<Rightarrow> err a'' \<noteq> EINTR
             | Some nleft \<Rightarrow> nleft = n - length bs - length cs \<and> cs = take (n - length bs) (rest a')"
        by blast
      have "readn_loop get err n acc a = Some (r, acc @ (bs @ cs), a'')"
        using bytes True IH(1) by (subst readn_loop.simps) simp
      moreover have "rest a = (bs @ cs) @ rest a''" using bytes(5) IH(3) by simp
      moreover have "length (bs @ cs) \<le> n" using bytes(4) IH(4) by simp
      moreover have "take n (rest a) = bs @ take (n - length bs) (rest a')"
        unfolding bytes(5) using bytes(4) by simp
      then have "case r of None \<Rightarrow> err a'' \<noteq> EINTR
          | Some nleft \<Rightarrow> nleft = n - length (bs @ cs) \<and> bs @ cs = take n (rest a)"
        using IH(5) by (simp split: option.splits)
      ultimately show ?thesis using IH(2) by blast
    qed
  qed
qed

text \<open>
  The line loop returns; unless an error ended it, what it stored is the next line, cut to
  the room left, and it has consumed exactly that.  The counter ends one higher than the
  number of bytes stored, except when a newline ended the loop.
\<close>

lemma readline_loop_spec:
  assumes "ok a" and "length acc + 1 = n" and "1 \<le> n" and "maxlen \<le> INT_MAX"
  shows "\<exists>r bs a'. readline_loop get maxlen n acc a = Some (r, acc @ bs, a') \<and> ok a'
    \<and> rest a = bs @ rest a' \<and> length bs \<le> maxlen - n
    \<and> (r = Inl (Ret (- 1)) \<and> failed a' \<or> bs = next_line (maxlen - n) (rest a)
        \<and> (if acc @ bs = [] \<and> 1 < maxlen then r = Inl (Ret 0)
           else if bs \<noteq> [] \<and> last bs = 10 then r = Inr (length (acc @ bs))
           else r = Inr (length (acc @ bs) + 1)))"
  using assms
proof (induction "maxlen - n" arbitrary: n acc a)
  case 0
  then show ?case by (subst readline_loop.simps) auto
next
  case (Suc m)
  then have lt: "n < maxlen" by simp
  have m: "maxlen - n = Suc (maxlen - (n + 1))" using lt by simp
  have nm: "n \<noteq> INT_MAX" using lt Suc.prems(4) by simp
  have z: "0 < (1 :: nat)" by simp
  from Suc.prems(1) z show ?case
  proof (cases rule: get_cases)
    case (error a')
    with lt Suc.prems(1) show ?thesis by (subst readline_loop.simps) auto
  next
    case (eof a')
    with lt Suc.prems show ?thesis by (subst readline_loop.simps) (auto simp: m)
  next
    case (bytes bs a')
    then obtain c where bs: "bs = [c]" by (cases bs) auto
    show ?thesis
    proof (cases "c = 10")
      case True
      with bytes bs lt Suc.prems show ?thesis
        by (subst readline_loop.simps) (auto simp: m intro!: exI [of _ "[c]"])
    next
      case False
      have "m = maxlen - (n + 1)" "length (acc @ [c]) + 1 = n + 1" "1 \<le> n + 1"
        using Suc.hyps(2) Suc.prems(2) by simp_all
      from Suc.hyps(1) [OF this(1) bytes(2) this(2,3) Suc.prems(4)] obtain r cs a'' where IH:
          "readline_loop get maxlen (n + 1) (acc @ [c]) a' = Some (r, (acc @ [c]) @ cs, a'')" "ok a''"
          "rest a' = cs @ rest a''" "length cs \<le> maxlen - (n + 1)"
          "r = Inl (Ret (- 1)) \<and> failed a'' \<or> cs = next_line (maxlen - (n + 1)) (rest a')
           \<and> (if (acc @ [c]) @ cs = [] \<and> 1 < maxlen then r = Inl (Ret 0)
              else if cs \<noteq> [] \<and> last cs = 10 then r = Inr (length ((acc @ [c]) @ cs))
              else r = Inr (length ((acc @ [c]) @ cs) + 1))"
        by blast
      have "readline_loop get maxlen n acc a = Some (r, acc @ (c # cs), a'')"
        using bytes bs False lt nm IH(1) by (subst readline_loop.simps) simp
      moreover have "rest a = (c # cs) @ rest a''" using bytes(5) bs IH(3) by simp
      moreover have "next_line (maxlen - n) (rest a) = c # next_line (maxlen - (n + 1)) (rest a')"
        using bytes(5) bs False by (simp add: m)
      moreover have "length (c # cs) \<le> maxlen - n" using IH(4) m by simp
      ultimately show ?thesis
        using IH(2,5) False
        by (intro exI [of _ r] exI [of _ "c # cs"] exI [of _ a'']) (auto split: if_splits)
    qed
  qed
qed

end

section \<open>The two sources\<close>

text \<open>The unread bytes of a buffered reader, and the invariant of its counters.\<close>

definition rio_unread :: "rio_t \<Rightarrow> byte list" where
  "rio_unread rp = load (rio_buf rp) (rio_bufptr rp) (nat (rio_cnt rp))"

definition rio_ok :: "rio_t \<Rightarrow> bool" where
  "rio_ok rp \<longleftrightarrow> rio_bufptr rp + nat (rio_cnt rp) \<le> RIO_BUFSIZE"

lemma rio_fill_full: "0 < rio_cnt rp \<Longrightarrow> rio_fill k rp s = Some (None, rp, s)"
  by (simp add: rio_fill.simps)

lemma rio_readinitb_ok [simp]: "rio_ok (rio_readinitb fd rp)" "rio_unread (rio_readinitb fd rp) = []"
  "rio_fd (rio_readinitb fd rp) = fd"
  by (simp_all add: rio_ok_def rio_unread_def rio_readinitb_def)

context read_kernel
begin

abbreviation (input) remaining :: "rio_t \<times> 'w proc \<Rightarrow> byte list" where
  "remaining a \<equiv> rio_unread (fst a) @ incoming (rio_fd (fst a)) (world (snd a))"

text \<open>The process has just come from a \<open>read\<close> on \<open>fd\<close> that failed, other than by an interruption.\<close>

definition read_failed :: "int \<Rightarrow> 'w proc \<Rightarrow> bool" where
  "read_failed fd s \<longleftrightarrow> errno s \<noteq> EINTR \<and> (\<exists>n w. k_read k fd n w = (Fail (errno s), world s))"

lemma rio_fill_spec:
  assumes "rio_ok rp"
  shows "\<exists>r rp' s'. rio_fill k rp s = Some (r, rp', s') \<and> rio_ok rp' \<and> rio_fd rp' = rio_fd rp
    \<and> remaining (rp', s') = remaining (rp, s) \<and> patience (world s') \<le> patience (world s)
    \<and> (r = Some (- 1) \<and> read_failed (rio_fd rp) s' \<or> r = Some 0 \<and> remaining (rp, s) = [] \<or> r = None \<and> 0 < rio_cnt rp')"
  using assms
proof (induction "patience (world s)" arbitrary: rp s rule: less_induct)
  case less
  show ?case
  proof (cases "rio_cnt rp \<le> 0")
    case False
    with less.prems show ?thesis by (simp add: rio_fill_full)
  next
    case True
    then have e: "rio_unread rp = []" by (simp add: rio_unread_def)
    obtain x s1 where c: "sys_read k (rio_fd rp) RIO_BUFSIZE s = (x, s1)" by fastforce
    show ?thesis
    proof (cases x)
      case None
      note N = sys_read_None [OF c [unfolded None]]
      have e': "rio_unread (rp\<lparr>rio_cnt := - 1\<rparr>) = []" by (simp add: rio_unread_def)
      have ok': "rio_ok (rp\<lparr>rio_cnt := - 1\<rparr>)" using less.prems by (simp add: rio_ok_def)
      show ?thesis
      proof (cases "errno s1 = EINTR")
        case intr: True
        from less.hyps [OF N(3) ok'] intr e e' N(1) True c None N(2) show ?thesis
          by (subst rio_fill.simps) (auto simp: Let_def)
      next
        case False
        then have "read_failed (rio_fd rp) s1" using syscall_NoneD [OF c [unfolded None]] by (auto simp: read_failed_def)
        with False True c None N(1,2) e e' ok' show ?thesis by (subst rio_fill.simps) (simp add: Let_def)
      qed
    next
      case (Some bs)
      note S = sys_read_Some [OF c [unfolded Some]]
      let ?rp = "rp\<lparr>rio_cnt := int (length bs), rio_buf := store (rio_buf rp) 0 bs, rio_bufptr := 0\<rparr>"
      have u: "rio_unread ?rp = bs" using load_store_same [of "rio_buf rp" 0 bs] by (simp add: rio_unread_def)
      have ok': "rio_ok ?rp" using S(1) by (simp add: rio_ok_def)
      show ?thesis
      proof (cases "bs = []")
        case True
        have "rio_ok (rp\<lparr>rio_cnt := 0, rio_buf := store (rio_buf rp) 0 []\<rparr>)"
          using less.prems by (simp add: rio_ok_def)
        with True \<open>rio_cnt rp \<le> 0\<close> c Some S(2-4) e show ?thesis
          by (subst rio_fill.simps) (simp add: Let_def rio_unread_def RIO_BUFSIZE_def)
      next
        case False
        then have "rio_fill k rp s = Some (None, ?rp, s1)"
          using True c Some rio_fill_full [of ?rp k s1] by (subst rio_fill.simps) (simp add: Let_def)
        with S(2,3) u e ok' False show ?thesis by simp
      qed
    qed
  qed
qed

lemma rio_read_cases:
  assumes "rio_ok (fst a)" and "0 < n"
  obtains (error) rp s where "rio_read k n a = Some (None, rp, s)" and "read_failed (rio_fd (fst a)) s"
      and "remaining (rp, s) = remaining a" and "rio_ok rp" and "rio_fd rp = rio_fd (fst a)"
  | (eof) rp s where "rio_read k n a = Some (Some [], rp, s)" and "remaining a = []"
      and "remaining (rp, s) = []" and "rio_ok rp" and "rio_fd rp = rio_fd (fst a)"
  | (bytes) bs rp s where "rio_read k n a = Some (Some bs, rp, s)" and "bs \<noteq> []" and "length bs \<le> n"
      and "remaining a = bs @ remaining (rp, s)" and "rio_ok rp" and "rio_fd rp = rio_fd (fst a)"
proof -
  obtain rp0 s0 where a: "a = (rp0, s0)" by fastforce
  obtain r rp s where f: "rio_fill k rp0 s0 = Some (r, rp, s)" "rio_ok rp" "rio_fd rp = rio_fd rp0"
      "remaining (rp, s) = remaining (rp0, s0)"
    and r: "r = Some (- 1) \<and> read_failed (rio_fd rp0) s \<or> r = Some 0 \<and> remaining (rp0, s0) = [] \<or> r = None \<and> 0 < rio_cnt rp"
    using rio_fill_spec [of rp0 s0] assms(1) a by auto
  from r consider "r = Some (- 1)" "read_failed (rio_fd rp0) s" | "r = Some 0" "remaining (rp0, s0) = []"
    | "r = None" "0 < rio_cnt rp" by blast
  then show ?thesis
  proof cases
    case 1
    with f a show ?thesis by (intro error [of rp s]) (auto simp: rio_read_def)
  next
    case 2
    with f a show ?thesis by (intro eof [of rp s]) (auto simp: rio_read_def)
  next
    case 3
    define m where "m = (if rio_cnt rp < int n then nat (rio_cnt rp) else n)"
    let ?rp = "rp\<lparr>rio_bufptr := rio_bufptr rp + m, rio_cnt := rio_cnt rp - int m\<rparr>"
      and ?bs = "load (rio_buf rp) (rio_bufptr rp) m"
    have c: "0 < m" "m \<le> n" "m \<le> nat (rio_cnt rp)" using 3(2) assms(2) by (auto simp: m_def)
    have "nat (rio_cnt rp) = m + nat (rio_cnt rp - int m)" using c(3) 3(2) by auto
    then have u: "rio_unread rp = ?bs @ rio_unread ?rp" by (simp add: rio_unread_def load_split)
    have "rio_ok ?rp" using f(2) c(3) by (auto simp: rio_ok_def)
    moreover have "rio_read k n a = Some (Some ?bs, ?rp, s)"
      using f(1) 3(1) a by (simp add: rio_read_def Let_def m_def)
    moreover have "?bs \<noteq> []" using c(1) by (metis length_load length_greater_0_conv)
    moreover have "remaining a = ?bs @ remaining (?rp, s)" using f(4) u a by simp
    ultimately show ?thesis using f(3) a c(2) by (intro bytes [of ?bs ?rp s]) auto
  qed
qed

end

text \<open>The kernel's \<open>read\<close> is a byte source, and so is a buffered reader on top of it.\<close>

sublocale read_kernel \<subseteq> raw: byte_source "\<lambda>m s. Some (sys_read k fd m s)" errno
  "\<lambda>s. incoming fd (world s)" "\<lambda>s. patience (world s)" "\<lambda>_. True"
  "\<lambda>s. \<exists>n w. k_read k fd n w = (Fail (errno s), world s)" for fd
proof unfold_locales
  fix a :: "'w proc" and n a' and bs :: "byte list"
  show "\<exists>r a'. Some (sys_read k fd n a) = Some (r, a') \<and> True" by auto
  show "length bs \<le> n \<and> incoming fd (world a) = bs @ incoming fd (world a')"
    if "Some (sys_read k fd n a) = Some (Some bs, a')"
    using that sys_read_Some(1,2) [of fd n a bs a'] by simp
  show "incoming fd (world a) = []" if "0 < n" "Some (sys_read k fd n a) = Some (Some [], a')"
    using that sys_read_Some(4) [of fd n a "[]" a'] by simp
  show "incoming fd (world a') = incoming fd (world a)" if "Some (sys_read k fd n a) = Some (None, a')"
    using that sys_read_None(1) [of fd n a a'] by simp
  show "\<exists>n w. k_read k fd n w = (Fail (errno a'), world a')" if "Some (sys_read k fd n a) = Some (None, a')"
    using that syscall_NoneD [of "k_read k fd n" a a'] by auto
  show "patience (world a') < patience (world a)"
    if "Some (sys_read k fd n a) = Some (None, a')" "errno a' = EINTR"
    using that sys_read_None(3) [of fd n a a'] by simp
qed

sublocale read_kernel \<subseteq> rio: byte_source "rio_read k" "\<lambda>a. errno (snd a)"
  "\<lambda>a. rio_unread (fst a) @ incoming fd (world (snd a))" "\<lambda>a. 0"
  "\<lambda>a. rio_ok (fst a) \<and> rio_fd (fst a) = fd" "\<lambda>a. read_failed fd (snd a)" for fd
proof unfold_locales
  fix a :: "rio_t \<times> 'w proc" and n :: nat and a' and bs :: "byte list"
  assume ok: "rio_ok (fst a) \<and> rio_fd (fst a) = fd" and n: "0 < n"
  let ?r = "\<lambda>a. rio_unread (fst a) @ incoming fd (world (snd a))"
  from ok have ok1: "rio_ok (fst a)" by simp
  show "\<exists>r a'. rio_read k n a = Some (r, a') \<and> rio_ok (fst a') \<and> rio_fd (fst a') = fd"
    by (rule rio_read_cases [OF ok1 n]) (use ok in auto)
  show "length bs \<le> n \<and> ?r a = bs @ ?r a'" if "rio_read k n a = Some (Some bs, a')"
    by (rule rio_read_cases [OF ok1 n]) (use ok that in auto)
  show "?r a = []" if "rio_read k n a = Some (Some [], a')"
    by (rule rio_read_cases [OF ok1 n]) (use ok that in auto)
  show "?r a' = ?r a" if "rio_read k n a = Some (None, a')"
    by (rule rio_read_cases [OF ok1 n]) (use ok that in auto)
  show "read_failed fd (snd a')" if "rio_read k n a = Some (None, a')"
    by (rule rio_read_cases [OF ok1 n]) (use ok that in auto)
  show "(0 :: nat) < 0" if "rio_read k n a = Some (None, a')" "errno (snd a') = EINTR"
    by (rule rio_read_cases [OF ok1 n]) (use ok that in \<open>auto simp: read_failed_def\<close>)
qed

context read_kernel
begin

lemmas raw_readn = raw.readn_loop_spec
lemmas rio_readn_buffered = rio.readn_loop_spec
lemmas rio_readline = rio.readline_loop_spec

end

context write_kernel
begin

lemma writen_loop_spec:
  "\<exists>r s' n. writen_loop k fd bs s = Some (r, s') \<and> n \<le> length bs
    \<and> outgoing fd (world s') = outgoing fd (world s) @ take n bs \<and> (r \<longrightarrow> n = length bs)"
proof (induction "(length bs, patience (world s))" arbitrary: bs s
    rule: wf_induct_rule [OF wf_lex_prod [OF wf_less_than wf_less_than]])
  case (1 bs s)
  show ?case
  proof (cases "bs = []")
    case True
    then show ?thesis by (subst writen_loop.simps) (simp add: exI [of _ True])
  next
    case False
    obtain x s1 where c: "sys_write k fd bs s = (x, s1)" by fastforce
    show ?thesis
    proof (cases x)
      case None
      note N = sys_write_None [OF c [unfolded None]]
      show ?thesis
      proof (cases "errno s1 = EINTR")
        case True
        with N(3) have "((length bs, patience (world s1)), (length bs, patience (world s))) \<in> less_than <*lex*> less_than"
          by simp
        from 1 [OF this] True N(1) False c None show ?thesis
          by (subst writen_loop.simps) (simp add: Let_def)
      next
        case intr: False
        with False c None N(1) show ?thesis
          by (subst writen_loop.simps) (auto simp: Let_def)
      qed
    next
      case (Some n)
      note W = sys_write_Some [OF c [unfolded Some]]
      with False have n: "0 < n" "n \<le> length bs" by auto
      then have "((length (drop n bs), patience (world s1)), (length bs, patience (world s))) \<in> less_than <*lex*> less_than"
        by auto
      from 1 [OF this] obtain r s' m where IH: "writen_loop k fd (drop n bs) s1 = Some (r, s')"
          "m \<le> length (drop n bs)" "outgoing fd (world s') = outgoing fd (world s1) @ take m (drop n bs)"
          "r \<longrightarrow> m = length (drop n bs)"
        by blast
      have "writen_loop k fd bs s = Some (r, s')"
        using False c Some n(1) IH(1) by (subst writen_loop.simps) (simp add: Let_def)
      moreover have "take (n + m) bs = take n bs @ take m (drop n bs)" by (rule take_add)
      ultimately show ?thesis using IH(2-4) W(2) n(2)
        by (intro exI [of _ r] exI [of _ s'] exI [of _ "n + m"]) auto
    qed
  qed
qed

end

context read_kernel
begin

lemma readlineb_line:
  assumes "rio_ok rp" and "rio_fd rp = fd" and "0 < maxlen" and "maxlen \<le> INT_MAX"
    and "line = next_line (maxlen - 1) (rio_unread rp @ incoming fd (world s))"
  shows "\<exists>r buf rp' s'. rio_readlineb k maxlen (rp, s) = Some (Ret (r, buf, rp', s'))
    \<and> rio_ok rp' \<and> rio_fd rp' = fd \<and> length buf \<le> maxlen
    \<and> (r = - 1 \<longrightarrow> errno s' \<noteq> EINTR \<and> (\<exists>m w. k_read k fd m w = (Fail (errno s'), world s'))
        \<and> rio_unread rp @ incoming fd (world s) = buf @ rio_unread rp' @ incoming fd (world s'))
    \<and> (r \<noteq> - 1 \<longrightarrow>
        rio_unread rp @ incoming fd (world s) = line @ rio_unread rp' @ incoming fd (world s')
        \<and> (if line = [] \<and> 1 < maxlen then r = 0 \<and> buf = []
           else buf = line @ [0] \<and>
             r = int (length line) + (if line \<noteq> [] \<and> last line = 10 then 0 else 1)))"
proof -
  let ?all = "rio_unread rp @ incoming fd (world s)"
  obtain r bs rp' s' where l: "readline_loop (rio_read k) maxlen 1 [] (rp, s) = Some (r, bs, rp', s')"
      "rio_ok rp'" "rio_fd rp' = fd" "?all = bs @ rio_unread rp' @ incoming fd (world s')" "length bs \<le> maxlen - 1"
    and c: "r = Inl (Ret (- 1)) \<and> read_failed fd s' \<or> bs = line \<and> (if bs = [] \<and> 1 < maxlen then r = Inl (Ret 0)
       else if bs \<noteq> [] \<and> last bs = 10 then r = Inr (length bs) else r = Inr (length bs + 1))"
    using rio_readline [of "(rp, s)" fd "[]" 1 maxlen] assms(1,2,4)
    unfolding fst_conv snd_conv append_Nil append_assoc split_paired_Ex assms(5) list.size add_0 by blast
  have len: "length line \<le> maxlen - 1" unfolding assms(5) by (rule length_next_line)
  from c consider "r = Inl (Ret (- 1))" "read_failed fd s'" | "bs = line" "r = Inl (Ret 0)" "line = []" "1 < maxlen"
    | n where "bs = line" "r = Inr n" "\<not> (line = [] \<and> 1 < maxlen)"
        "n = length line + (if line \<noteq> [] \<and> last line = 10 then 0 else 1)"
    by (auto split: if_splits)
  then show ?thesis
  proof cases
    case 1
    with l show ?thesis by (auto simp: rio_readlineb_def read_failed_def)
  next
    case 2
    with l show ?thesis by (simp add: rio_readlineb_def)
  next
    case 3
    with l assms(3) len show ?thesis by (auto simp: rio_readlineb_def)
  qed
qed

end

section \<open>A line that is already in the buffer\<close>

lemma rio_read_buffered:
  assumes "rio_unread rp = c # cs"
  obtains rp' where "rio_read k 1 (rp, s) = Some (Some [c], rp', s)" and "rio_unread rp' = cs"
proof -
  have pos: "0 < rio_cnt rp" using assms by (cases "0 < rio_cnt rp") (auto simp: rio_unread_def)
  then have "nat (rio_cnt rp) = 1 + nat (rio_cnt rp - 1)" by simp
  with assms have "load (rio_buf rp) (rio_bufptr rp) 1 @ load (rio_buf rp) (rio_bufptr rp + 1) (nat (rio_cnt rp - 1)) = c # cs"
    unfolding rio_unread_def by (metis load_split)
  moreover obtain x where "load (rio_buf rp) (rio_bufptr rp) 1 = [x]" by (metis length_load length_Suc_conv One_nat_def length_0_conv)
  ultimately have l: "load (rio_buf rp) (rio_bufptr rp) 1 = [c]"
      "load (rio_buf rp) (rio_bufptr rp + 1) (nat (rio_cnt rp - 1)) = cs" by auto
  show ?thesis
    by (rule that [of "rp\<lparr>rio_bufptr := rio_bufptr rp + 1, rio_cnt := rio_cnt rp - 1\<rparr>"])
      (use l pos in \<open>simp_all add: rio_read_def rio_fill_full rio_unread_def\<close>)
qed

lemma readline_loop_buffered:
  assumes "rio_unread rp = body @ 10 # rest" and "10 \<notin> set body" and "n + length body < maxlen" and "maxlen \<le> INT_MAX"
  shows "\<exists>rp'. readline_loop (rio_read k) maxlen n acc (rp, s) = Some (Inr (n + length body), acc @ body @ [10], rp', s)
    \<and> rio_unread rp' = rest"
  using assms
proof (induction body arbitrary: n acc rp)
  case Nil
  then have "rio_unread rp = 10 # rest" by simp
  then obtain rp' where "rio_read k 1 (rp, s) = Some (Some [10], rp', s)" "rio_unread rp' = rest"
    by (rule rio_read_buffered)
  with Nil(3) show ?case by (subst readline_loop.simps) simp
next
  case (Cons c body)
  then have "rio_unread rp = c # (body @ 10 # rest)" by simp
  then obtain rp1 where r: "rio_read k 1 (rp, s) = Some (Some [c], rp1, s)" "rio_unread rp1 = body @ 10 # rest"
    by (rule rio_read_buffered)
  from Cons.IH [OF r(2), of "n + 1" "acc @ [c]"] Cons.prems(2-4) r(1) show ?case
    by (subst readline_loop.simps) auto
qed

text \<open>If the refill brings a complete line, that line is returned and the rest stays in the buffer.\<close>

lemma rio_readlineb_refill:
  assumes "rio_cnt rp \<le> 0" and "sys_read k (rio_fd rp) RIO_BUFSIZE s = (Some bs, s1)"
    and "bs = body @ 10 # rest" and "10 \<notin> set body" and "length body + 1 < maxlen"
    and "maxlen \<le> INT_MAX"
  shows "\<exists>rp'. rio_readlineb k maxlen (rp, s) = Some (Ret (int (length body + 1), body @ [10, 0], rp', s1))
    \<and> rio_unread rp' = rest"
proof -
  let ?rp = "rp\<lparr>rio_cnt := int (length bs), rio_buf := store (rio_buf rp) 0 bs, rio_bufptr := 0\<rparr>"
  have "rio_unread ?rp = bs" using load_store_same [of "rio_buf rp" 0 bs] by (simp add: rio_unread_def)
  then have u: "rio_unread ?rp = body @ 10 # rest" by (simp only: assms(3))
  have "bs \<noteq> []" using assms(3) by simp
  then have "rio_fill k rp s = rio_fill k ?rp s1"
    using assms(1,2) by (subst rio_fill.simps) (simp add: Let_def)
  then have "rio_read k 1 (rp, s) = rio_read k 1 (?rp, s1)" by (simp add: rio_read_def)
  then have "readline_loop (rio_read k) maxlen 1 [] (rp, s) = readline_loop (rio_read k) maxlen 1 [] (?rp, s1)"
    using assms(5) by (subst (1 2) readline_loop.simps) simp
  with readline_loop_buffered [OF u assms(4), of 1 maxlen k "[]" s1] assms(5,6) show ?thesis
    by (auto simp: rio_readlineb_def)
qed

section \<open>What the calls leave alone\<close>

lemma readline_loop_inv:
  assumes "\<And>n a r a'. get n a = Some (r, a') \<Longrightarrow> Q a \<Longrightarrow> Q a' \<and> (b \<longrightarrow> r \<noteq> None)"
    and "readline_loop get maxlen n acc a = Some (r, buf, a')" and "Q a"
  shows "Q a' \<and> (b \<longrightarrow> r \<noteq> Inl (Ret (- 1)))"
  using assms(2,3)
proof (induction "maxlen - n" arbitrary: n acc a)
  case 0
  then show ?case by (auto simp: readline_loop.simps)
next
  case (Suc m)
  have "m = maxlen - (n + 1)" using Suc.hyps(2) by simp
  from Suc.prems(1) Suc.hyps(1) [OF this] show ?case
    using assms(1) [of 1 a] Suc.prems(2)
    by (subst (asm) readline_loop.simps)
      (auto split: option.splits list.splits if_splits)
qed

text \<open>
  A property \<open>Q\<close> of the world that no \<open>read\<close> destroys survives the reading functions; if
  in addition (\<open>b\<close>) interruptions are the only errors, the functions do not fail.
\<close>

locale read_invariant =
  fixes k :: "'w kernel" and Q :: "'w \<Rightarrow> bool" and b :: bool
  assumes inv_read: "k_read k fd n w = (r, w') \<Longrightarrow> Q w \<Longrightarrow>
    Q w' \<and> (b \<longrightarrow> (\<forall>e. r = Fail e \<longrightarrow> e = EINTR))"
begin

lemma inv_sys_read:
  assumes "sys_read k fd n s = (r, s')" and "Q (world s)"
  shows "Q (world s')" and "b \<Longrightarrow> r = None \<Longrightarrow> errno s' = EINTR"
  using assms inv_read [of fd n "world s"] syscall_SomeD [of "k_read k fd n" s _ s']
    syscall_NoneD [of "k_read k fd n" s s'] by (cases r; fastforce)+

lemma rio_fill_inv:
  assumes "rio_fill k rp s = Some y" and "Q (world s)"
  shows "Q (world (snd (snd y))) \<and> (b \<longrightarrow> (\<forall>v. fst y = Some v \<longrightarrow> v = 0))"
proof -
  define P where "P = (\<lambda>k' (rp :: rio_t) (s :: 'w proc) (y :: int option \<times> rio_t \<times> 'w proc).
    k' = k \<longrightarrow> Q (world s) \<longrightarrow> Q (world (snd (snd y))) \<and> (b \<longrightarrow> (\<forall>v. fst y = Some v \<longrightarrow> v = 0)))"
  have "P k rp s y"
  proof (rule rio_fill.raw_induct [where P = P, OF _ assms(1)])
    fix f and k' :: "'w kernel" and rp s y
    assume IH: "\<And>k' rp s y. f k' rp s = Some y \<Longrightarrow> P k' rp s y"
      and body: "(if rio_cnt rp \<le> 0
        then case sys_read k' (rio_fd rp) RIO_BUFSIZE s of
            (None, s') \<Rightarrow>
              (let rp' = rp\<lparr>rio_cnt := - 1\<rparr> in
               if errno s' \<noteq> EINTR then Some (Some (- 1), rp', s') else f k' rp' s')
          | (Some bs, s') \<Rightarrow>
              (let rp' = rp\<lparr>rio_cnt := int (length bs), rio_buf := store (rio_buf rp) 0 bs\<rparr> in
               if bs = [] then Some (Some 0, rp', s')
               else f k' (rp'\<lparr>rio_bufptr := 0\<rparr>) s')
        else Some (None, rp, s)) = Some y"
    obtain r s1 where c: "sys_read k (rio_fd rp) RIO_BUFSIZE s = (r, s1)" by fastforce
    show "P k' rp s y"
      using body c inv_sys_read [OF c]
      unfolding P_def by (cases y) (auto simp: Let_def P_def split: if_splits option.splits dest!: IH)
  qed
  with assms(2) show ?thesis by (simp add: P_def)
qed

lemma rio_read_inv:
  assumes "rio_read k n a = Some (r, a')" and "Q (world (snd a))"
  shows "Q (world (snd a')) \<and> (b \<longrightarrow> r \<noteq> None)"
  using assms rio_fill_inv [of "fst a" "snd a"]
  by (fastforce simp: rio_read_def Let_def split: option.splits if_splits)

lemma rio_readlineb_inv:
  assumes "rio_readlineb k maxlen a = Some (Ret (r, buf, a'))" and "Q (world (snd a))"
  shows "Q (world (snd a')) \<and> (b \<longrightarrow> r \<noteq> - 1)"
  using assms(1) readline_loop_inv [where get = "rio_read k" and Q = "\<lambda>a. Q (world (snd a))" and b = b,
      OF rio_read_inv _ assms(2)]
  by (fastforce simp: rio_readlineb_def map_outcome_Ret split: option.splits sum.splits if_splits)

end

locale write_invariant =
  fixes k :: "'w kernel" and Q :: "'w \<Rightarrow> bool" and b :: bool
  assumes inv_write: "k_write k fd bs w = (r, w') \<Longrightarrow> Q w \<Longrightarrow>
    Q w' \<and> (b \<longrightarrow> (\<forall>e. r = Fail e \<longrightarrow> e = EINTR) \<and> (bs \<noteq> [] \<longrightarrow> r \<noteq> Ok 0))"
begin

lemma inv_sys_write:
  assumes "sys_write k fd bs s = (r, s')" and "Q (world s)"
  shows "Q (world s')" and "b \<Longrightarrow> r = None \<Longrightarrow> errno s' = EINTR"
    and "b \<Longrightarrow> bs \<noteq> [] \<Longrightarrow> r \<noteq> Some 0"
  using assms inv_write [of fd bs "world s"] syscall_SomeD [of "k_write k fd bs" s _ s']
    syscall_NoneD [of "k_write k fd bs" s s'] by (cases r; fastforce)+

lemma writen_loop_inv:
  assumes "writen_loop k fd bs s = Some y" and "Q (world s)"
  shows "Q (world (snd y)) \<and> (b \<longrightarrow> fst y)"
proof -
  define P where "P = (\<lambda>k' (fd :: int) (bs :: byte list) (s :: 'w proc) (y :: bool \<times> 'w proc).
    k' = k \<longrightarrow> Q (world s) \<longrightarrow> Q (world (snd y)) \<and> (b \<longrightarrow> fst y))"
  have "P k fd bs s y"
  proof (rule writen_loop.raw_induct [where P = P, OF _ assms(1)])
    fix f and k' :: "'w kernel" and fd bs s y
    assume IH: "\<And>k' fd bs s y. f k' fd bs s = Some y \<Longrightarrow> P k' fd bs s y"
      and body: "(if bs \<noteq> []
        then case sys_write k' fd bs s of
            (r, s') \<Rightarrow>
              (let nwritten = (case r of None \<Rightarrow> 0 | Some n \<Rightarrow> n) in
               if nwritten = 0 \<and> errno s' \<noteq> EINTR then Some (False, s')
               else f k' fd (drop nwritten bs) s')
        else Some (True, s)) = Some y"
    obtain r s1 where c: "sys_write k fd bs s = (r, s1)" by fastforce
    show "P k' fd bs s y"
      using body c inv_sys_write [OF c]
      unfolding P_def by (cases y) (auto simp: Let_def P_def split: if_splits option.splits dest!: IH)
  qed
  with assms(2) show ?thesis by (simp add: P_def)
qed

lemma rio_writen_inv:
  assumes "rio_writen k fd bs s = Some (r, s')" and "Q (world s)"
  shows "Q (world s') \<and> (b \<longrightarrow> r \<noteq> - 1)"
  using assms(1) writen_loop_inv [OF _ assms(2)] by (fastforce simp: rio_writen_def)

end

text \<open>
  Reading leaves the outgoing streams alone and writing the incoming ones; a steady world
  stays steady, and there the functions do not fail.
\<close>

sublocale stream_kernel \<subseteq> r_out: read_invariant k "\<lambda>w. outgoing fd' w = x" False for fd' x
  by unfold_locales (simp add: read_frame)

sublocale stream_kernel \<subseteq> w_in: write_invariant k "\<lambda>w. incoming fd' w = x" False for fd' x
  by unfold_locales (simp add: write_frame)

sublocale steady_stream \<subseteq> r_steady: read_invariant k steady True
  by unfold_locales (simp add: steady_read)

sublocale steady_stream \<subseteq> w_steady: write_invariant k steady True
  by unfold_locales (use steady_write write_progress in fastforce)

context stream_kernel
begin

lemmas readlineb_outgoing = r_out.rio_readlineb_inv
lemmas writen_incoming = w_in.rio_writen_inv

end

context steady_stream
begin

lemmas readlineb_steady = r_steady.rio_readlineb_inv
lemmas writen_steady = w_steady.rio_writen_inv

end

section \<open>Properties\<close>

text \<open>
  \<open>rio_readn\<close> always returns, however often it is interrupted and however short the
  transfers are.  The bytes it stored are exactly the ones consumed from the stream; its
  result is \<open>-1\<close> after an error that is not an interruption, and otherwise their number,
  and then they are the \<open>n\<close> bytes asked for, or all bytes up to the end of the stream.
\<close>

theorem rio_readn_exact:
  assumes "read_kernel k incoming patience"
  shows "\<exists>r bs s'. rio_readn k fd n s = Some (r, bs, s')
    \<and> incoming fd (world s) = bs @ incoming fd (world s')
    \<and> (r = - 1 \<and> errno s' \<noteq> EINTR \<or> r = int (length bs) \<and> bs = take n (incoming fd (world s)))"
proof -
  obtain r bs s' where l: "readn_loop (\<lambda>m s. Some (sys_read k fd m s)) errno n [] s = Some (r, bs, s')"
      "incoming fd (world s) = bs @ incoming fd (world s')" "length bs \<le> n"
      "case r of None \<Rightarrow> errno s' \<noteq> EINTR
         | Some nleft \<Rightarrow> nleft = n - length bs \<and> bs = take n (incoming fd (world s))"
    using read_kernel.raw_readn [OF assms, where a = s and fd = fd and n = n and acc = "[]"] by auto
  have "rio_readn k fd n s = Some (readn_value n r, bs, s')" by (simp add: rio_readn_def l(1))
  moreover have "readn_value n r = - 1 \<and> errno s' \<noteq> EINTR
      \<or> readn_value n r = int (length bs) \<and> bs = take n (incoming fd (world s))"
    using l(3,4) by (auto simp: readn_value_def split: option.splits)
  ultimately show ?thesis using l(2) by blast
qed

theorem rio_readn_exact_witness:
  "\<exists>r bs s'. rio_readn sim_kernel 5 4 \<lparr>errno = EAGAIN, world = quiet\<lparr>inq := (\<lambda>_. [1, 2, 3]),
      schedule := [Chunk 0, Intr, Chunk 0]\<rparr>\<rparr> = Some (r, bs, s')
    \<and> [1, 2, 3] = bs @ sim_incoming 5 (world s')
    \<and> (r = - 1 \<and> errno s' \<noteq> EINTR \<or> r = int (length bs) \<and> bs = take 4 [1, 2, 3])"
  using rio_readn_exact [OF sim_k.read_kernel_axioms, where fd = 5 and n = 4
      and s = "\<lparr>errno = EAGAIN, world = quiet\<lparr>inq := (\<lambda>_. [1, 2, 3]), schedule := [Chunk 0, Intr, Chunk 0]\<rparr>\<rparr>"]
  by (simp add: sim_obs)

text \<open>
  C35: \<open>rio_readnb\<close> delivers, from the reader's buffer followed by the stream, exactly the
  next \<open>n\<close> bytes or all up to the end, and nothing read ahead into the buffer is lost; it
  returns \<open>-1\<close> only after an error that is not an interruption.
\<close>

theorem rio_readnb_exact:
  assumes "read_kernel k incoming patience" and "rio_ok rp" and "rio_fd rp = fd"
  shows "\<exists>r bs rp' s'. rio_readnb k n (rp, s) = Some (r, bs, rp', s') \<and> rio_ok rp' \<and> rio_fd rp' = fd
    \<and> rio_unread rp @ incoming fd (world s) = bs @ rio_unread rp' @ incoming fd (world s')
    \<and> (r = - 1 \<and> errno s' \<noteq> EINTR
       \<or> r = int (length bs) \<and> bs = take n (rio_unread rp @ incoming fd (world s)))"
proof -
  obtain r bs rp' s' where l:
      "readn_loop (rio_read k) (\<lambda>a. errno (snd a)) n [] (rp, s) = Some (r, bs, rp', s')"
      "rio_ok rp'" "rio_fd rp' = fd"
      "rio_unread rp @ incoming fd (world s) = bs @ rio_unread rp' @ incoming fd (world s')" "length bs \<le> n"
      "case r of None \<Rightarrow> errno s' \<noteq> EINTR
         | Some nleft \<Rightarrow> nleft = n - length bs \<and> bs = take n (rio_unread rp @ incoming fd (world s))"
    using read_kernel.rio_readn_buffered [OF assms(1), of "(rp, s)" fd n "[]"] assms(2,3)
    unfolding fst_conv snd_conv append_Nil append_assoc split_paired_Ex by blast
  have "rio_readnb k n (rp, s) = Some (readn_value n r, bs, rp', s')" by (simp add: rio_readnb_def l(1))
  moreover have "readn_value n r = - 1 \<and> errno s' \<noteq> EINTR
      \<or> readn_value n r = int (length bs) \<and> bs = take n (rio_unread rp @ incoming fd (world s))"
    using l(5,6) by (auto simp: readn_value_def split: option.splits)
  ultimately show ?thesis using l(2-4) by blast
qed

definition demo_rio :: rio_t where
  "demo_rio = rio_readinitb 5 \<lparr>rio_fd = 0, rio_cnt = 9, rio_bufptr = 77, rio_buf = (\<lambda>_. 0)\<rparr>"

lemma demo_rio [simp]: "rio_ok demo_rio" "rio_fd demo_rio = 5" "rio_unread demo_rio = []"
  by (simp_all add: demo_rio_def)

theorem rio_readnb_exact_witness:
  "\<exists>r bs rp' s'. rio_readnb sim_kernel 2 (demo_rio, \<lparr>errno = EAGAIN, world = quiet\<lparr>inq := (\<lambda>_. [1, 2, 3]),
      schedule := [Chunk 0, Intr]\<rparr>\<rparr>) = Some (r, bs, rp', s')
    \<and> [1, 2, 3] = bs @ rio_unread rp' @ sim_incoming 5 (world s')
    \<and> (r = - 1 \<and> errno s' \<noteq> EINTR \<or> r = int (length bs) \<and> bs = [1, 2])"
  using rio_readnb_exact [OF sim_k.read_kernel_axioms demo_rio(1,2), where n = 2
      and s = "\<lparr>errno = EAGAIN, world = quiet\<lparr>inq := (\<lambda>_. [1, 2, 3]), schedule := [Chunk 0, Intr]\<rparr>\<rparr>"]
  by (fastforce simp: sim_obs)

text \<open>
  C23: \<open>rio_readlineb\<close>, asked for a line that its counter can count, always returns.  It
  returns \<open>-1\<close> only as the result of a \<open>read\<close> that failed with an error other than an
  interruption, which is the \<open>errno\<close> it leaves, and then it has stored all that it consumed.
  Otherwise it stores exactly the next line (through its newline, or to the end of the
  stream, or as much as leaves room for the terminating zero) and consumes nothing more; at
  the end of the stream it returns 0.  The
  result is the number of bytes stored if the line is complete; for a line cut short by the
  end of the stream or by the buffer it is one more than that, so a caller that takes it
  for the length also takes the terminating zero for data.
\<close>

theorem rio_readlineb_line:
  assumes "read_kernel k incoming patience" and "rio_ok rp" and "rio_fd rp = fd" and "0 < maxlen"
    and "maxlen \<le> INT_MAX" and "line = next_line (maxlen - 1) (rio_unread rp @ incoming fd (world s))"
  shows "\<exists>r buf rp' s'. rio_readlineb k maxlen (rp, s) = Some (Ret (r, buf, rp', s'))
    \<and> rio_ok rp' \<and> rio_fd rp' = fd \<and> length buf \<le> maxlen
    \<and> (r = - 1 \<longrightarrow> errno s' \<noteq> EINTR \<and> (\<exists>m w. k_read k fd m w = (Fail (errno s'), world s'))
        \<and> rio_unread rp @ incoming fd (world s) = buf @ rio_unread rp' @ incoming fd (world s'))
    \<and> (r \<noteq> - 1 \<longrightarrow>
        rio_unread rp @ incoming fd (world s) = line @ rio_unread rp' @ incoming fd (world s')
        \<and> (if line = [] \<and> 1 < maxlen then r = 0 \<and> buf = []
           else buf = line @ [0] \<and>
             r = int (length line) + (if line \<noteq> [] \<and> last line = 10 then 0 else 1)))"
  by (rule read_kernel.readlineb_line [OF assms])

theorem rio_readlineb_line_witness:
  "\<exists>r buf rp' s'. rio_readlineb sim_kernel 2 (demo_rio, \<lparr>errno = EAGAIN, world = quiet\<lparr>inq := (\<lambda>_. [104, 105]),
      schedule := [Chunk 0, Intr]\<rparr>\<rparr>) = Some (Ret (r, buf, rp', s'))
    \<and> r = 2 \<and> buf = [104, 0]"
proof -
  let ?s = "\<lparr>errno = EAGAIN, world = quiet\<lparr>inq := (\<lambda>_. [104, 105]), schedule := [Chunk 0, Intr]\<rparr>\<rparr>"
  have "[104] = next_line (2 - 1) (rio_unread demo_rio @ sim_incoming 5 (world ?s))"
    by (simp add: sim_obs)
  from rio_readlineb_line [OF sim_k.read_kernel_axioms demo_rio(1,2) _ _ this] obtain r buf rp' s' where
      c: "rio_readlineb sim_kernel 2 (demo_rio, ?s) = Some (Ret (r, buf, rp', s'))"
    and d: "r \<noteq> - 1 \<longrightarrow> r = 2 \<and> buf = [104, 0]" by (auto simp: INT_MAX_def)
  have "r \<noteq> - 1"
    using steady_stream.readlineb_steady [OF sim_steady_k.steady_stream_axioms c] by (simp add: sim_steady_def)
  with c d show ?thesis by blast
qed

text \<open>
  C36: \<open>rio_writen\<close> always returns.  Whatever the interruptions and short writes, it has
  appended a prefix of the buffer to the outgoing stream and nothing else, and unless it
  returns \<open>-1\<close> it returns the length of the buffer and the prefix is the whole buffer.
\<close>

theorem rio_writen_exact:
  assumes "write_kernel k outgoing patience"
  shows "\<exists>r s' n. rio_writen k fd bs s = Some (r, s')
    \<and> outgoing fd (world s') = outgoing fd (world s) @ take n bs \<and> n \<le> length bs
    \<and> (r = - 1 \<or> r = int (length bs) \<and> n = length bs)"
proof -
  from write_kernel.writen_loop_spec [OF assms] obtain r s' n where
      "writen_loop k fd bs s = Some (r, s')" "n \<le> length bs"
      "outgoing fd (world s') = outgoing fd (world s) @ take n bs" "r \<longrightarrow> n = length bs"
    by blast
  then show ?thesis by (cases r) (auto simp: rio_writen_def)
qed

theorem rio_writen_exact_witness:
  "\<exists>r s' n. rio_writen sim_kernel 5 [1, 2, 3] \<lparr>errno = EAGAIN, world = quiet\<lparr>schedule := [Chunk 0, Intr]\<rparr>\<rparr>
      = Some (r, s') \<and> sim_outgoing 5 (world s') = take n [1, 2, 3] \<and> n \<le> 3 \<and> (r = - 1 \<or> r = 3 \<and> n = 3)"
  using rio_writen_exact [OF sim_k.write_kernel_axioms, where fd = 5 and bs = "[1, 2, 3]"
      and s = "\<lparr>errno = EAGAIN, world = quiet\<lparr>schedule := [Chunk 0, Intr]\<rparr>\<rparr>"]
  by (simp add: sim_obs quiet_def numeral_3_eq_3)

end
