(* ===== verification/Echo_Servers.thy ===== *)
theory Echo_Servers
  imports Rio Inet_Socket
begin

text \<open>
  The line-echo programs built on the robust I/O package: the iterative server
  (\<open>csapp/network_program/server.cc\<close>), the server that forks a process per client
  (\<open>csapp/concurrent_program/echo_serverp.cc\<close>), the one that also watches its terminal
  (\<open>csapp/concurrent_program/select.cc\<close>) and the client
  (\<open>csapp/network_program/client.cc\<close>).  The three servers share \<open>echo\<close> and \<open>open_listenfd\<close>
  word for word.

  Messages printed for the operator are left out; what the client prints for its user is
  part of the model.
\<close>

section \<open>Shared functions\<close>

definition MAXLINE :: nat where "MAXLINE = 8192"

text \<open>\<open>atoi\<close>, on strings whose value fits an \<open>int\<close>.\<close>

definition isspace :: "char \<Rightarrow> bool" where
  "isspace c \<longleftrightarrow> (of_char c :: nat) = 32 \<or> 9 \<le> (of_char c :: nat) \<and> (of_char c :: nat) \<le> 13"

definition atoi :: "string \<Rightarrow> int" where
  "atoi cs = (case dropWhile isspace cs of
     [] \<Rightarrow> 0
   | c # ds \<Rightarrow> if c = CHR ''-'' then - int (digits_value (takeWhile digit ds))
              else if c = CHR ''+'' then int (digits_value (takeWhile digit ds))
              else int (digits_value (takeWhile digit (c # ds))))"

definition open_listenfd :: "'w kernel \<Rightarrow> int \<Rightarrow> 'w proc \<Rightarrow> int \<times> 'w proc" where
  "open_listenfd k port s = (case syscall (k_socket k AF_INET) s of
     (None, s1) \<Rightarrow> (- 1, s1)
   | (Some listenfd, s1) \<Rightarrow> (case syscall (k_setsockopt_reuseaddr k listenfd) s1 of
     (None, s2) \<Rightarrow> (- 1, s2)
   | (Some _, s2) \<Rightarrow>
       (case syscall (k_bind k listenfd (SockIn (htons (of_int port)) INADDR_ANY)) s2 of
     (None, s3) \<Rightarrow> (- 1, s3)
   | (Some _, s3) \<Rightarrow> (case syscall (k_listen k listenfd 1024) s3 of
     (None, s4) \<Rightarrow> (- 1, s4)
   | (Some _, s4) \<Rightarrow> (listenfd, s4)))))"

text \<open>
  The loop of \<open>echo\<close>.  The result of \<open>rio_readlineb\<close> is converted to \<open>size_t\<close>, so its \<open>-1\<close>
  passes the test against zero and becomes the number of bytes to be written, which is more
  than the buffer holds.
\<close>

partial_function (option) echo_loop :: "'w kernel \<Rightarrow> int \<Rightarrow> rio_t \<Rightarrow> 'w proc \<Rightarrow> 'w proc run" where
  "echo_loop k connfd rio s = (case rio_readlineb k MAXLINE (rio, s) of
       None \<Rightarrow> None
     | Some (Exit c) \<Rightarrow> Some (Exit c)
     | Some (Fault e) \<Rightarrow> Some (Fault e)
     | Some (Ret (r, buf, rio', s1)) \<Rightarrow>
         (let n = (of_int r :: 64 word) in
          if n \<noteq> 0
          then if MAXLINE < unat n then Some (Fault OverRead)
               else case rio_writen k connfd (take (unat n) buf) s1 of
                   None \<Rightarrow> None
                 | Some (_, s2) \<Rightarrow> echo_loop k connfd rio' s2
          else Some (Ret s1)))"

text \<open>\<open>rio0\<close> is the content of the local variable before its initialisation.\<close>

definition echo :: "'w kernel \<Rightarrow> int \<Rightarrow> rio_t \<Rightarrow> 'w proc \<Rightarrow> 'w proc run" where
  "echo k connfd rio0 s = echo_loop k connfd (rio_readinitb connfd rio0) s"

text \<open>The result of \<open>accept\<close> as the programs use it: unchecked.\<close>

definition accept :: "'w kernel \<Rightarrow> int \<Rightarrow> 'w proc \<Rightarrow> int \<times> 'w proc" where
  "accept k listenfd s = (case syscall (k_accept k listenfd) s of
     (None, s1) \<Rightarrow> (- 1, s1)
   | (Some (connfd, _), s1) \<Rightarrow> (connfd, s1))"

text \<open>The start all servers have in common: the number of arguments, the port, the listener.\<close>

definition server_start :: "'w kernel \<Rightarrow> string list \<Rightarrow> 'w proc \<Rightarrow> (int \<times> 'w proc) run" where
  "server_start k argv s =
     (if length argv \<noteq> 2 then Some (Exit 0)
      else Some (Ret (open_listenfd k (atoi (argv ! 1)) s)))"

section \<open>The iterative server\<close>

text \<open>One round of the endless loop; the host lookup between its calls has no effect here.\<close>

definition serve_client :: "'w kernel \<Rightarrow> int \<Rightarrow> rio_t \<Rightarrow> 'w proc \<Rightarrow> 'w proc run" where
  "serve_client k listenfd rio0 s =
     (let (connfd, s1) = accept k listenfd s in
      run_bind (echo k connfd rio0 s1) (\<lambda>s2. Some (Ret (snd (sys_close k connfd s2)))))"

primrec serve_clients :: "nat \<Rightarrow> 'w kernel \<Rightarrow> int \<Rightarrow> rio_t \<Rightarrow> 'w proc \<Rightarrow> 'w proc run" where
  "serve_clients 0 k listenfd rio0 s = Some (Ret s)"
| "serve_clients (Suc n) k listenfd rio0 s =
     run_bind (serve_client k listenfd rio0 s) (\<lambda>s'. serve_clients n k listenfd rio0 s')"

definition iterative_main :: "nat \<Rightarrow> 'w kernel \<Rightarrow> string list \<Rightarrow> rio_t \<Rightarrow> 'w proc \<Rightarrow> 'w proc run" where
  "iterative_main n k argv rio0 s =
     run_bind (server_start k argv s) (\<lambda>(listenfd, s1). serve_clients n k listenfd rio0 s1)"

section \<open>The server with a process per client\<close>

text \<open>The handler of \<open>SIGCHLD\<close> reaps until no ended child is left.\<close>

partial_function (option) sigchld_handler :: "'w kernel \<Rightarrow> 'w proc \<Rightarrow> 'w proc option" where
  "sigchld_handler k s = (case syscall (k_waitpid k (- 1) True) s of
       (None, s1) \<Rightarrow> Some s1
     | (Some pid, s1) \<Rightarrow> if 0 < pid then sigchld_handler k s1 else Some s1)"

text \<open>
  One round.  \<open>fork\<close> returns in two processes; each continues with its own view of the
  world.  A failed \<open>fork\<close> returns \<open>-1\<close> in the parent only.
\<close>

definition fork :: "'w kernel \<Rightarrow> 'w proc \<Rightarrow> int \<times> 'w proc" where
  "fork k s = (case syscall (k_fork k) s of (None, s1) \<Rightarrow> (- 1, s1) | (Some pid, s1) \<Rightarrow> (pid, s1))"

definition fork_child :: "'w kernel \<Rightarrow> int \<Rightarrow> int \<Rightarrow> rio_t \<Rightarrow> 'w proc \<Rightarrow> 'w proc run" where
  "fork_child k listenfd connfd rio0 s =
     run_bind (echo k connfd rio0 (snd (sys_close k listenfd s))) (\<lambda>s1.
       Some (Ret (snd (sys_close k connfd s1))))"

definition fork_client :: "'w kernel \<Rightarrow> int \<Rightarrow> rio_t \<Rightarrow> 'w proc \<Rightarrow> 'w proc run" where
  "fork_client k listenfd rio0 s =
     (let (connfd, s1) = accept k listenfd s;
          (pid, s2) = fork k s1 in
      if pid = 0 then run_bind (fork_child k listenfd connfd rio0 s2) (\<lambda>_. Some (Exit 0))
      else Some (Ret (snd (sys_close k connfd s2))))"

text \<open>
  The parent's endless loop, cut after \<open>n\<close> rounds; before each round the handler runs if a
  \<open>SIGCHLD\<close> has arrived, as the list says.
\<close>

primrec fork_clients :: "bool list \<Rightarrow> 'w kernel \<Rightarrow> int \<Rightarrow> rio_t \<Rightarrow> 'w proc \<Rightarrow> 'w proc run" where
  "fork_clients [] k listenfd rio0 s = Some (Ret s)"
| "fork_clients (sig # sigs) k listenfd rio0 s =
     (case (if sig then sigchld_handler k s else Some s) of
        None \<Rightarrow> None
      | Some s1 \<Rightarrow> run_bind (fork_client k listenfd rio0 s1) (\<lambda>s2. fork_clients sigs k listenfd rio0 s2))"

definition fork_main :: "bool list \<Rightarrow> 'w kernel \<Rightarrow> string list \<Rightarrow> rio_t \<Rightarrow> 'w proc \<Rightarrow> 'w proc run" where
  "fork_main sigs k argv rio0 s =
     run_bind (server_start k argv s) (\<lambda>(listenfd, s1). fork_clients sigs k listenfd rio0 s1)"

section \<open>The server that watches its terminal\<close>

definition FD_SETSIZE :: int where "FD_SETSIZE = 1024"

text \<open>
  The macros index a bit array without a check.  For a number outside the set the behaviour
  is undefined (an access outside the array, or for a small negative number, depending on
  how the macro divides, a shift by a negative amount); the model has one fault for it.
\<close>

definition FD_SET :: "int \<Rightarrow> int set \<Rightarrow> (int set) run" where
  "FD_SET fd fds = (if 0 \<le> fd \<and> fd < FD_SETSIZE then Some (Ret (insert fd fds)) else Some (Fault BufferOverflow))"

definition FD_CLR :: "int \<Rightarrow> int set \<Rightarrow> (int set) run" where
  "FD_CLR fd fds = (if 0 \<le> fd \<and> fd < FD_SETSIZE then Some (Ret (fds - {fd})) else Some (Fault BufferOverflow))"

definition FD_ISSET :: "int \<Rightarrow> int set \<Rightarrow> bool run" where
  "FD_ISSET fd fds = (if 0 \<le> fd \<and> fd < FD_SETSIZE then Some (Ret (fd \<in> fds)) else Some (Fault OverRead))"

definition STDIN_FILENO :: int where "STDIN_FILENO = 0"

definition command :: "'w kernel \<Rightarrow> 'w proc \<Rightarrow> 'w proc run" where
  "command k s = (case k_fgets k MAXLINE (world s) of
     (None, w) \<Rightarrow> Some (Exit 0)
   | (Some buf, w) \<Rightarrow> Some (Ret (s\<lparr>world := w\<rparr>)))"

text \<open>
  The start of \<open>main\<close>: \<open>FD_ZERO\<close> is applied to \<open>ready_set\<close>, so \<open>read_set\<close> starts with
  whatever \<open>junk\<close> the stack held.
\<close>

definition select_start :: "int set \<Rightarrow> 'w kernel \<Rightarrow> string list \<Rightarrow> 'w proc \<Rightarrow> (int \<times> int set \<times> 'w proc) run" where
  "select_start junk k argv s = run_bind (server_start k argv s) (\<lambda>(listenfd, s1).
     run_bind (FD_SET STDIN_FILENO junk) (\<lambda>read_set.
     run_bind (FD_SET listenfd read_set) (\<lambda>read_set'. Some (Ret (listenfd, read_set', s1)))))"

text \<open>One round: \<open>select\<close> is given \<open>read_set\<close> and overwrites it, while the copy is tested.\<close>

definition select_round :: "'w kernel \<Rightarrow> int \<Rightarrow> rio_t \<Rightarrow> int set \<times> 'w proc \<Rightarrow> (int set \<times> 'w proc) run" where
  "select_round k listenfd rio0 c =
     (let (read_set, s) = c;
          ready_set = read_set;
          (n, s1) = syscall (k_select k (listenfd + 1) read_set) s;
          read_set' = (case n of None \<Rightarrow> read_set | Some (_, fds) \<Rightarrow> fds) in
      run_bind (FD_ISSET STDIN_FILENO ready_set) (\<lambda>b0.
      run_bind (if b0 then command k s1 else Some (Ret s1)) (\<lambda>s2.
      run_bind (FD_ISSET listenfd ready_set) (\<lambda>b1.
      run_bind (if b1 then serve_client k listenfd rio0 s2 else Some (Ret s2)) (\<lambda>s3.
        Some (Ret (read_set', s3)))))))"

primrec select_rounds :: "nat \<Rightarrow> 'w kernel \<Rightarrow> int \<Rightarrow> rio_t \<Rightarrow> int set \<times> 'w proc \<Rightarrow> (int set \<times> 'w proc) run" where
  "select_rounds 0 k listenfd rio0 c = Some (Ret c)"
| "select_rounds (Suc n) k listenfd rio0 c =
     run_bind (select_round k listenfd rio0 c) (\<lambda>c'. select_rounds n k listenfd rio0 c')"

definition select_main :: "nat \<Rightarrow> int set \<Rightarrow> 'w kernel \<Rightarrow> string list \<Rightarrow> rio_t \<Rightarrow> 'w proc \<Rightarrow> (int set \<times> 'w proc) run" where
  "select_main n junk k argv rio0 s =
     run_bind (select_start junk k argv s) (\<lambda>(listenfd, c). select_rounds n k listenfd rio0 c)"

section \<open>The client\<close>

definition open_clientfd :: "'w kernel \<Rightarrow> string \<Rightarrow> int \<Rightarrow> 'w proc \<Rightarrow> int \<times> 'w proc" where
  "open_clientfd k hostname port s = (case syscall (k_socket k AF_INET) s of
     (None, s1) \<Rightarrow> (- 1, s1)
   | (Some clientfd, s1) \<Rightarrow> (case syscall (k_gethostbyname k hostname) s1 of
     (None, s2) \<Rightarrow> (- 2, s2)
   | (Some addr, s2) \<Rightarrow>
       (case syscall (k_connect k clientfd (SockIn (htons (of_int port)) addr)) s2 of
     (None, s3) \<Rightarrow> (- 1, s3)
   | (Some _, s3) \<Rightarrow> (clientfd, s3))))"

text \<open>The C string at the start of a buffer of \<open>MAXLINE\<close> bytes.\<close>

definition c_string :: "(nat \<Rightarrow> byte) \<Rightarrow> byte list run" where
  "c_string buf =
     (let bs = takeWhile (\<lambda>b. b \<noteq> 0) (load buf 0 MAXLINE) in
      if length bs < MAXLINE then Some (Ret bs) else Some (Fault OverRead))"

text \<open>
  One round of the loop, after \<open>fgets\<close> has stored \<open>line\<close> and a zero; the result is
  what it prints.  The result of \<open>rio_readlineb\<close> is not looked at.
\<close>

definition client_line :: "'w kernel \<Rightarrow> int \<Rightarrow> byte list \<Rightarrow> (nat \<Rightarrow> byte) \<times> rio_t \<times> 'w proc
    \<Rightarrow> (byte list \<times> (nat \<Rightarrow> byte) \<times> rio_t \<times> 'w proc) run" where
  "client_line k clientfd line c =
     (let (buf0, rio, s) = c; buf = store buf0 0 (line @ [0]) in
      run_bind (c_string buf) (\<lambda>str.
      case rio_writen k clientfd str s of
        None \<Rightarrow> None
      | Some (_, s1) \<Rightarrow>
          run_bind (rio_readlineb k MAXLINE (rio, s1)) (\<lambda>(_, bs, rio', s2).
            let buf' = store buf 0 bs in
            run_bind (c_string buf') (\<lambda>out. Some (Ret (out, buf', rio', s2))))))"

text \<open>The loop, cut after \<open>n\<close> lines, with everything printed.\<close>

primrec client_lines :: "nat \<Rightarrow> 'w kernel \<Rightarrow> int \<Rightarrow> (nat \<Rightarrow> byte) \<times> rio_t \<times> 'w proc \<Rightarrow> (byte list \<times> 'w proc) run" where
  "client_lines 0 k clientfd c = Some (Ret ([], snd (snd c)))"
| "client_lines (Suc n) k clientfd c =
     (let (buf, rio, s) = c in
      case k_fgets k MAXLINE (world s) of
        (None, w) \<Rightarrow> Some (Ret ([], s\<lparr>world := w\<rparr>))
      | (Some line, w) \<Rightarrow>
          run_bind (client_line k clientfd line (buf, rio, s\<lparr>world := w\<rparr>)) (\<lambda>(out, c').
          run_bind (client_lines n k clientfd c') (\<lambda>(outs, s'). Some (Ret (out @ outs, s')))))"

text \<open>The program exits with status 0; the model returns what it has printed.\<close>

definition line_client_main :: "nat \<Rightarrow> 'w kernel \<Rightarrow> string list \<Rightarrow> (nat \<Rightarrow> byte) \<Rightarrow> rio_t \<Rightarrow> 'w proc \<Rightarrow> byte list run" where
  "line_client_main n k argv buf0 rio0 s =
     (if length argv \<noteq> 3 then Some (Exit 0)
      else let (clientfd, s1) = open_clientfd k (argv ! 1) (atoi (argv ! 2)) s in
        run_bind (client_lines n k clientfd (buf0, rio_readinitb clientfd rio0, s1)) (\<lambda>(out, s2).
          let s3 = snd (sys_close k clientfd s2) in Some (Ret out)))"

section \<open>What \<open>echo\<close> sends\<close>

text \<open>
  The reference: line by line, where a line is cut after \<open>MAXLINE - 1\<close> bytes, and a piece
  that does not end in a newline is followed by a zero byte.
\<close>

definition first_line :: "byte list \<Rightarrow> byte list" where
  "first_line xs = next_line (MAXLINE - 1) xs"

lemma first_line_Cons: "first_line (x # xs) = x # (if x = 10 then [] else next_line (MAXLINE - 2) xs)"
proof -
  have "MAXLINE - 1 = Suc (MAXLINE - 2)" by (simp add: MAXLINE_def)
  then show ?thesis unfolding first_line_def by (simp only: next_line.simps)
qed

lemma first_line_nonempty [simp]: "first_line xs = [] \<longleftrightarrow> xs = []"
  by (cases xs) (simp_all add: first_line_Cons, simp add: first_line_def)

lemma length_first_line: "length (first_line xs) < MAXLINE"
  using length_next_line [of "MAXLINE - 1" xs] by (simp add: first_line_def MAXLINE_def)

function echoed :: "byte list \<Rightarrow> byte list" where
  "echoed xs =
     (if xs = [] then []
      else let l = first_line xs in
        l @ (if last l = 10 then [] else [0]) @ echoed (drop (length l) xs))"
  by auto
termination
  by (relation "measure length") (auto simp: neq_Nil_conv first_line_Cons)

declare echoed.simps [simp del]

lemma echoed_Nil [simp]: "echoed [] = []"
  by (simp add: echoed.simps)

lemma next_line_complete:
  "length body < m \<Longrightarrow> 10 \<notin> set body \<Longrightarrow> next_line m (body @ 10 # rest) = body @ [10]"
proof (induction body arbitrary: m)
  case Nil
  then show ?case by (cases m) auto
next
  case (Cons x body)
  then show ?case by (cases m) auto
qed

definition text_line :: "byte list \<Rightarrow> bool" where
  "text_line l \<longleftrightarrow> (\<exists>body. l = body @ [10] \<and> 10 \<notin> set body \<and> length l < MAXLINE)"

lemma text_line_last [simp]: "text_line l \<Longrightarrow> last l = 10"
  and text_line_nonempty: "text_line l \<Longrightarrow> l \<noteq> []"
  by (auto simp: text_line_def)

lemma first_line_text: "text_line l \<Longrightarrow> first_line (l @ rest) = l"
  using next_line_complete [of _ "MAXLINE - 1"] by (auto simp: text_line_def first_line_def)

text \<open>Text whose lines fit the buffer is echoed unchanged.\<close>

lemma echoed_text: "\<forall>l \<in> set ls. text_line l \<Longrightarrow> echoed (concat ls) = concat ls"
proof (induction ls)
  case (Cons l ls)
  then have "first_line (l @ concat ls) = l" "l \<noteq> []"
    by (simp_all add: first_line_text text_line_nonempty)
  with Cons show ?case by (subst echoed.simps) (simp add: Let_def)
qed simp

lemma unat_small: "n \<le> MAXLINE \<Longrightarrow> unat (of_int (int n) :: 64 word) = n"
  by (simp add: MAXLINE_def unat_of_nat take_bit_nat_eq_self)

lemma unat_minus_one: "MAXLINE < unat (of_int (- 1) :: 64 word)"
  by (simp add: MAXLINE_def unat_eq_nat_uint unsigned_minus_1_eq_mask mask_eq_exp_minus_1)

lemma drop_shorter: "l \<noteq> [] \<Longrightarrow> xs \<noteq> [] \<Longrightarrow> length (drop (length l) xs) < length xs"
  by (cases l; cases xs) auto

section \<open>The loop in a steady world\<close>

text \<open>One line, with the cases of \<open>rio_readlineb\<close> that remain.\<close>

context steady_stream
begin

lemma readline_steady:
  assumes "rio_ok rp" and "rio_fd rp = fd" and "steady (world s)"
    and "all = rio_unread rp @ incoming fd (world s)"
  obtains (eof) rp' s' where "rio_readlineb k MAXLINE (rp, s) = Some (Ret (0, [], rp', s'))"
      and "all = []" and "rio_unread rp' @ incoming fd (world s') = []" and "steady (world s')"
      and "\<And>fd. outgoing fd (world s') = outgoing fd (world s)"
  | (line) l n rp' s' where "rio_readlineb k MAXLINE (rp, s) = Some (Ret (int n, l @ [0], rp', s'))"
      and "l = first_line all" and "l \<noteq> []" and "n = length l + (if last l = 10 then 0 else 1)"
      and "n \<le> MAXLINE" and "rio_unread rp' @ incoming fd (world s') = drop (length l) all"
      and "steady (world s')" and "rio_ok rp'" and "rio_fd rp' = fd"
      and "\<And>fd. outgoing fd (world s') = outgoing fd (world s)"
proof -
  have m: "0 < MAXLINE" "1 < MAXLINE" "MAXLINE \<le> INT_MAX" by (simp_all add: MAXLINE_def INT_MAX_def)
  let ?l = "first_line all"
  obtain r buf rp' s' where c: "rio_readlineb k MAXLINE (rp, s) = Some (Ret (r, buf, rp', s'))"
    and ok: "rio_ok rp'" "rio_fd rp' = fd"
    and d: "r \<noteq> - 1 \<longrightarrow> all = ?l @ rio_unread rp' @ incoming fd (world s')
        \<and> (if ?l = [] \<and> 1 < MAXLINE then r = 0 \<and> buf = []
           else buf = ?l @ [0] \<and> r = int (length ?l) + (if ?l \<noteq> [] \<and> last ?l = 10 then 0 else 1))"
    using readlineb_line [OF assms(1,2) m(1,3) refl] unfolding assms(4) first_line_def by blast
  have st: "steady (world s')" "r \<noteq> - 1" using readlineb_steady [OF c] assms(3) by auto
  have out: "outgoing fd' (world s') = outgoing fd' (world s)" for fd'
    using readlineb_outgoing [OF c] by simp
  have all: "all = ?l @ rio_unread rp' @ incoming fd (world s')" using d st(2) by blast
  then have rest: "rio_unread rp' @ incoming fd (world s') = drop (length ?l) all"
    by (metis append_eq_conv_conj)
  show ?thesis
  proof (cases "all = []")
    case True
    with d st m rest c show ?thesis by (intro eof [OF _ _ _ _ out]) auto
  next
    case False
    with d st(2) have r: "buf = ?l @ [0]" "r = int (length ?l + (if last ?l = 10 then 0 else 1))" by auto
    show ?thesis
      by (rule line [OF c [unfolded r] refl _ refl _ rest st(1) ok out])
        (use False length_first_line [of all] in auto)
  qed
qed

lemma writen_all:
  assumes "steady (world s)"
  obtains s' where "rio_writen k fd bs s = Some (int (length bs), s')" and "steady (world s')"
    and "outgoing fd (world s') = outgoing fd (world s) @ bs"
    and "\<And>fd. incoming fd (world s') = incoming fd (world s)"
proof -
  from writen_loop_spec obtain r s' n where w: "writen_loop k fd bs s = Some (r, s')"
      "outgoing fd (world s') = outgoing fd (world s) @ take n bs" "r \<longrightarrow> n = length bs"
    by blast
  then have c: "rio_writen k fd bs s = Some (if r then int (length bs) else - 1, s')"
    by (simp add: rio_writen_def)
  from writen_steady [OF c assms] have st: "steady (world s')" "r" by (auto split: if_splits)
  have i: "incoming fd' (world s') = incoming fd' (world s)" for fd'
    using writen_incoming [OF c] by simp
  show ?thesis by (rule that [OF _ st(1) _ i]) (use c w st in auto)
qed

lemma echo_loop_steady:
  assumes "rio_ok rp" and "rio_fd rp = fd" and "steady (world s)"
  shows "\<exists>s'. echo_loop k fd rp s = Some (Ret s') \<and> steady (world s') \<and> incoming fd (world s') = []
    \<and> outgoing fd (world s') = outgoing fd (world s) @ echoed (rio_unread rp @ incoming fd (world s))"
  using assms
proof (induction "length (rio_unread rp @ incoming fd (world s))" arbitrary: rp s rule: less_induct)
  case less
  let ?all = "rio_unread rp @ incoming fd (world s)"
  from less.prems refl show ?case
  proof (cases rule: readline_steady)
    case (eof rp' s')
    then show ?thesis by (subst echo_loop.simps) auto
  next
    case (line l n rp' s')
    have n: "unat (of_int (int n) :: 64 word) = n" using line(5) by (rule unat_small)
    have pos: "0 < n" using line(3,4) by (cases l) auto
    then have nz: "(of_int (int n) :: 64 word) \<noteq> 0" using n by auto
    let ?bs = "take n (l @ [0])"
    have bs: "?bs = l @ (if last l = 10 then [] else [0])" using line(4) by simp
    from writen_all [OF line(7), of fd ?bs] obtain s2 where w:
        "rio_writen k fd ?bs s' = Some (int (length ?bs), s2)" "steady (world s2)"
        "outgoing fd (world s2) = outgoing fd (world s') @ ?bs" "incoming fd (world s2) = incoming fd (world s')"
      by metis
    have e: "?all \<noteq> []" using line(2,3) by auto
    have rest: "rio_unread rp' @ incoming fd (world s2) = drop (length l) ?all" using line(6) w(4) by simp
    have "length (rio_unread rp' @ incoming fd (world s2)) < length ?all"
      using drop_shorter [OF line(3) e] unfolding rest .
    from less.hyps [OF this line(8,9) w(2)] obtain s3 where IH:
        "echo_loop k fd rp' s2 = Some (Ret s3)" "steady (world s3)" "incoming fd (world s3) = []"
        "outgoing fd (world s3) = outgoing fd (world s2) @ echoed (drop (length l) ?all)"
      unfolding rest by blast
    have "echo_loop k fd rp s = Some (Ret s3)"
      using line(1,5) nz n w(1) IH(1) by (subst echo_loop.simps) (simp add: Let_def)
    moreover have "echoed ?all = ?bs @ echoed (drop (length l) ?all)"
      using e line(2) bs by (subst echoed.simps) (simp add: Let_def)
    ultimately show ?thesis using IH(2-4) w(3) line(10) by simp
  qed
qed

end

context stream_kernel
begin

text \<open>In any world \<open>echo\<close> comes to an end, by returning or by the read past its buffer.\<close>

lemma echo_loop_ends:
  assumes "rio_ok rp" and "rio_fd rp = fd"
  shows "\<exists>s'. echo_loop k connfd rp s = Some (Ret s') \<or> echo_loop k connfd rp s = Some (Fault OverRead)"
  using assms
proof (induction "length (rio_unread rp @ incoming fd (world s))" arbitrary: rp s rule: less_induct)
  case less
  let ?all = "rio_unread rp @ incoming fd (world s)"
  let ?l = "first_line ?all"
  have m: "0 < MAXLINE" "1 < MAXLINE" "MAXLINE \<le> INT_MAX" by (simp_all add: MAXLINE_def INT_MAX_def)
  obtain r buf rp' s' where c: "rio_readlineb k MAXLINE (rp, s) = Some (Ret (r, buf, rp', s'))"
    and ok: "rio_ok rp'" "rio_fd rp' = fd"
    and d: "r \<noteq> - 1 \<longrightarrow> ?all = ?l @ rio_unread rp' @ incoming fd (world s')
        \<and> (if ?l = [] \<and> 1 < MAXLINE then r = 0 \<and> buf = []
           else buf = ?l @ [0] \<and> r = int (length ?l) + (if ?l \<noteq> [] \<and> last ?l = 10 then 0 else 1))"
    using readlineb_line [OF less.prems m(1,3) refl] unfolding first_line_def by blast
  from writen_loop_spec obtain x s2 where w:
      "writen_loop k connfd (take (unat (of_int r :: 64 word)) buf) s' = Some (x, s2)" by blast
  then have "rio_writen k connfd (take (unat (of_int r :: 64 word)) buf) s'
      = Some (if x then int (length (take (unat (of_int r :: 64 word)) buf)) else - 1, s2)"
    by (simp add: rio_writen_def)
  from writen_incoming [OF this] have i: "incoming fd (world s2) = incoming fd (world s')" by simp
  consider "r = - 1" | "r = 0" | "r \<noteq> - 1" "?all \<noteq> []" using d m by fastforce
  then show ?case
  proof cases
    case 1
    with c unat_minus_one show ?thesis by (subst echo_loop.simps) simp
  next
    case 2
    with c show ?thesis by (subst echo_loop.simps) simp
  next
    case 3
    with d have l: "?all = ?l @ rio_unread rp' @ incoming fd (world s2)" "?l \<noteq> []" by (simp_all add: i)
    then have "length (rio_unread rp' @ incoming fd (world s2)) < length ?all"
      by (metis add_less_same_cancel2 length_append length_greater_0_conv not_add_less2 less_add_same_cancel2)
    from less.hyps [OF this ok] c w show ?thesis
      by (subst (1 2) echo_loop.simps) (auto simp: Let_def rio_writen_def)
  qed
qed

end

section \<open>Children\<close>

context wait_kernel
begin

lemma sigchld_handler_spec:
  "\<exists>s'. sigchld_handler k s = Some s' \<and> ended (world s') = {} \<and> children (world s') \<subseteq> children (world s)"
proof (induction "card (children (world s))" arbitrary: s rule: less_induct)
  case less
  obtain r s1 where c: "syscall (k_waitpid k (- 1) True) s = (r, s1)" by fastforce
  show ?case
  proof (cases r)
    case None
    from syscall_NoneD [OF c [unfolded None]] wait_Fail
    have "children (world s1) = {}" by fastforce
    with ended_children [of "world s1"] c None show ?thesis by (subst sigchld_handler.simps) auto
  next
    case (Some p)
    from syscall_SomeD [OF c [unfolded Some]] have w: "k_waitpid k (- 1) True (world s) = (Ok p, world s1)" ..
    show ?thesis
    proof (cases "p = 0")
      case True
      with w wait_none [of True "world s" "world s1"] c Some show ?thesis
        by (subst sigchld_handler.simps) auto
    next
      case False
      have R: "0 < p" "p \<in> children (world s)" "children (world s1) = children (world s) - {p}"
        using wait_reaps [OF w False] by simp_all
      have "0 < p" "children (world s1) \<subseteq> children (world s)" using R by auto
      moreover have "card (children (world s1)) < card (children (world s))"
        unfolding R(3) by (rule card_Diff1_less [OF finite_children R(2)])
      moreover from less.hyps [OF this] obtain s' where "sigchld_handler k s1 = Some s'"
          "ended (world s') = {}" "children (world s') \<subseteq> children (world s1)" by blast
      moreover have "sigchld_handler k s = sigchld_handler k s1"
        using c Some \<open>0 < p\<close> by (subst sigchld_handler.simps) simp
      ultimately show ?thesis by auto
    qed
  qed
qed

end

section \<open>The client's line\<close>

lemma c_string_store:
  assumes "0 \<notin> set l" and "length l < MAXLINE"
  shows "c_string (store buf 0 (l @ [0])) = Some (Ret l)"
proof -
  define m where "m = MAXLINE - length (l @ [0])"
  have "MAXLINE = length (l @ [0]) + m" using assms(2) by (simp add: m_def)
  then have "load (store buf 0 (l @ [0])) 0 MAXLINE = (l @ [0]) @ load (store buf 0 (l @ [0])) (length (l @ [0])) m"
    using load_split [of "store buf 0 (l @ [0])" 0 "length (l @ [0])" m] load_store_same [of buf 0 "l @ [0]"]
    by simp
  moreover have "takeWhile (\<lambda>b. b \<noteq> 0) ((l @ [0]) @ xs) = l" for xs
    using assms(1) by (auto simp: takeWhile_append)
  ultimately show ?thesis using assms(2) by (simp only: c_string_def Let_def) simp
qed

lemma open_listenfd_eq: "open_listenfd = inet_server_listen"
  by (intro ext) (simp add: open_listenfd_def inet_server_listen_def)

context steady_stream
begin

lemma client_line_steady:
  assumes "text_line line" and "0 \<notin> set line" and "text_line l" and "0 \<notin> set l"
    and "rio_ok rp" and "rio_fd rp = fd" and "steady (world s)"
    and "rio_unread rp @ incoming fd (world s) = l @ rest"
  obtains buf' rp' s' where "client_line k fd line (buf0, rp, s) = Some (Ret (l, buf', rp', s'))"
    and "outgoing fd (world s') = outgoing fd (world s) @ line" and "steady (world s')"
    and "rio_ok rp'" and "rio_fd rp' = fd" and "rio_unread rp' @ incoming fd (world s') = rest"
proof -
  have len: "length line < MAXLINE" "length l < MAXLINE" using assms(1,3) by (auto simp: text_line_def)
  from writen_all [OF assms(7), of fd line] obtain s1 where w:
      "rio_writen k fd line s = Some (int (length line), s1)" "steady (world s1)"
      "outgoing fd (world s1) = outgoing fd (world s) @ line" "incoming fd (world s1) = incoming fd (world s)"
    by metis
  have all: "l @ rest = rio_unread rp @ incoming fd (world s1)" using assms(8) w(4) by simp
  from assms(5,6) w(2) all show ?thesis
  proof (cases rule: readline_steady)
    case eof
    with assms(3) text_line_nonempty show ?thesis by auto
  next
    case (line l' n rp' s')
    then have l: "l' = l" using first_line_text [OF assms(3)] by simp
    have "client_line k fd line (buf0, rp, s)
        = Some (Ret (l, store (store buf0 0 (line @ [0])) 0 (l @ [0]), rp', s'))"
      using w(1) line(1) unfolding l
      by (simp add: client_line_def c_string_store assms(2,4) len)
    moreover have "rio_unread rp' @ incoming fd (world s') = rest" using line(6) l by simp
    ultimately show ?thesis using line(7-10) w(3) by (intro that) auto
  qed
qed

end

sublocale terminal_stream \<subseteq> r_typed: read_invariant k "\<lambda>w. typed w = x" False for x
  by unfold_locales (simp add: read_typed)

sublocale terminal_stream \<subseteq> w_typed: write_invariant k "\<lambda>w. typed w = x" False for x
  by unfold_locales (simp add: write_typed)

context terminal_stream
begin

lemma client_line_typed:
  assumes "client_line k fd line (buf, rp, s) = Some (Ret (out, buf', rp', s'))"
  shows "typed (world s') = typed (world s)"
proof -
  from assms obtain str r1 s1 r2 bs where w: "rio_writen k fd str s = Some (r1, s1)"
    and r: "rio_readlineb k MAXLINE (rp, s1) = Some (Ret (r2, bs, rp', s'))"
    by (auto simp: client_line_def Let_def split: option.splits)
  from w_typed.rio_writen_inv [OF w refl] r_typed.rio_readlineb_inv [OF r] show ?thesis by simp
qed

lemma fgets_text:
  assumes "typed (world s) = concat (l # ls)" and "text_line l"
  obtains w where "k_fgets k MAXLINE (world s) = (Some l, w)" and "typed w = concat ls"
    and "incoming fd w = incoming fd (world s)" and "outgoing fd w = outgoing fd (world s)"
    and "steady (world s) \<Longrightarrow> steady w"
proof -
  obtain r w where c: "k_fgets k MAXLINE (world s) = (r, w)" by fastforce
  have "1 < MAXLINE" by (simp add: MAXLINE_def)
  from fgets_line [OF c this, folded first_line_def] fgets_frame [OF c, of fd] assms show ?thesis
    using c first_line_text [OF assms(2), of "concat ls"] text_line_nonempty [OF assms(2)]
    by (intro that [of w]) auto
qed

lemma client_lines_session:
  assumes "\<forall>l \<in> set ls. text_line l \<and> 0 \<notin> set l" and "typed (world s) = concat ls" and "length ls < n"
    and "rio_ok rp" and "rio_fd rp = fd" and "steady (world s)"
    and "rio_unread rp @ incoming fd (world s) = concat ls @ rest"
  shows "\<exists>s'. client_lines n k fd (buf, rp, s) = Some (Ret (concat ls, s'))
    \<and> outgoing fd (world s') = outgoing fd (world s) @ concat ls"
  using assms
proof (induction ls arbitrary: n buf rp s)
  case Nil
  obtain r w where c: "k_fgets k MAXLINE (world s) = (r, w)" by fastforce
  have "1 < MAXLINE" by (simp add: MAXLINE_def)
  from fgets_line [OF c this] fgets_frame [OF c, of fd] Nil c show ?case by (cases n) auto
next
  case (Cons l ls)
  then obtain m where n: "n = Suc m" "length ls < m" by (cases n) auto
  have l: "text_line l" "0 \<notin> set l" using Cons.prems(1) by auto
  from Cons.prems(2) l(1) obtain w where f: "k_fgets k MAXLINE (world s) = (Some l, w)"
      "typed w = concat ls" "incoming fd w = incoming fd (world s)"
      "outgoing fd w = outgoing fd (world s)" "steady w"
    by (rule fgets_text [where fd = fd]) (use Cons.prems(6) in auto)
  have "rio_unread rp @ incoming fd (world (s\<lparr>world := w\<rparr>)) = l @ (concat ls @ rest)" "steady (world (s\<lparr>world := w\<rparr>))"
    using Cons.prems(7) f by simp_all
  from client_line_steady [OF l l Cons.prems(4,5) this(2,1), of buf] obtain buf' rp' s1 where C:
      "client_line k fd l (buf, rp, s\<lparr>world := w\<rparr>) = Some (Ret (l, buf', rp', s1))"
      "outgoing fd (world s1) = outgoing fd w @ l" "steady (world s1)" "rio_ok rp'" "rio_fd rp' = fd"
      "rio_unread rp' @ incoming fd (world s1) = concat ls @ rest" by auto
  from client_line_typed [OF C(1)] f(2) have "typed (world s1) = concat ls" by simp
  from Cons.IH [OF _ this n(2) C(4,5,3,6), of buf'] Cons.prems(1) obtain s' where
      "client_lines m k fd (buf', rp', s1) = Some (Ret (concat ls, s'))"
      "outgoing fd (world s') = outgoing fd (world s1) @ concat ls" by auto
  with f(1,4) C(1,2) n(1) show ?case by simp
qed

end

section \<open>A watched set that only shrinks\<close>

context select_kernel
begin

lemma select_round_shrinks:
  assumes "select_round k listenfd rio0 (fds, s) = Some (Ret (fds', s'))"
  shows "fds' \<subseteq> fds"
proof -
  obtain r s1 where c: "syscall (k_select k (listenfd + 1) fds) s = (r, s1)" by fastforce
  with assms have "fds' = (case r of None \<Rightarrow> fds | Some (_, fds1) \<Rightarrow> fds1)"
    by (auto simp: select_round_def Let_def)
  with sys_select(1) [of "listenfd + 1" fds s _ fds' s1] c show ?thesis by (auto split: option.splits)
qed

lemma select_round_deaf:
  assumes "listenfd \<notin> fds"
  shows "select_round (k\<lparr>k_accept := f\<rparr>) listenfd rio0 (fds, s) = select_round k listenfd rio0 (fds, s)"
proof -
  have c: "command (k\<lparr>k_accept := f\<rparr>) = command k" by (simp add: command_def fun_eq_iff)
  from assms show ?thesis unfolding select_round_def FD_ISSET_def c by (simp add: Let_def)
qed

lemma select_rounds_deaf:
  "listenfd \<notin> fst c \<Longrightarrow> select_rounds n (k\<lparr>k_accept := f\<rparr>) listenfd rio0 c = select_rounds n k listenfd rio0 c"
proof (induction n arbitrary: c)
  case (Suc n)
  obtain fds s where c: "c = (fds, s)" by fastforce
  have "select_round (k\<lparr>k_accept := f\<rparr>) listenfd rio0 c = select_round k listenfd rio0 c"
    using Suc.prems unfolding c by (intro select_round_deaf) simp
  moreover have "listenfd \<notin> fst c'" if "select_round k listenfd rio0 c = Some (Ret c')" for c'
    using that Suc.prems select_round_shrinks [of listenfd rio0 fds s "fst c'" "snd c'"] c by auto
  ultimately show ?case
    using Suc.IH by (cases "(select_round k listenfd rio0 c, \<lambda>c'. select_rounds n k listenfd rio0 c')" rule: run_bind.cases) auto
qed simp

end

section \<open>Properties\<close>

text \<open>
  C22: in a world where the only errors are interruptions, \<open>echo\<close> returns when its client has
  sent everything, and has then sent back exactly what the client sent, line by line; only
  a piece without a newline (a line of more than \<open>MAXLINE - 1\<close> bytes, or the end of the
  stream) is followed by a zero byte that the client did not send.
\<close>

theorem echo_echoes_lines:
  assumes "steady_stream k incoming outgoing patience steady" and "steady (world s)"
  shows "\<exists>s'. echo k fd rio0 s = Some (Ret s') \<and> incoming fd (world s') = []
    \<and> outgoing fd (world s') = outgoing fd (world s) @ echoed (incoming fd (world s))"
  using steady_stream.echo_loop_steady [OF assms(1), of "rio_readinitb fd rio0" fd s] assms(2)
  by (auto simp: echo_def)

theorem echo_echoes_lines_witness:
  "\<exists>s'. echo sim_kernel 5 demo_rio \<lparr>errno = EAGAIN, world = quiet\<lparr>inq := (\<lambda>_. [104, 10, 105]),
      schedule := [Chunk 0, Intr, Chunk 5]\<rparr>\<rparr> = Some (Ret s') \<and> sim_incoming 5 (world s') = []
    \<and> sim_outgoing 5 (world s') = [104, 10, 105, 0]"
proof -
  have "first_line [104, 10, 105] = [104, 10]"
    using first_line_text [of "[104, 10]" "[105]"] by (simp add: text_line_def MAXLINE_def)
  moreover have "first_line [105] = [105]"
    by (simp add: first_line_Cons MAXLINE_def)
  ultimately have "echoed [104, 10, 105] = [104, 10, 105, 0]"
    by (simp add: echoed.simps [of "[104, 10, 105]"] echoed.simps [of "[105]"] Let_def)
  then show ?thesis
    using echo_echoes_lines [OF sim_steady_k.steady_stream_axioms, where fd = 5 and ?rio0.0 = demo_rio
        and s = "\<lparr>errno = EAGAIN, world = quiet\<lparr>inq := (\<lambda>_. [104, 10, 105]), schedule := [Chunk 0, Intr, Chunk 5]\<rparr>\<rparr>"]
    by (simp add: sim_obs sim_steady_def quiet_def)
qed

text \<open>
  whatever errors occur, \<open>echo\<close> does not run forever: it returns or reads past the end
  of its buffer.  The latter happens when a \<open>read\<close> fails with anything but an interruption
  (a reset connection, a descriptor that \<open>accept\<close> failed to produce): the \<open>-1\<close> of
  \<open>rio_readlineb\<close> is taken for the length of a line.
\<close>

theorem echo_read_error:
  assumes "stream_kernel k incoming outgoing patience"
  shows "(\<exists>s'. echo k fd rio0 s = Some (Ret s') \<or> echo k fd rio0 s = Some (Fault OverRead))
    \<and> (\<forall>s'. sys_read k fd RIO_BUFSIZE s = (None, s') \<and> errno s' \<noteq> EINTR
         \<longrightarrow> echo k fd rio0 s = Some (Fault OverRead))"
proof (intro conjI allI impI)
  show "\<exists>s'. echo k fd rio0 s = Some (Ret s') \<or> echo k fd rio0 s = Some (Fault OverRead)"
    using stream_kernel.echo_loop_ends [OF assms, of "rio_readinitb fd rio0" fd] by (simp add: echo_def)
  fix s'
  assume e: "sys_read k fd RIO_BUFSIZE s = (None, s') \<and> errno s' \<noteq> EINTR"
  then have "rio_fill k (rio_readinitb fd rio0) s = Some (Some (- 1), (rio_readinitb fd rio0)\<lparr>rio_cnt := - 1\<rparr>, s')"
    by (subst rio_fill.simps) (simp add: rio_readinitb_def)
  then have "rio_readlineb k MAXLINE (rio_readinitb fd rio0, s)
      = Some (Ret (- 1, [], (rio_readinitb fd rio0)\<lparr>rio_cnt := - 1\<rparr>, s'))"
    by (simp add: rio_readlineb_def readline_loop.simps rio_read_def MAXLINE_def)
  with unat_minus_one show "echo k fd rio0 s = Some (Fault OverRead)"
    unfolding echo_def by (subst echo_loop.simps) simp
qed

theorem echo_read_error_witness:
  "echo sim_kernel 5 demo_rio \<lparr>errno = EINTR, world = quiet\<lparr>schedule := [Again]\<rparr>\<rparr> = Some (Fault OverRead)"
proof -
  have "sys_read sim_kernel 5 RIO_BUFSIZE \<lparr>errno = EINTR, world = quiet\<lparr>schedule := [Again]\<rparr>\<rparr>
      = (None, \<lparr>errno = EAGAIN, world = quiet\<rparr>)"
    by (simp add: sim_defs quiet_def)
  with echo_read_error [OF sim_k.stream_kernel_axioms, where fd = 5 and ?rio0.0 = demo_rio
      and s = "\<lparr>errno = EINTR, world = quiet\<lparr>schedule := [Again]\<rparr>\<rparr>"]
  show ?thesis by simp
qed

text \<open>
  C18: a session of the client against the server.  If the lines typed at the client fit its
  buffer and hold no zero byte, and each side receives what the other one sends, then the
  server's \<open>echo\<close> returns and the client prints exactly the text that was typed, for
  every way the two streams are cut into transfers.
\<close>

theorem line_session:
  assumes "terminal_stream kc inc outc patc stc typed" and "steady_stream ks ins outs pats sts"
    and "stc (world sc)" and "sts (world ss)"
    and "\<forall>l \<in> set ls. text_line l \<and> 0 \<notin> set l" and "typed (world sc) = concat ls"
    and "ins sfd (world ss) = concat ls" and "outs sfd (world ss) = []"
  shows "\<exists>ss'. echo ks sfd rio1 ss = Some (Ret ss') \<and>
    (inc cfd (world sc) = outs sfd (world ss') \<longrightarrow>
      (\<exists>sc'. client_lines (Suc (length ls)) kc cfd (buf, rio_readinitb cfd rio0, sc) = Some (Ret (concat ls, sc'))
         \<and> outc cfd (world sc') = outc cfd (world sc) @ concat ls))"
proof -
  from steady_stream.echo_loop_steady [OF assms(2), of "rio_readinitb sfd rio1" sfd ss] assms(4,7,8)
  obtain ss' where e: "echo ks sfd rio1 ss = Some (Ret ss')" "outs sfd (world ss') = echoed (concat ls)"
    by (auto simp: echo_def)
  have "echoed (concat ls) = concat ls" using assms(5) by (intro echoed_text) auto
  with e terminal_stream.client_lines_session
      [OF assms(1,5,6), of "Suc (length ls)" "rio_readinitb cfd rio0" cfd "[]" buf] assms(3)
  show ?thesis by auto
qed

theorem line_session_witness:
  "\<exists>ss'. echo sim_kernel 4 demo_rio \<lparr>errno = EAGAIN, world = quiet\<lparr>inq := (\<lambda>_. [104, 10, 105, 10]),
      schedule := [Chunk 2, Intr]\<rparr>\<rparr> = Some (Ret ss') \<and>
    ([104, 10, 105, 10] = sim_outgoing 4 (world ss') \<longrightarrow>
      (\<exists>sc'. client_lines 3 sim_kernel 5 (\<lambda>_. 7, rio_readinitb 5 demo_rio, \<lparr>errno = EAGAIN,
          world = quiet\<lparr>tty := [104, 10, 105, 10], inq := (\<lambda>_. [104, 10, 105, 10]), schedule := [Intr, Chunk 0]\<rparr>\<rparr>)
        = Some (Ret ([104, 10, 105, 10], sc')) \<and> sim_outgoing 5 (world sc') = [104, 10, 105, 10]))"
proof -
  have "\<forall>l \<in> set [[104, 10], [105, 10]]. text_line l \<and> 0 \<notin> set l"
    by (simp add: text_line_def MAXLINE_def)
  from line_session [OF sim_terminal.terminal_stream_axioms sim_steady_k.steady_stream_axioms _ _ this,
      where ss = "\<lparr>errno = EAGAIN, world = quiet\<lparr>inq := (\<lambda>_. [104, 10, 105, 10]), schedule := [Chunk 2, Intr]\<rparr>\<rparr>"
        and sc = "\<lparr>errno = EAGAIN, world = quiet\<lparr>tty := [104, 10, 105, 10], inq := (\<lambda>_. [104, 10, 105, 10]), schedule := [Intr, Chunk 0]\<rparr>\<rparr>"
        and sfd = 4 and cfd = 5 and ?rio0.0 = demo_rio and ?rio1.0 = demo_rio and buf = "\<lambda>_. 7"]
  show ?thesis by (simp add: sim_obs sim_steady_def sim_typed_def quiet_def numeral_3_eq_3)
qed

text \<open>
  C27: the server with a process per client.  In the child the client's bytes are echoed as by
  the iterative server, whatever the closing of the inherited listener does to that
  descriptor, and the process exits with status 0; in the parent, also when \<open>fork\<close> failed,
  the round ends by closing the connection, without a byte read or written.
\<close>

theorem forked_client_served:
  assumes "closing_stream k incoming outgoing patience steady" and "accept k listenfd s = (connfd, s1)"
    and "fork k s1 = (pid, s2)" and "steady (world s2)" and "connfd \<noteq> listenfd"
  shows "if pid = 0
    then \<exists>s3. fork_child k listenfd connfd rio0 s2 = Some (Ret (snd (sys_close k connfd s3)))
      \<and> incoming connfd (world s3) = []
      \<and> outgoing connfd (world s3) = outgoing connfd (world s2) @ echoed (incoming connfd (world s2))
      \<and> fork_client k listenfd rio0 s = Some (Exit 0)
    else fork_client k listenfd rio0 s = Some (Ret (snd (sys_close k connfd s2)))"
proof (cases "pid = 0")
  case True
  let ?s = "snd (sys_close k listenfd s2)"
  obtain r w where "k_close k listenfd (world s2) = (r, w)" by fastforce
  then have w: "incoming connfd (world ?s) = incoming connfd (world s2)"
      "outgoing connfd (world ?s) = outgoing connfd (world s2)" "steady (world ?s)"
    using closing_stream.close_frame [OF assms(1), of listenfd "world s2" r w connfd] assms(4,5)
    by (auto simp: syscall_def split: sysres.split)
  from assms(1) have "steady_stream k incoming outgoing patience steady" by (simp add: closing_stream_def)
  from steady_stream.echo_loop_steady [OF this, of "rio_readinitb connfd rio0" connfd ?s] w
  obtain s3 where "echo k connfd rio0 ?s = Some (Ret s3)" "incoming connfd (world s3) = []"
      "outgoing connfd (world s3) = outgoing connfd (world s2) @ echoed (incoming connfd (world s2))"
    by (auto simp: echo_def)
  with True assms(2,3) show ?thesis
    by (intro if_P [THEN iffD2] exI [of _ s3]) (simp_all add: fork_child_def fork_client_def)
next
  case False
  with assms(2,3) show ?thesis by (simp add: fork_client_def)
qed

theorem forked_client_served_witness:
  "\<exists>s3. fork_child sim_kernel 3 7 demo_rio \<lparr>errno = EINTR, world = quiet\<lparr>inq := (\<lambda>_. [104, 10])\<rparr>\<rparr>
        = Some (Ret (snd (sys_close sim_kernel 7 s3)))
      \<and> sim_incoming 7 (world s3) = [] \<and> sim_outgoing 7 (world s3) = [104, 10]
      \<and> fork_client sim_kernel 3 demo_rio \<lparr>errno = EINTR, world = quiet\<lparr>inq := (\<lambda>_. [104, 10]),
          pids := [0], backlog := [(7, SockIn 0 0)]\<rparr>\<rparr> = Some (Exit 0)"
proof -
  have e: "echoed [104, 10] = [104, 10]"
    using echoed_text [of "[[104, 10]]"] by (simp add: text_line_def MAXLINE_def)
  have "accept sim_kernel 3 \<lparr>errno = EINTR, world = quiet\<lparr>inq := (\<lambda>_. [104, 10]), pids := [0], backlog := [(7, SockIn 0 0)]\<rparr>\<rparr>
      = (7, \<lparr>errno = EINTR, world = quiet\<lparr>inq := (\<lambda>_. [104, 10]), pids := [0]\<rparr>\<rparr>)"
    and "fork sim_kernel \<lparr>errno = EINTR, world = quiet\<lparr>inq := (\<lambda>_. [104, 10]), pids := [0]\<rparr>\<rparr>
      = (0, \<lparr>errno = EINTR, world = quiet\<lparr>inq := (\<lambda>_. [104, 10])\<rparr>\<rparr>)"
    by (simp_all add: accept_def fork_def syscall_def quiet_def)
  from forked_client_served [OF sim_closing.closing_stream_axioms this, of demo_rio] e show ?thesis
    by (simp add: sim_obs sim_steady_def quiet_def)
qed

text \<open>
  C28: the handler of \<open>SIGCHLD\<close> returns, and when it does no ended child is left unreaped: since
  signals are not counted, one arrival may stand for several children, and the handler
  reaps them all.
\<close>

theorem sigchld_handler_reaps_all:
  assumes "wait_kernel k children ended patience"
  shows "\<exists>s'. sigchld_handler k s = Some s' \<and> ended (world s') = {} \<and> children (world s') \<subseteq> children (world s)"
  by (rule wait_kernel.sigchld_handler_spec [OF assms])

theorem sigchld_handler_reaps_all_witness:
  "\<exists>s'. sigchld_handler sim_kernel \<lparr>errno = EINTR, world = quiet\<lparr>zombies := [41, 43], running := [42]\<rparr>\<rparr> = Some s'
    \<and> sim_ended (world s') = {} \<and> sim_children (world s') \<subseteq> {41, 42, 43}"
  using sigchld_handler_reaps_all [OF sim_wait.wait_kernel_axioms,
      of "\<lparr>errno = EINTR, world = quiet\<lparr>zombies := [41, 43], running := [42]\<rparr>\<rparr>"]
  by (fastforce simp: sim_children_def)

text \<open>
  C29: the server that watches its terminal stops listening.  \<open>select\<close> overwrites the set that
  is passed to it again in the next round, so after the first round in which the listening
  socket was not ready no later round ever accepts a connection: what the program does from
  then on does not depend on \<open>accept\<close>.
\<close>

theorem select_server_goes_deaf:
  assumes "select_kernel k"
    and "syscall (k_select k (listenfd + 1) fds) s = (Some (m, hot), s1)" and "listenfd \<notin> hot"
    and "select_round k listenfd rio0 (fds, s) = Some (Ret c)"
  shows "select_rounds n (k\<lparr>k_accept := f\<rparr>) listenfd rio0 c = select_rounds n k listenfd rio0 c"
proof -
  from assms(2,4) have "fst c = hot" by (auto simp: select_round_def Let_def)
  with assms(3) select_kernel.select_rounds_deaf [OF assms(1)] show ?thesis by blast
qed

lemma echo_at_eof:
  assumes "sys_read k fd RIO_BUFSIZE s = (Some [], s')"
  shows "echo k fd rio0 s = Some (Ret s')"
proof -
  have "rio_read k 1 (rio_readinitb fd rio0, s)
      = Some (Some [], (rio_readinitb fd rio0)\<lparr>rio_cnt := 0, rio_buf := store (rio_buf (rio_readinitb fd rio0)) 0 []\<rparr>, s')"
    using assms by (simp add: rio_read_def rio_fill.simps rio_readinitb_def)
  then have "\<exists>rp. rio_readlineb k MAXLINE (rio_readinitb fd rio0, s) = Some (Ret (0, [], rp, s'))"
    by (simp add: rio_readlineb_def readline_loop.simps MAXLINE_def)
  then show ?thesis unfolding echo_def by (subst echo_loop.simps) auto
qed

theorem select_server_goes_deaf_witness:
  "\<exists>c. select_round sim_kernel 3 demo_rio ({0, 3}, \<lparr>errno = EINTR, world = quiet\<lparr>selects := [[0]], tty := [10],
        backlog := [(7, SockIn 0 0)]\<rparr>\<rparr>) = Some (Ret c)
    \<and> select_rounds 5 (sim_kernel\<lparr>k_accept := (\<lambda>_ w. (Ok (7, SockIn 0 0), w))\<rparr>) 3 demo_rio c
      = select_rounds 5 sim_kernel 3 demo_rio c"
proof -
  let ?s = "\<lparr>errno = EINTR, world = quiet\<lparr>selects := [[0]], tty := [10], backlog := [(7, SockIn 0 0)]\<rparr>\<rparr>"
  have "next_line (MAXLINE - 1) [10] = [10]"
    using first_line_Cons [of 10 "[]"] by (simp add: first_line_def)
  moreover have "echo sim_kernel 7 demo_rio \<lparr>errno = EINTR, world = quiet\<rparr> = Some (Ret \<lparr>errno = EINTR, world = quiet\<rparr>)"
    by (rule echo_at_eof) (simp add: sim_defs quiet_def fun_eq_iff)
  ultimately have "\<exists>c. select_round sim_kernel 3 demo_rio ({0, 3}, ?s) = Some (Ret c)"
    by (simp add: select_round_def FD_ISSET_def FD_SETSIZE_def STDIN_FILENO_def command_def syscall_def
        sim_fgets_def quiet_def serve_client_def accept_def Let_def)
  moreover have "syscall (k_select sim_kernel (3 + 1) {0, 3}) ?s
      = (Some (1, {0}), \<lparr>errno = EINTR, world = quiet\<lparr>tty := [10], backlog := [(7, SockIn 0 0)]\<rparr>\<rparr>)"
    by (simp add: syscall_def quiet_def)
  ultimately show ?thesis
    using select_server_goes_deaf [OF sim_select.select_kernel_axioms, where listenfd = 3 and fds = "{0, 3}"] by auto
qed

end
