(* ===== verification/Pool_Server.thy ===== *)
theory Pool_Server
  imports Echo_Servers
begin

text \<open>
  The event-driven echo server (\<open>csapp/concurrent_program/echoservers.cc\<close>): one process
  watches the listening socket and a pool of clients with \<open>select\<close> and echoes one line per
  ready client and round.

  The lemmas show the invariant of the pool, that a round serves every ready client although
  its scan stops early, that the pool cannot run out of slots, and that bytes which arrive
  together with a line are lost.
\<close>

section \<open>Data\<close>

text \<open>
  The two arrays have \<open>FD_SETSIZE\<close> elements.  The last field is the global variable
  \<open>byte_cnt\<close>.
\<close>

record pool =
  maxfd :: int
  read_set :: "int set"
  ready_set :: "int set"
  nready :: int
  maxi :: int
  clientfd :: "int list"
  clientrio :: "rio_t list"
  byte_cnt :: int

section \<open>Operations\<close>

definition init_pool :: "int \<Rightarrow> pool \<Rightarrow> pool run" where
  "init_pool listenfd p =
     (let p1 = p\<lparr>maxi := - 1, clientfd := replicate (nat FD_SETSIZE) (- 1), maxfd := listenfd\<rparr> in
      run_bind (FD_SET listenfd {}) (\<lambda>fds. Some (Ret (p1\<lparr>read_set := fds\<rparr>))))"

text \<open>The search for a free slot.\<close>

fun find_slot :: "nat \<Rightarrow> int list \<Rightarrow> nat option" where
  "find_slot i [] = None"
| "find_slot i (fd # fds) = (if fd < 0 then Some i else find_slot (i + 1) fds)"

definition add_client :: "int \<Rightarrow> pool \<Rightarrow> pool run" where
  "add_client connfd p =
     (let p1 = p\<lparr>nready := nready p - 1\<rparr> in
      case find_slot 0 (clientfd p1) of
        None \<Rightarrow> Some (Ret p1)
      | Some i \<Rightarrow>
          let p2 = p1\<lparr>clientfd := (clientfd p1)[i := connfd],
                      clientrio := (clientrio p1)[i := rio_readinitb connfd (clientrio p1 ! i)]\<rparr> in
          run_bind (FD_SET connfd (read_set p2)) (\<lambda>fds.
            Some (Ret (p2\<lparr>read_set := fds,
                          maxfd := (if connfd > maxfd p2 then connfd else maxfd p2),
                          maxi := (if int i > maxi p2 then int i else maxi p2)\<rparr>))))"

text \<open>
  One slot.  The reader is a copy of the one in the pool, and the copy is dropped.  \<open>n\<close> is
  an \<open>int\<close>; when it is \<open>-1\<close> the conversion to \<open>size_t\<close> asks for more than the buffer holds.
\<close>

definition check_client :: "'w kernel \<Rightarrow> nat \<Rightarrow> pool \<times> 'w proc \<Rightarrow> (pool \<times> 'w proc) run" where
  "check_client k i c =
     (let (p, s) = c; connfd = clientfd p ! i; rio = clientrio p ! i in
      if connfd > 0
      then run_bind (FD_ISSET connfd (ready_set p)) (\<lambda>b.
        if b
        then let p1 = p\<lparr>nready := nready p - 1\<rparr> in
          run_bind (rio_readlineb k MAXLINE (rio, s)) (\<lambda>(n, buf, _, s1).
            if n \<noteq> 0
            then let cnt = byte_cnt p1 + n in
              if 2 ^ 31 \<le> cnt then Some (Fault SignedOverflow)
              else if MAXLINE < unat (of_int n :: 64 word) then Some (Fault OverRead)
              else (case rio_writen k connfd (take (unat (of_int n :: 64 word)) buf) s1 of
                  None \<Rightarrow> None
                | Some (_, s2) \<Rightarrow> Some (Ret (p1\<lparr>byte_cnt := cnt\<rparr>, s2)))
            else let s2 = snd (sys_close k connfd s1) in
              run_bind (FD_CLR connfd (read_set p1)) (\<lambda>fds.
                Some (Ret (p1\<lparr>read_set := fds, clientfd := (clientfd p1)[i := - 1]\<rparr>, s2))))
        else Some (Ret (p, s)))
      else Some (Ret (p, s)))"

partial_function (option) check_loop :: "'w kernel \<Rightarrow> nat \<Rightarrow> pool \<times> 'w proc \<Rightarrow> (pool \<times> 'w proc) run" where
  "check_loop k i c =
     (if int i \<le> maxi (fst c) \<and> nready (fst c) > 0
      then if int i < FD_SETSIZE
        then case check_client k i c of
            None \<Rightarrow> None
          | Some (Exit n) \<Rightarrow> Some (Exit n)
          | Some (Fault e) \<Rightarrow> Some (Fault e)
          | Some (Ret c') \<Rightarrow> check_loop k (i + 1) c'
        else Some (Fault OverRead)
      else Some (Ret c))"

definition check_clients :: "'w kernel \<Rightarrow> pool \<times> 'w proc \<Rightarrow> (pool \<times> 'w proc) run" where
  "check_clients k c = check_loop k 0 c"

text \<open>
  One round of the endless loop, in its three parts.  A failed \<open>select\<close> leaves its set as
  it was.
\<close>

definition pool_select :: "'w kernel \<Rightarrow> pool \<times> 'w proc \<Rightarrow> pool \<times> 'w proc" where
  "pool_select k c =
     (let (p, s) = c; p1 = p\<lparr>ready_set := read_set p\<rparr> in
      case syscall (k_select k (maxfd p1 + 1) (ready_set p1)) s of
        (None, s1) \<Rightarrow> (p1\<lparr>nready := - 1\<rparr>, s1)
      | (Some (n, fds), s1) \<Rightarrow> (p1\<lparr>nready := n, ready_set := fds\<rparr>, s1))"

definition pool_accept :: "'w kernel \<Rightarrow> int \<Rightarrow> pool \<times> 'w proc \<Rightarrow> (pool \<times> 'w proc) run" where
  "pool_accept k listenfd c =
     (let (p, s) = c in
      run_bind (FD_ISSET listenfd (ready_set p)) (\<lambda>b.
        if b
        then let (connfd, s1) = accept k listenfd s in
          run_bind (add_client connfd p) (\<lambda>p1. Some (Ret (p1, s1)))
        else Some (Ret (p, s))))"

definition pool_round :: "'w kernel \<Rightarrow> int \<Rightarrow> pool \<times> 'w proc \<Rightarrow> (pool \<times> 'w proc) run" where
  "pool_round k listenfd c = run_bind (pool_accept k listenfd (pool_select k c)) (check_clients k)"

primrec pool_rounds :: "nat \<Rightarrow> 'w kernel \<Rightarrow> int \<Rightarrow> pool \<times> 'w proc \<Rightarrow> (pool \<times> 'w proc) run" where
  "pool_rounds 0 k listenfd c = Some (Ret c)"
| "pool_rounds (Suc n) k listenfd c = run_bind (pool_rounds n k listenfd c) (pool_round k listenfd)"

text \<open>The pool is a static variable, so it starts zeroed.\<close>

definition zero_rio :: rio_t where
  "zero_rio = \<lparr>rio_fd = 0, rio_cnt = 0, rio_bufptr = 0, rio_buf = (\<lambda>_. 0)\<rparr>"

definition zero_pool :: pool where
  "zero_pool = \<lparr>maxfd = 0, read_set = {}, ready_set = {}, nready = 0, maxi = 0,
     clientfd = replicate (nat FD_SETSIZE) 0, clientrio = replicate (nat FD_SETSIZE) zero_rio, byte_cnt = 0\<rparr>"

definition pool_start :: "'w kernel \<Rightarrow> string list \<Rightarrow> 'w proc \<Rightarrow> (int \<times> pool \<times> 'w proc) run" where
  "pool_start k argv s = run_bind (server_start k argv s) (\<lambda>(listenfd, s1).
     run_bind (init_pool listenfd zero_pool) (\<lambda>p. Some (Ret (listenfd, p, s1))))"

definition pool_main :: "nat \<Rightarrow> 'w kernel \<Rightarrow> string list \<Rightarrow> 'w proc \<Rightarrow> (pool \<times> 'w proc) run" where
  "pool_main n k argv s = run_bind (pool_start k argv s) (\<lambda>(listenfd, c). pool_rounds n k listenfd c)"

section \<open>The invariant\<close>

lemma nat_FD_SETSIZE [simp]: "nat FD_SETSIZE = 1024" by (simp add: FD_SETSIZE_def)

lemma FD_SET_Ret [simp]:
  "FD_SET fd fds = Some (Ret x) \<longleftrightarrow> 0 \<le> fd \<and> fd < FD_SETSIZE \<and> x = insert fd fds"
  by (auto simp: FD_SET_def)

lemma FD_CLR_Ret [simp]:
  "FD_CLR fd fds = Some (Ret x) \<longleftrightarrow> 0 \<le> fd \<and> fd < FD_SETSIZE \<and> x = fds - {fd}"
  by (auto simp: FD_CLR_def)

lemma FD_ISSET_Ret [simp]:
  "FD_ISSET fd fds = Some (Ret b) \<longleftrightarrow> 0 \<le> fd \<and> fd < FD_SETSIZE \<and> b = (fd \<in> fds)"
  by (auto simp: FD_ISSET_def)

text \<open>The connected clients, and what holds of the pool between operations.\<close>

definition connected :: "pool \<Rightarrow> int set" where
  "connected p = {fd \<in> set (clientfd p). 0 \<le> fd}"

definition slots_ok :: "pool \<Rightarrow> bool" where
  "slots_ok p \<longleftrightarrow> length (clientfd p) = 1024 \<and> length (clientrio p) = 1024
     \<and> (\<forall>i < 1024. \<forall>j < 1024. 0 \<le> clientfd p ! i \<longrightarrow> clientfd p ! i = clientfd p ! j \<longrightarrow> i = j)
     \<and> (\<forall>i < 1024. 0 \<le> clientfd p ! i \<longrightarrow> int i \<le> maxi p)
     \<and> (\<forall>i < 1024. 0 \<le> clientfd p ! i \<longrightarrow>
          (\<exists>rp. clientrio p ! i = rio_readinitb (clientfd p ! i) rp))"

definition pool_ok :: "int \<Rightarrow> pool \<Rightarrow> bool" where
  "pool_ok listenfd p \<longleftrightarrow> slots_ok p \<and> maxi p < FD_SETSIZE
     \<and> read_set p = insert listenfd (connected p) \<and> listenfd \<notin> connected p
     \<and> (\<forall>fd \<in> read_set p. 0 \<le> fd \<and> fd < FD_SETSIZE \<and> fd \<le> maxfd p)"

lemma slots_okD:
  assumes "slots_ok p"
  shows "length (clientfd p) = 1024" and "length (clientrio p) = 1024"
    and "\<And>i j. i < 1024 \<Longrightarrow> j < 1024 \<Longrightarrow> 0 \<le> clientfd p ! i \<Longrightarrow> clientfd p ! i = clientfd p ! j \<Longrightarrow> i = j"
    and "\<And>i. i < 1024 \<Longrightarrow> 0 \<le> clientfd p ! i \<Longrightarrow> int i \<le> maxi p"
    and "\<And>i. i < 1024 \<Longrightarrow> 0 \<le> clientfd p ! i \<Longrightarrow> \<exists>rp. clientrio p ! i = rio_readinitb (clientfd p ! i) rp"
  using assms by (auto simp: slots_ok_def)

lemma pool_okD:
  assumes "pool_ok listenfd p"
  shows "slots_ok p" and "maxi p < FD_SETSIZE" and "read_set p = insert listenfd (connected p)"
    and "listenfd \<notin> connected p" and "0 \<le> listenfd" and "listenfd < FD_SETSIZE"
    and "\<And>fd. fd \<in> connected p \<Longrightarrow> 0 \<le> fd \<and> fd < FD_SETSIZE \<and> fd \<le> maxfd p"
  using assms by (auto simp: pool_ok_def)

lemma connected_nth: "slots_ok p \<Longrightarrow> i < 1024 \<Longrightarrow> 0 \<le> clientfd p ! i \<Longrightarrow> clientfd p ! i \<in> connected p"
  by (simp add: connected_def slots_ok_def)

lemma connected_conv: "slots_ok p \<Longrightarrow> connected p = {fd. 0 \<le> fd \<and> (\<exists>i < 1024. fd = clientfd p ! i)}"
  by (auto simp: connected_def slots_ok_def in_set_conv_nth)

text \<open>Filling a free slot and clearing a used one.\<close>

lemma slots_ok_fill:
  assumes "slots_ok p" and "i < 1024" and "clientfd p ! i < 0" and "0 \<le> fd" and "fd \<notin> connected p"
    and "clientfd p' = (clientfd p)[i := fd]"
    and "clientrio p' = (clientrio p)[i := rio_readinitb fd (clientrio p ! i)]"
    and "maxi p \<le> maxi p'" and "int i \<le> maxi p'"
  shows "slots_ok p'" and "connected p' = insert fd (connected p)"
proof -
  note ok = slots_okD [OF assms(1)]
  have new: "clientfd p ! j \<noteq> fd" if "j < 1024" for j
    using connected_nth [OF assms(1) that] assms(4,5) by auto
  have len: "length (clientfd p') = 1024" "length (clientrio p') = 1024" using ok(1,2) assms(6,7) by simp_all
  have nth: "clientfd p' ! j = (if j = i then fd else clientfd p ! j)"
      "clientrio p' ! j = (if j = i then rio_readinitb fd (clientrio p ! i) else clientrio p ! j)" if "j < 1024" for j
    using that ok(1,2) assms(2,6,7) by (auto simp: nth_list_update)
  show s: "slots_ok p'"
    unfolding slots_ok_def
  proof (intro conjI allI impI)
    fix j l
    assume a: "j < (1024 :: nat)" "l < (1024 :: nat)" "0 \<le> clientfd p' ! j" "clientfd p' ! j = clientfd p' ! l"
    then show "j = l" using ok(3) [OF a(1,2)] new by (auto simp: nth split: if_splits)
  next
    fix j
    assume a: "j < (1024 :: nat)" "0 \<le> clientfd p' ! j"
    then show "int j \<le> maxi p'" using ok(4) [of j] assms(8,9) by (auto simp: nth split: if_splits)
    from a show "\<exists>rp. clientrio p' ! j = rio_readinitb (clientfd p' ! j) rp"
      using ok(5) [of j] by (auto simp: nth split: if_splits)
  qed (use len in auto)
  have "(\<exists>j < 1024. x = clientfd p' ! j) \<longleftrightarrow> x = fd \<or> (\<exists>j < 1024. j \<noteq> i \<and> x = clientfd p ! j)" for x
    using assms(2) nth(1) by metis
  then show "connected p' = insert fd (connected p)"
    unfolding connected_conv [OF s] connected_conv [OF assms(1)] using assms(2-4)
    by (auto simp: linorder_not_less [symmetric])
qed

lemma slots_ok_clear:
  assumes "slots_ok p" and "i < 1024" and "0 \<le> clientfd p ! i"
    and "clientfd p' = (clientfd p)[i := - 1]" and "clientrio p' = clientrio p" and "maxi p' = maxi p"
  shows "slots_ok p'" and "connected p' = connected p - {clientfd p ! i}"
proof -
  note ok = slots_okD [OF assms(1)]
  have nth: "clientfd p' ! j = (if j = i then - 1 else clientfd p ! j)" if "j < 1024" for j
    using that ok(1) assms(2,4) by (simp add: nth_list_update)
  show s: "slots_ok p'"
    unfolding slots_ok_def assms(5,6)
  proof (intro conjI allI impI)
    fix j l
    assume a: "j < (1024 :: nat)" "l < (1024 :: nat)" "0 \<le> clientfd p' ! j" "clientfd p' ! j = clientfd p' ! l"
    then show "j = l" using ok(3) [OF a(1,2)] by (auto simp: nth split: if_splits)
  next
    fix j
    assume a: "j < (1024 :: nat)" "0 \<le> clientfd p' ! j"
    then show "int j \<le> maxi p" using ok(4) [of j] by (auto simp: nth split: if_splits)
    from a show "\<exists>rp. clientrio p ! j = rio_readinitb (clientfd p' ! j) rp"
      using ok(5) [of j] by (auto simp: nth split: if_splits)
  qed (use ok(1,2) assms(4) in auto)
  show "connected p' = connected p - {clientfd p ! i}"
    unfolding connected_conv [OF s] connected_conv [OF assms(1)]
    using assms(2,3) ok(3) by (auto simp: nth split: if_splits)
qed

lemma slots_ok_same:
  assumes "slots_ok p" and "clientfd p' = clientfd p" and "clientrio p' = clientrio p" and "maxi p' = maxi p"
  shows "slots_ok p'" and "connected p' = connected p"
  using assms by (simp_all add: slots_ok_def connected_def)

lemma pool_ok_same:
  assumes "pool_ok listenfd p" and "clientfd p' = clientfd p" and "clientrio p' = clientrio p"
    and "maxi p' = maxi p" and "read_set p' = read_set p" and "maxfd p' = maxfd p"
  shows "pool_ok listenfd p'"
  unfolding pool_ok_def assms(4-6)
  using assms(1) slots_ok_same [OF _ assms(2-4)] by (simp add: pool_ok_def)

section \<open>The operations keep it\<close>

lemma find_slot_Some: "find_slot n fds = Some i \<Longrightarrow> n \<le> i \<and> i < n + length fds \<and> fds ! (i - n) < 0"
proof (induction n fds rule: find_slot.induct)
  case (2 n fd fds)
  then show ?case by (auto simp: nth_Cons' split: if_splits)
qed simp

lemma find_slot_None: "find_slot n fds = None \<longleftrightarrow> (\<forall>fd \<in> set fds. 0 \<le> fd)"
  by (induction n fds rule: find_slot.induct) auto

lemma init_pool_ok:
  assumes "init_pool listenfd p = Some (Ret p')" and "length (clientrio p) = 1024"
  shows "pool_ok listenfd p'" and "read_set p' = {listenfd}"
  using assms by (auto simp: init_pool_def pool_ok_def slots_ok_def connected_def)

lemma add_client_ok:
  assumes "pool_ok listenfd p" and "add_client fd p = Some (Ret p')" and "fd \<notin> read_set p"
  shows "pool_ok listenfd p'" and "read_set p' \<subseteq> insert fd (read_set p)" and "ready_set p' = ready_set p"
    and "nready p' = nready p - 1" and "byte_cnt p' = byte_cnt p"
proof -
  note ok = pool_okD [OF assms(1)]
  show "read_set p' \<subseteq> insert fd (read_set p)" "ready_set p' = ready_set p" "nready p' = nready p - 1"
    "byte_cnt p' = byte_cnt p"
    using assms(2) by (auto simp: add_client_def Let_def split: option.splits)
  show "pool_ok listenfd p'"
  proof (cases "find_slot 0 (clientfd p)")
    case None
    with assms(2) have "p' = p\<lparr>nready := nready p - 1\<rparr>" by (simp add: add_client_def)
    with pool_ok_same [OF assms(1)] show ?thesis by simp
  next
    case (Some i)
    with find_slot_Some [OF Some] slots_okD(1) [OF ok(1)] have i: "i < 1024" "clientfd p ! i < 0" by auto
    from Some assms(2) have f: "0 \<le> fd" "fd < FD_SETSIZE" by (auto simp: add_client_def Let_def)
    from Some assms(2) have p': "clientfd p' = (clientfd p)[i := fd]"
        "clientrio p' = (clientrio p)[i := rio_readinitb fd (clientrio p ! i)]"
        "maxi p \<le> maxi p'" "int i \<le> maxi p'" "maxi p' \<le> max (maxi p) (int i)"
        "read_set p' = insert fd (read_set p)" "maxfd p' = max fd (maxfd p)"
      by (auto simp: add_client_def Let_def)
    have n: "fd \<notin> connected p" "fd \<noteq> listenfd" using assms(3) ok(3) by auto
    have i': "int i < FD_SETSIZE" using i(1) by (simp add: FD_SETSIZE_def)
    have "\<forall>x \<in> read_set p'. 0 \<le> x \<and> x < FD_SETSIZE \<and> x \<le> maxfd p'"
      using assms(1) f unfolding p'(6,7) by (auto simp: pool_ok_def le_max_iff_disj)
    moreover have "maxi p' < FD_SETSIZE" using p'(5) ok(2) i' by linarith
    ultimately show ?thesis
      unfolding pool_ok_def
      using slots_ok_fill [OF ok(1) i f(1) n(1) p'(1-4)] ok(3,4) n(2) p'(6) by auto
  qed
qed

sublocale fd_kernel \<subseteq> r_fd: read_invariant k "\<lambda>w. opened w = x" False for x
  by unfold_locales (simp add: read_keeps)

sublocale fd_kernel \<subseteq> w_fd: write_invariant k "\<lambda>w. opened w = x" False for x
  by unfold_locales (simp add: write_keeps)

text \<open>What a slot that is not ready, one that sends a line, and one that has ended do to the pool.\<close>

lemma check_client_cases:
  assumes "check_client k i (p, s) = Some (Ret (p', s'))"
  obtains (idle) "p' = p" and "s' = s" and "\<not> (0 < clientfd p ! i \<and> clientfd p ! i \<in> ready_set p)"
  | (line) n buf rp s1 r where "0 < clientfd p ! i" and "clientfd p ! i \<in> ready_set p"
      and "p' = p\<lparr>nready := nready p - 1, byte_cnt := byte_cnt p + n\<rparr>"
      and "rio_readlineb k MAXLINE (clientrio p ! i, s) = Some (Ret (n, buf, rp, s1))" and "n \<noteq> 0"
      and "rio_writen k (clientfd p ! i) (take (unat (of_int n :: 64 word)) buf) s1 = Some (r, s')"
  | (ended) buf rp s1 where "0 < clientfd p ! i" and "clientfd p ! i \<in> ready_set p"
      and "rio_readlineb k MAXLINE (clientrio p ! i, s) = Some (Ret (0, buf, rp, s1))"
      and "s' = snd (sys_close k (clientfd p ! i) s1)"
      and "p' = p\<lparr>nready := nready p - 1, read_set := read_set p - {clientfd p ! i},
                  clientfd := (clientfd p)[i := - 1]\<rparr>"
proof (cases "0 < clientfd p ! i \<and> clientfd p ! i \<in> ready_set p")
  case False
  with assms show ?thesis by (intro idle) (auto simp: check_client_def Let_def split: if_splits)
next
  case True
  with assms obtain n buf rp s1 where r: "rio_readlineb k MAXLINE (clientrio p ! i, s) = Some (Ret (n, buf, rp, s1))"
    by (auto simp: check_client_def Let_def)
  show ?thesis
  proof (cases "n = 0")
    case z: True
    with r True assms show ?thesis by (intro ended) (auto simp: check_client_def Let_def)
  next
    case False
    with r True assms obtain x where
        "rio_writen k (clientfd p ! i) (take (unat (of_int n :: 64 word)) buf) s1 = Some (x, s')"
        "p' = p\<lparr>nready := nready p - 1, byte_cnt := byte_cnt p + n\<rparr>"
      by (auto simp: check_client_def Let_def split: if_splits option.splits)
    with r True False show ?thesis by (intro line [of n buf rp s1 x]) auto
  qed
qed

lemma check_client_ok:
  assumes "pool_ok listenfd p" and "i < 1024" and "check_client k i (p, s) = Some (Ret (p', s'))"
  shows "pool_ok listenfd p'" and "ready_set p' = ready_set p"
    and "\<And>j. j \<noteq> i \<Longrightarrow> clientfd p' ! j = clientfd p ! j"
    and "nready p' = nready p - of_bool (0 < clientfd p ! i \<and> clientfd p ! i \<in> ready_set p)"
proof -
  note ok = pool_okD [OF assms(1)]
  from assms(3) have "pool_ok listenfd p' \<and> ready_set p' = ready_set p \<and> (\<forall>j. j \<noteq> i \<longrightarrow> clientfd p' ! j = clientfd p ! j)
    \<and> nready p' = nready p - of_bool (0 < clientfd p ! i \<and> clientfd p ! i \<in> ready_set p)"
  proof (cases rule: check_client_cases)
    case idle
    with assms(1) show ?thesis by simp
  next
    case (line n buf rp s1 r)
    with pool_ok_same [OF assms(1), of p'] show ?thesis by simp
  next
    case (ended buf rp s1)
    then have c: "clientfd p' = (clientfd p)[i := - 1]" "clientrio p' = clientrio p" "maxi p' = maxi p"
        "read_set p' = read_set p - {clientfd p ! i}" "maxfd p' = maxfd p" "0 \<le> clientfd p ! i" by simp_all
    have "clientfd p ! i \<noteq> listenfd" using connected_nth [OF ok(1) assms(2) c(6)] ok(4) by auto
    with slots_ok_clear [OF ok(1) assms(2) c(6,1-3)] assms(1) have "pool_ok listenfd p'"
      unfolding pool_ok_def c(3-5) by auto
    with ended show ?thesis by simp
  qed
  then show "pool_ok listenfd p'" "ready_set p' = ready_set p" "\<And>j. j \<noteq> i \<Longrightarrow> clientfd p' ! j = clientfd p ! j"
    "nready p' = nready p - of_bool (0 < clientfd p ! i \<and> clientfd p ! i \<in> ready_set p)" by auto
qed

lemma check_loop_stop: "\<not> (int i \<le> maxi p \<and> nready p > 0) \<Longrightarrow> check_loop k i (p, s) = Some (Ret (p, s))"
  by (subst check_loop.simps) auto

lemma check_loop_step:
  assumes "int i \<le> maxi p" and "nready p > 0" and "i < 1024"
  shows "check_loop k i (p, s) = run_bind (check_client k i (p, s)) (check_loop k (i + 1))"
  using assms
  by (subst check_loop.simps)
    (cases "(check_client k i (p, s), check_loop k (i + 1))" rule: run_bind.cases, auto simp: FD_SETSIZE_def)

section \<open>The scan that stops early\<close>

text \<open>The reference: look at every slot.\<close>

primrec scan :: "'w kernel \<Rightarrow> nat list \<Rightarrow> pool \<times> 'w proc \<Rightarrow> (pool \<times> 'w proc) run" where
  "scan k [] c = Some (Ret c)"
| "scan k (i # is) c = run_bind (check_client k i c) (scan k is)"

definition waiting :: "nat \<Rightarrow> pool \<Rightarrow> nat set" where
  "waiting i p = {j. i \<le> j \<and> j < 1024 \<and> 0 < clientfd p ! j \<and> clientfd p ! j \<in> ready_set p}"

lemma finite_waiting [simp]: "finite (waiting i p)"
  by (rule finite_subset [of _ "{..< 1024}"]) (auto simp: waiting_def)

lemma waiting_Suc:
  assumes "i < 1024"
  shows "waiting i p = (if 0 < clientfd p ! i \<and> clientfd p ! i \<in> ready_set p then insert i (waiting (Suc i) p)
    else waiting (Suc i) p)"
  using assms by (auto simp: waiting_def le_less Suc_le_eq)

lemma card_waiting:
  assumes "slots_ok p" and "finite (ready_set p)"
  shows "card (waiting 0 p) \<le> card (ready_set p \<inter> connected p)"
proof (rule card_inj_on_le [of "\<lambda>j. clientfd p ! j"])
  show "inj_on (\<lambda>j. clientfd p ! j) (waiting 0 p)"
    using slots_okD(3) [OF assms(1)] by (auto simp: inj_on_def waiting_def)
  show "(\<lambda>j. clientfd p ! j) ` waiting 0 p \<subseteq> ready_set p \<inter> connected p"
    using connected_nth [OF assms(1)] by (auto simp: waiting_def)
qed (use assms(2) in simp)

lemma check_client_idle:
  assumes "pool_ok listenfd p" and "i < 1024" and "i \<notin> waiting 0 p"
  shows "check_client k i (p, s) = Some (Ret (p, s))"
proof (cases "0 < clientfd p ! i")
  case True
  with connected_nth [OF pool_okD(1) [OF assms(1)] assms(2)] pool_okD(7) [OF assms(1)]
  have "FD_ISSET (clientfd p ! i) (ready_set p) = Some (Ret (clientfd p ! i \<in> ready_set p))" by auto
  with True assms(2,3) show ?thesis by (auto simp: check_client_def waiting_def Let_def)
qed (simp add: check_client_def)

lemma scan_idle:
  assumes "pool_ok listenfd p" and "\<forall>i \<in> set is. i < 1024 \<and> i \<notin> waiting 0 p"
  shows "scan k is (p, s) = Some (Ret (p, s))"
  using assms(2) by (induction "is") (simp_all add: check_client_idle [OF assms(1)])

lemma check_loop_scan:
  assumes "pool_ok listenfd p" and "int (card (waiting i p)) \<le> nready p" and "i \<le> 1024"
  shows "check_loop k i (p, s) = scan k [i ..< 1024] (p, s)"
  using assms
proof (induction "1024 - i" arbitrary: i p s)
  case 0
  then have "i = 1024" by simp
  moreover have "maxi p < 1024" using pool_okD(2) [OF 0(2)] by (simp add: FD_SETSIZE_def)
  ultimately show ?case by (simp add: check_loop_stop)
next
  case (Suc m)
  then have i: "i < 1024" "m = 1024 - (i + 1)" by auto
  show ?case
  proof (cases "int i \<le> maxi p \<and> nready p > 0")
    case False
    have "waiting i p = {}"
    proof (cases "nready p > 0")
      case True
      with False have "maxi p < int i" by simp
      with slots_okD(4) [OF pool_okD(1) [OF Suc.prems(1)]] show ?thesis by (fastforce simp: waiting_def)
    next
      case False
      with Suc.prems(2) have "card (waiting i p) = 0" by linarith
      then show ?thesis by simp
    qed
    then have "\<forall>j \<in> set [i ..< 1024]. j < 1024 \<and> j \<notin> waiting 0 p" by (auto simp: waiting_def)
    then show ?thesis by (simp only: scan_idle [OF Suc.prems(1)] check_loop_stop [OF False])
  next
    case True
    have "check_loop k (i + 1) c' = scan k [i + 1 ..< 1024] c'"
      if c: "check_client k i (p, s) = Some (Ret c')" for c'
    proof -
      obtain p' s' where c': "c' = (p', s')" by fastforce
      note ok = check_client_ok [OF Suc.prems(1) i(1) c [unfolded c']]
      have "waiting (i + 1) p' = waiting (i + 1) p" using ok(2,3) by (auto simp: waiting_def)
      moreover have "i \<notin> waiting (Suc i) p" by (simp add: waiting_def)
      ultimately have "int (card (waiting (i + 1) p')) \<le> nready p'"
        using Suc.prems(2) unfolding waiting_Suc [OF i(1)] ok(4) by (auto split: if_splits)
      from Suc.hyps(1) [OF i(2) ok(1) this] i(1) show ?thesis unfolding c' by simp
    qed
    with True i(1) check_loop_step [of i p k s] show ?thesis
      by (simp add: upt_conv_Cons)
        (cases "(check_client k i (p, s), check_loop k (i + 1))" rule: run_bind.cases, auto)
  qed
qed

section \<open>Rounds\<close>

inductive pool_reachable :: "'w kernel \<Rightarrow> string list \<Rightarrow> 'w proc \<Rightarrow> int \<Rightarrow> pool \<times> 'w proc \<Rightarrow> bool"
  for k argv s0 where
  Start: "pool_start k argv s0 = Some (Ret (listenfd, c)) \<Longrightarrow> pool_reachable k argv s0 listenfd c"
| Round: "pool_reachable k argv s0 listenfd c \<Longrightarrow> pool_round k listenfd c = Some (Ret c') \<Longrightarrow>
    pool_reachable k argv s0 listenfd c'"

lemma pool_select_ok:
  assumes "pool_ok listenfd p" and "pool_select k (p, s) = (p', s')"
  shows "pool_ok listenfd p'" and "read_set p' = read_set p"
  using assms(2) by (auto simp: pool_select_def Let_def split: option.splits prod.splits
      intro: pool_ok_same [OF assms(1)])

context fd_kernel
begin

lemma accept_fresh:
  assumes "accept k listenfd s = (fd, s')"
  shows "fd = - 1 \<and> opened (world s') = opened (world s)
    \<or> 0 \<le> fd \<and> fd \<notin> opened (world s) \<and> opened (world s') = insert fd (opened (world s))"
  using assms accept_opens accept_failed
  by (auto simp: accept_def split: option.splits prod.splits dest!: syscall_SomeD syscall_NoneD)

lemma open_listenfd_opened:
  assumes "open_listenfd k port s = (fd, s')" and "0 \<le> fd"
  shows "fd \<in> opened (world s')"
proof -
  from assms obtain s1 s2 s3 where c: "syscall (k_socket k AF_INET) s = (Some fd, s1)"
      "syscall (k_setsockopt_reuseaddr k fd) s1 = (Some (), s2)"
      "syscall (k_bind k fd (SockIn (htons (of_int port)) INADDR_ANY)) s2 = (Some (), s3)"
      "syscall (k_listen k fd 1024) s3 = (Some (), s')"
    by (auto simp: open_listenfd_def split: prod.splits option.splits)
  from syscall_SomeD [OF c(1)] socket_opens have "fd \<in> opened (world s1)" by blast
  with sys_keeps(1) [OF c(2)] sys_keeps(2) [OF c(3)] sys_keeps(3) [OF c(4)] show ?thesis by simp
qed

lemma check_client_opened:
  assumes "check_client k i (p, s) = Some (Ret (p', s'))" and "read_set p \<subseteq> opened (world s)"
  shows "read_set p' \<subseteq> opened (world s')"
  using assms(1)
proof (cases rule: check_client_cases)
  case idle
  with assms(2) show ?thesis by simp
next
  case (line n buf rp s1 r)
  from r_fd.rio_readlineb_inv [OF line(4)] w_fd.rio_writen_inv [OF line(6)] have "opened (world s') = opened (world s)"
    by simp
  with line(3) assms(2) show ?thesis by simp
next
  case (ended buf rp s1)
  from r_fd.rio_readlineb_inv [OF ended(3)] have "opened (world s1) = opened (world s)" by simp
  with ended(4,5) assms(2) show ?thesis by (auto simp: sys_keeps(5))
qed

lemma check_loop_inv:
  assumes "check_loop k i (p, s) = Some (Ret (p', s'))" and "pool_ok listenfd p"
    and "read_set p \<subseteq> opened (world s)" and "i \<le> 1024"
  shows "pool_ok listenfd p' \<and> read_set p' \<subseteq> opened (world s')"
  using assms
proof (induction "1024 - i" arbitrary: i p s)
  case 0
  then have "\<not> int i \<le> maxi p" using pool_okD(2) [OF 0(3)] by (simp add: FD_SETSIZE_def)
  with 0 show ?case by (simp add: check_loop_stop)
next
  case (Suc m)
  then have i: "i < 1024" "m = 1024 - (i + 1)" by auto
  show ?case
  proof (cases "int i \<le> maxi p \<and> nready p > 0")
    case False
    with Suc.prems show ?thesis by (simp add: check_loop_stop)
  next
    case True
    with Suc.prems(1) i(1) obtain p1 s1 where c: "check_client k i (p, s) = Some (Ret (p1, s1))"
        "check_loop k (i + 1) (p1, s1) = Some (Ret (p', s'))"
      by (auto simp: check_loop_step)
    from Suc.hyps(1) [OF i(2) c(2) check_client_ok(1) [OF Suc.prems(2) i(1) c(1)]
        check_client_opened [OF c(1) Suc.prems(3)]] i(1) show ?thesis by simp
  qed
qed

lemma pool_accept_inv:
  assumes "pool_accept k listenfd (p, s) = Some (Ret (p', s'))" and "pool_ok listenfd p"
    and "read_set p \<subseteq> opened (world s)"
  shows "pool_ok listenfd p'" and "read_set p' \<subseteq> opened (world s')"
proof -
  have "pool_ok listenfd p' \<and> read_set p' \<subseteq> opened (world s')"
  proof (cases "listenfd \<in> ready_set p")
    case False
    with assms show ?thesis by (auto simp: pool_accept_def)
  next
    case True
    obtain fd s1 where a: "accept k listenfd s = (fd, s1)" by fastforce
    with True assms(1) have c: "add_client fd p = Some (Ret p')" "s' = s1" by (auto simp: pool_accept_def)
    from accept_fresh [OF a] assms(3) pool_okD(3,5,7) [OF assms(2)] have "fd \<notin> read_set p" by force
    note ok = add_client_ok(1,2) [OF assms(2) c(1) this]
    have "- 1 \<notin> read_set p'" using pool_okD(3,5,7) [OF ok(1)] by force
    with ok accept_fresh [OF a] assms(3) c(2) show ?thesis by auto
  qed
  then show "pool_ok listenfd p'" "read_set p' \<subseteq> opened (world s')" by auto
qed

lemma reachable_inv:
  assumes "pool_reachable k argv s0 listenfd c"
  shows "pool_ok listenfd (fst c) \<and> read_set (fst c) \<subseteq> opened (world (snd c))"
  using assms
proof (induction rule: pool_reachable.induct)
  case (Start listenfd c)
  then obtain port where o: "open_listenfd k port s0 = (listenfd, snd c)"
    and i: "init_pool listenfd zero_pool = Some (Ret (fst c))"
    by (auto simp: pool_start_def server_start_def split: if_splits prod.splits)
  have "length (clientrio zero_pool) = 1024" by (simp add: zero_pool_def)
  note ok = init_pool_ok [OF i this]
  from open_listenfd_opened [OF o pool_okD(5) [OF ok(1)]] ok show ?case by simp
next
  case (Round listenfd c c')
  obtain p s where c: "c = (p, s)" by fastforce
  obtain p1 s1 where 1: "pool_select k (p, s) = (p1, s1)" by fastforce
  obtain p' s' where c': "c' = (p', s')" by fastforce
  from Round(2) obtain p2 s2 where 2: "pool_accept k listenfd (p1, s1) = Some (Ret (p2, s2))"
      "check_loop k 0 (p2, s2) = Some (Ret (p', s'))"
    by (auto simp: pool_round_def check_clients_def c c' 1)
  from Round(3) have ok: "pool_ok listenfd p" "read_set p \<subseteq> opened (world s)" by (simp_all add: c)
  have "opened (world s1) = opened (world s)"
    using 1 sys_keeps(4) by (auto simp: pool_select_def Let_def split: prod.splits option.splits)
  with pool_select_ok [OF ok(1) 1] ok(2) have ok1: "pool_ok listenfd p1" "read_set p1 \<subseteq> opened (world s1)" by auto
  from check_loop_inv [OF 2(2) pool_accept_inv [OF 2(1) ok1]] show ?case by (simp add: c')
qed

end

text \<open>The number of free slots.\<close>

lemma find_slot_total:
  assumes "pool_ok listenfd p"
  shows "find_slot 0 (clientfd p) \<noteq> None"
proof
  assume "find_slot 0 (clientfd p) = None"
  then have all: "0 \<le> clientfd p ! i" if "i < 1024" for i
    using that slots_okD(1) [OF pool_okD(1) [OF assms]] by (simp add: find_slot_None)
  note ok = pool_okD [OF assms] and sl = slots_okD [OF pool_okD(1) [OF assms]]
  have "inj_on (\<lambda>i. clientfd p ! i) {..< 1024}" using all sl(3) by (auto simp: inj_on_def)
  then have "card ((\<lambda>i. clientfd p ! i) ` {..< 1024}) = 1024" by (simp add: card_image)
  moreover have "(\<lambda>i. clientfd p ! i) ` {..< 1024} \<subseteq> {0 ..< FD_SETSIZE} - {listenfd}"
    using all connected_nth [OF ok(1)] ok(4,7) by auto
  then have "card ((\<lambda>i. clientfd p ! i) ` {..< 1024}) \<le> card ({0 ..< FD_SETSIZE} - {listenfd})"
    by (intro card_mono) auto
  moreover have "card ({0 ..< FD_SETSIZE} - {listenfd}) = 1023"
    using ok(5,6) by (simp add: FD_SETSIZE_def)
  ultimately show False by simp
qed

context fd_kernel
begin

text \<open>After \<open>select\<close> and \<open>accept\<close>, \<open>nready\<close> is large enough for every client that is ready.\<close>

lemma enough_ready:
  assumes "select_kernel k" and "pool_ok listenfd p" and "read_set p \<subseteq> opened (world s)"
    and "syscall (k_select k (maxfd p + 1) (read_set p)) s = (Some (m, fds), s1)"
    and "pool_accept k listenfd (pool_select k (p, s)) = Some (Ret (p', s'))"
  shows "pool_ok listenfd p'" and "int (card (waiting 0 p')) \<le> nready p'"
proof -
  let ?p = "p\<lparr>ready_set := fds, nready := m\<rparr>"
  have sel: "pool_select k (p, s) = (?p, s1)" using assms(4) by (simp add: pool_select_def)
  have ok: "pool_ok listenfd ?p" by (rule pool_ok_same [OF assms(2)]) simp_all
  have op: "read_set ?p \<subseteq> opened (world s1)" using assms(3) sys_keeps(4) [OF assms(4)] by simp
  show ok': "pool_ok listenfd p'" using pool_accept_inv(1) [OF assms(5) [unfolded sel] ok op] .
  note fds = select_kernel.sys_select [OF assms(1,4)]
  have fin: "finite fds"
    using fds(1) pool_okD(3) [OF assms(2)] by (auto simp: connected_def intro: finite_subset)
  have r: "fds \<inter> connected p \<subseteq> fds - {listenfd}" using pool_okD(4) [OF assms(2)] by auto
  show "int (card (waiting 0 p')) \<le> nready p'"
  proof (cases "listenfd \<in> fds")
    case False
    with assms(5) have "p' = ?p" by (auto simp: sel pool_accept_def)
    with card_waiting [of ?p] pool_okD(1) [OF ok] fin fds(2) r show ?thesis
      by (auto simp: connected_def intro!: order_trans [OF _ card_mono [OF fin]])
  next
    case True
    obtain fd s2 where a: "accept k listenfd s1 = (fd, s2)" by fastforce
    with True assms(5) have c: "add_client fd ?p = Some (Ret p')" by (auto simp: sel pool_accept_def)
    from accept_fresh [OF a] op pool_okD(3,5,7) [OF ok] have fd: "fd \<notin> read_set ?p" by force
    note ac = add_client_ok [OF ok c fd]
    have "fds \<inter> connected p' \<subseteq> fds - {listenfd}" using pool_okD(4) [OF ok'] by auto
    then have "card (fds \<inter> connected p') \<le> card fds - 1"
      using True fin by (metis card_Diff_singleton card_mono finite_Diff)
    moreover have "0 < card fds" using True fin by (auto simp: card_gt_0_iff)
    moreover have "card (waiting 0 p') \<le> card (fds \<inter> connected p')"
      using card_waiting [OF pool_okD(1) [OF ok']] ac(3) fin by simp
    ultimately show ?thesis using ac(4) fds(2) by simp
  qed
qed

end

section \<open>Properties\<close>

text \<open>
  C19: in every state the server reaches, the descriptors it watches are the listener and the
  clients in the slots, each client in one slot only; all are in the range \<open>select\<close> can
  handle and not above \<open>maxfd\<close>; no slot above \<open>maxi\<close> is in use; and every descriptor
  watched is open.
\<close>

theorem pool_invariant:
  assumes "fd_kernel k opened" and "pool_reachable k argv s0 listenfd (p, s)"
  shows "pool_ok listenfd p \<and> read_set p \<subseteq> opened (world s)"
  using fd_kernel.reachable_inv [OF assms] by simp

text \<open>A server for the witnesses, with one client.\<close>

definition demo_pool_proc :: "sim proc" where
  "demo_pool_proc = \<lparr>errno = EINTR, world = quiet\<lparr>selects := [[3], [5]], backlog := [(5, SockIn 0 0)],
     inq := (\<lambda>_. [104, 10, 105, 10])\<rparr>\<rparr>"

definition demo_pool :: pool where
  "demo_pool = zero_pool\<lparr>maxi := - 1, clientfd := replicate 1024 (- 1), maxfd := 3, read_set := {3}\<rparr>"

lemma demo_pool_start:
  "pool_start sim_fd_kernel [''s'', ''80''] demo_pool_proc
    = Some (Ret (3, demo_pool, demo_pool_proc\<lparr>world := (world demo_pool_proc)\<lparr>next_fd := 4, open_fds := [3]\<rparr>\<rparr>))"
  by (simp add: pool_start_def server_start_def open_listenfd_def init_pool_def FD_SET_def FD_SETSIZE_def
      sim_fd_kernel_def take_fd_def syscall_def demo_pool_proc_def demo_pool_def quiet_def)

definition demo_pool1 :: pool where
  "demo_pool1 = demo_pool\<lparr>ready_set := {3}, nready := 0, clientfd := 5 # replicate 1023 (- 1),
     clientrio := (replicate 1024 zero_rio)[0 := rio_readinitb 5 zero_rio], read_set := {3, 5}, maxfd := 5, maxi := 0\<rparr>"

definition demo_pool_proc1 :: "sim proc" where
  "demo_pool_proc1 = demo_pool_proc\<lparr>world := (world demo_pool_proc)\<lparr>next_fd := 4, open_fds := [5, 3],
     selects := [[5]], backlog := []\<rparr>\<rparr>"

lemma demo_pool_round:
  "pool_round sim_fd_kernel 3 (demo_pool, demo_pool_proc\<lparr>world := (world demo_pool_proc)\<lparr>next_fd := 4, open_fds := [3]\<rparr>\<rparr>)
    = Some (Ret (demo_pool1, demo_pool_proc1))"
proof -
  have r: "replicate 1024 (- 1 :: int) = - 1 # replicate 1023 (- 1)"
    using replicate_Suc [of 1023 "- 1 :: int"] by (simp del: replicate_Suc)
  have z: "replicate 1024 zero_rio ! 0 = zero_rio" by (rule nth_replicate) simp
  show ?thesis
    by (simp add: pool_round_def pool_select_def pool_accept_def add_client_def check_clients_def check_loop_stop
        FD_SET_def FD_ISSET_def FD_SETSIZE_def accept_def sim_fd_kernel_def take_fd_def syscall_def quiet_def
        demo_pool_proc_def demo_pool_proc1_def demo_pool_def demo_pool1_def zero_pool_def r z insert_commute)
qed

lemma demo_pool_reachable:
  "pool_reachable sim_fd_kernel [''s'', ''80''] demo_pool_proc 3 (demo_pool1, demo_pool_proc1)"
  by (rule pool_reachable.Round [OF pool_reachable.Start [OF demo_pool_start] demo_pool_round])

theorem pool_invariant_witness:
  "pool_ok 3 demo_pool1 \<and> read_set demo_pool1 \<subseteq> {3, 5}"
  using pool_invariant [OF sim_fd.fd_kernel_axioms demo_pool_reachable]
  by (auto simp: sim_opened_def demo_pool_proc1_def)

text \<open>
  C20: a round leaves no ready client out.  The scan of the slots stops as soon as \<open>nready\<close>
  clients have been served and never goes past \<open>maxi\<close>, yet in every reachable state, when
  \<open>select\<close> has succeeded, the round does exactly what it would do if it looked at all
  \<open>FD_SETSIZE\<close> slots.
\<close>

theorem pool_round_serves_all:
  assumes "fd_kernel k opened" and "select_kernel k" and "pool_reachable k argv s0 listenfd (p, s)"
    and "syscall (k_select k (maxfd p + 1) (read_set p)) s = (Some (m, fds), s1)"
  shows "pool_round k listenfd (p, s)
    = run_bind (pool_accept k listenfd (pool_select k (p, s))) (scan k [0 ..< nat FD_SETSIZE])"
proof -
  from fd_kernel.reachable_inv [OF assms(1,3)] have ok: "pool_ok listenfd p" "read_set p \<subseteq> opened (world s)" by auto
  have "check_clients k c = scan k [0 ..< 1024] c"
    if "pool_accept k listenfd (pool_select k (p, s)) = Some (Ret c)" for c
    using check_loop_scan [OF fd_kernel.enough_ready [OF assms(1,2) ok assms(4)]] that
    unfolding check_clients_def by (cases c) auto
  then show ?thesis
    unfolding pool_round_def nat_FD_SETSIZE
    by (cases "(pool_accept k listenfd (pool_select k (p, s)), check_clients k)" rule: run_bind.cases) auto
qed

theorem pool_round_serves_all_witness:
  "pool_round sim_fd_kernel 3 (demo_pool1, demo_pool_proc1)
    = run_bind (pool_accept sim_fd_kernel 3 (pool_select sim_fd_kernel (demo_pool1, demo_pool_proc1)))
        (scan sim_fd_kernel [0 ..< nat FD_SETSIZE])"
proof -
  have "\<exists>s1. syscall (k_select sim_fd_kernel (maxfd demo_pool1 + 1) (read_set demo_pool1)) demo_pool_proc1 = (Some (1, {5}), s1)"
    by (simp add: sim_fd_kernel_def syscall_def demo_pool1_def demo_pool_proc1_def)
  then obtain s1 where "syscall (k_select sim_fd_kernel (maxfd demo_pool1 + 1) (read_set demo_pool1)) demo_pool_proc1
      = (Some (1, {5}), s1)" ..
  from pool_round_serves_all [OF sim_fd.fd_kernel_axioms sim_fd_select.select_kernel_axioms demo_pool_reachable this]
  show ?thesis .
qed

text \<open>
  C26: the pool never runs out of slots, so the complaint about too many clients is never
  printed: descriptors that \<open>select\<close> can handle are used up first.  A new client is put
  into a slot if its descriptor is below \<open>FD_SETSIZE\<close>; otherwise (and when \<open>accept\<close> has
  failed) \<open>FD_SET\<close> writes outside the set.
\<close>

theorem pool_never_full:
  assumes "fd_kernel k opened" and "pool_reachable k argv s0 listenfd (p, s)"
    and "accept k listenfd s1 = (fd, s2)" and "opened (world s) \<subseteq> opened (world s1)"
  shows "if 0 \<le> fd \<and> fd < FD_SETSIZE
    then \<exists>p'. add_client fd p = Some (Ret p') \<and> connected p' = insert fd (connected p) \<and> fd \<notin> connected p
    else add_client fd p = Some (Fault BufferOverflow)"
proof -
  from fd_kernel.reachable_inv [OF assms(1,2)] have ok: "pool_ok listenfd p" "read_set p \<subseteq> opened (world s)" by auto
  from find_slot_total [OF ok(1)] obtain i where i: "find_slot 0 (clientfd p) = Some i" by auto
  show ?thesis
  proof (cases "0 \<le> fd \<and> fd < FD_SETSIZE")
    case True
    with i obtain p' where c: "add_client fd p = Some (Ret p')" "read_set p' = insert fd (read_set p)"
      by (auto simp: add_client_def FD_SET_def Let_def)
    from fd_kernel.accept_fresh [OF assms(1,3)] assms(4) ok(2) True have fd: "fd \<notin> read_set p" by auto
    from pool_okD(3,4) [OF ok(1)] pool_okD(3,4) [OF add_client_ok(1) [OF ok(1) c(1) fd]] c(2) fd
    have "connected p' = insert fd (connected p)" "fd \<notin> connected p" by auto
    with True c(1) show ?thesis by auto
  next
    case False
    with i show ?thesis by (auto simp: add_client_def FD_SET_def Let_def)
  qed
qed

theorem pool_never_full_witness:
  "(\<exists>p'. add_client 9 demo_pool1 = Some (Ret p') \<and> connected p' = insert 9 (connected demo_pool1) \<and> 9 \<notin> connected demo_pool1)
    \<and> add_client 1024 demo_pool1 = Some (Fault BufferOverflow)"
proof -
  have a: "accept sim_fd_kernel 3 (demo_pool_proc1\<lparr>world := (world demo_pool_proc1)\<lparr>backlog := [(fd, SockIn 0 0)]\<rparr>\<rparr>)
      = (fd, demo_pool_proc1\<lparr>world := (world demo_pool_proc1)\<lparr>backlog := [], open_fds := [fd, 5, 3]\<rparr>\<rparr>)"
    if "5 < fd" for fd
    using that by (simp add: accept_def sim_fd_kernel_def syscall_def take_fd_def demo_pool_proc1_def)
  have o: "sim_opened (world demo_pool_proc1) \<subseteq> sim_opened
      (world (demo_pool_proc1\<lparr>world := (world demo_pool_proc1)\<lparr>backlog := [(fd, SockIn 0 0)]\<rparr>\<rparr>))" for fd
    by (simp add: sim_opened_def)
  show ?thesis
    using pool_never_full [OF sim_fd.fd_kernel_axioms demo_pool_reachable a o, of 9]
      pool_never_full [OF sim_fd.fd_kernel_axioms demo_pool_reachable a o, of 1024]
    by (simp add: FD_SETSIZE_def)
qed

text \<open>
  bytes that arrive together with a line are lost.  The reader's buffer is filled in a
  copy of the \<open>rio_t\<close> in the pool, and the copy is dropped after one line: if the \<open>read\<close>
  that delivers the line brings further bytes, these are neither echoed, nor kept in the
  pool, nor available from the stream any more.
\<close>

theorem pool_loses_read_ahead:
  assumes "steady_stream k incoming outgoing patience steady" and "pool_ok listenfd p" and "i < 1024"
    and "fd = clientfd p ! i" and "0 < fd" and "fd \<in> ready_set p" and "steady (world s)"
    and "sys_read k fd RIO_BUFSIZE s = (Some (line @ lost), s1)" and "text_line line"
    and "byte_cnt p + int (length line) < 2 ^ 31"
  shows "\<exists>p' s'. check_client k i (p, s) = Some (Ret (p', s'))
    \<and> outgoing fd (world s') = outgoing fd (world s) @ line
    \<and> incoming fd (world s) = line @ lost @ incoming fd (world s')
    \<and> rio_unread (clientrio p' ! i) = []"
proof -
  from slots_okD(5) [OF pool_okD(1) [OF assms(2)] assms(3)] assms(4,5)
  obtain rp where rp: "clientrio p ! i = rio_readinitb fd rp" by auto
  from assms(9) obtain body where l: "line = body @ [10]" "10 \<notin> set body" "length line < MAXLINE"
    by (auto simp: text_line_def)
  have "rio_cnt (rio_readinitb fd rp) \<le> 0" by (simp add: rio_readinitb_def)
  moreover have "MAXLINE \<le> INT_MAX" by (simp add: MAXLINE_def INT_MAX_def)
  ultimately
  have "\<exists>rp'. rio_readlineb k MAXLINE (rio_readinitb fd rp, s) = Some (Ret (int (length line), line @ [0], rp', s1))"
    using rio_readlineb_refill [of "rio_readinitb fd rp" k s "line @ lost" s1 body lost MAXLINE] assms(8) l by auto
  then obtain rp' where r: "rio_readlineb k MAXLINE (rio_readinitb fd rp, s) = Some (Ret (int (length line), line @ [0], rp', s1))"
    by blast
  have st: "steady (world s1)"
    using assms(7,8) steady_stream.steady_read [OF assms(1)] syscall_SomeD [OF assms(8)] by blast
  have sk: "stream_kernel k incoming outgoing patience" using assms(1) by (simp add: steady_stream_def)
  then have rk: "read_kernel k incoming patience" by (simp add: stream_kernel_def)
  have out: "outgoing fd (world s1) = outgoing fd (world s)"
    using stream_kernel.read_frame [OF sk] syscall_SomeD [OF assms(8)] by blast
  from steady_stream.writen_all [OF assms(1) st, of fd line] obtain s' where w:
      "rio_writen k fd line s1 = Some (int (length line), s')"
      "outgoing fd (world s') = outgoing fd (world s1) @ line" "incoming fd (world s') = incoming fd (world s1)"
    by metis
  have fd: "fd < FD_SETSIZE"
    using pool_okD(7) [OF assms(2) connected_nth [OF pool_okD(1) [OF assms(2)] assms(3)]] assms(4,5) by simp
  have n: "unat (of_int (int (length line)) :: 64 word) = length line" using l(3) by (intro unat_small) simp
  have "check_client k i (p, s) = Some (Ret (p\<lparr>nready := nready p - 1, byte_cnt := byte_cnt p + int (length line)\<rparr>, s'))"
    using assms(4-6,10) fd rp r w(1) n l(1,3) by (auto simp: check_client_def FD_ISSET_def Let_def)
  moreover have "incoming fd (world s) = (line @ lost) @ incoming fd (world s1)"
    by (rule read_kernel.sys_read_Some(2) [OF rk assms(8)])
  ultimately show ?thesis using w(2,3) out rp by auto
qed

theorem pool_loses_read_ahead_witness:
  "\<exists>p' s'. check_client sim_kernel 0 (demo_pool1\<lparr>ready_set := {5}\<rparr>, demo_pool_proc1) = Some (Ret (p', s'))
    \<and> sim_outgoing 5 (world s') = [104, 10] \<and> sim_incoming 5 (world s') = []
    \<and> rio_unread (clientrio p' ! 0) = []"
proof -
  have "fd_kernel sim_fd_kernel sim_opened" by (rule sim_fd.fd_kernel_axioms)
  from fd_kernel.reachable_inv [OF this demo_pool_reachable] have ok: "pool_ok 3 demo_pool1" by simp
  then have ok': "pool_ok 3 (demo_pool1\<lparr>ready_set := {5}\<rparr>)" by (rule pool_ok_same) simp_all
  have r: "sys_read sim_kernel 5 RIO_BUFSIZE demo_pool_proc1
      = (Some ([104, 10] @ [105, 10]), demo_pool_proc1\<lparr>world := (world demo_pool_proc1)\<lparr>inq :=
          (\<lambda>_. [104, 10, 105, 10])(5 := [])\<rparr>\<rparr>)"
    by (simp add: sim_defs demo_pool_proc1_def demo_pool_proc_def quiet_def RIO_BUFSIZE_def)
  have t: "text_line [104, 10]" by (simp add: text_line_def MAXLINE_def)
  have c: "5 = clientfd (demo_pool1\<lparr>ready_set := {5}\<rparr>) ! 0" by (simp add: demo_pool1_def)
  have st: "sim_steady (world demo_pool_proc1)"
    by (simp add: sim_steady_def demo_pool_proc1_def demo_pool_proc_def quiet_def)
  have b: "byte_cnt (demo_pool1\<lparr>ready_set := {5}\<rparr>) + int (length [104 :: byte, 10]) < 2 ^ 31"
    by (simp add: demo_pool1_def demo_pool_def zero_pool_def)
  from pool_loses_read_ahead [OF sim_steady_k.steady_stream_axioms ok' _ c _ _ st r t b]
  show ?thesis by (auto simp: sim_obs demo_pool_proc1_def demo_pool_proc_def quiet_def)
qed

end
