(* ===== verification/Shell.thy ===== *)
theory Shell
  imports Echo_Servers
begin

text \<open>
  The small shell (\<open>csapp/exceptional_control_flow/shellex.c\<close>): splitting a command line in
  place, the built-in commands, and running a command in the foreground or background.

  The command line is an array of bytes that \<open>parseline\<close> cuts into strings by overwriting
  spaces with zeros; the arguments are positions in that array, so the model keeps the
  array and reads an argument where the program does.  The lemmas show that the arguments
  are the words of the line, exactly when the argument vector overflows, and which
  process runs what.
\<close>

section \<open>Strings in an array\<close>

definition MAXARGS :: nat where "MAXARGS = 128"

abbreviation SPACE :: byte where "SPACE \<equiv> 32"
abbreviation AMPERSAND :: byte where "AMPERSAND \<equiv> 38"

text \<open>The C string that starts at position \<open>i\<close>.\<close>

definition str_at :: "byte list \<Rightarrow> nat \<Rightarrow> byte list" where
  "str_at buf i = takeWhile (\<lambda>b. b \<noteq> 0) (drop i buf)"

definition strchr :: "byte list \<Rightarrow> nat \<Rightarrow> byte \<Rightarrow> nat option" where
  "strchr buf i c =
     (if c \<in> set (str_at buf i) then Some (i + length (takeWhile (\<lambda>b. b \<noteq> c) (str_at buf i))) else None)"

text \<open>\<open>while (*buf && (*buf == ' ')) buf++\<close>\<close>

definition skip_spaces :: "byte list \<Rightarrow> nat \<Rightarrow> nat" where
  "skip_spaces buf i = i + length (takeWhile (\<lambda>b. b = SPACE) (drop i buf))"

section \<open>Parsing\<close>

lemma length_takeWhile_less: "x \<in> set xs \<Longrightarrow> \<not> P x \<Longrightarrow> length (takeWhile P xs) < length xs"
  by (induction xs) auto

lemma strchr_less: "strchr buf i c = Some d \<Longrightarrow> i \<le> d \<and> d < length buf"
proof -
  assume "strchr buf i c = Some d"
  then have c: "c \<in> set (str_at buf i)" and d: "d = i + length (takeWhile (\<lambda>b. b \<noteq> c) (str_at buf i))"
    by (auto simp: strchr_def split: if_splits)
  have "length (takeWhile (\<lambda>b. b \<noteq> c) (str_at buf i)) < length (str_at buf i)"
    using c by (rule length_takeWhile_less) simp
  also have "\<dots> \<le> length (drop i buf)" unfolding str_at_def by (rule length_takeWhile_le)
  finally show ?thesis using d by auto
qed

text \<open>The loop that builds the argument vector; \<open>argv\<close> are the entries stored so far.\<close>

function args_loop :: "byte list \<Rightarrow> nat \<Rightarrow> nat list \<Rightarrow> (byte list \<times> nat list) outcome" where
  "args_loop buf i argv = (case strchr buf i SPACE of
       None \<Rightarrow> Ret (buf, argv)
     | Some delim \<Rightarrow>
         if length argv < MAXARGS
         then let buf' = buf[delim := 0] in
           args_loop buf' (skip_spaces buf' (delim + 1)) (argv @ [i])
         else Fault BufferOverflow)"
  by pat_completeness auto
termination
  by (relation "measure (\<lambda>(buf, i, argv). length buf - i)")
    (auto simp: skip_spaces_def dest!: strchr_less)

declare args_loop.simps [simp del]

text \<open>
  The result is the value returned, the array and the argument vector up to its null
  pointer.  Replacing the last character of an empty string would store before the array.
\<close>

definition parseline :: "byte list \<Rightarrow> (bool \<times> byte list \<times> nat list) outcome" where
  "parseline buf =
     (if str_at buf 0 = [] then Fault BufferOverflow
      else let buf1 = buf[length (str_at buf 0) - 1 := SPACE] in
        case args_loop buf1 (skip_spaces buf1 0) [] of
          Exit n \<Rightarrow> Exit n
        | Fault e \<Rightarrow> Fault e
        | Ret (buf2, argv) \<Rightarrow>
            if length argv < MAXARGS
            then if argv = [] then Ret (True, buf2, [])
              else if buf2 ! last argv = AMPERSAND then Ret (True, buf2, butlast argv)
              else Ret (False, buf2, argv)
            else Fault BufferOverflow)"

section \<open>Running a command\<close>

text \<open>\<open>exit(0)\<close> for \<open>quit\<close>, otherwise whether the command was built in.\<close>

definition builtin_command :: "byte list list \<Rightarrow> bool outcome" where
  "builtin_command args =
     (if args ! 0 = chars ''quit'' then Exit 0
      else if args ! 0 = [AMPERSAND] then Ret True
      else Ret False)"

text \<open>
  What \<open>eval\<close> comes to in the process that runs it: back to the loop, or replaced by another
  program.  \<open>pid0\<close> is the content of the variable \<open>pid\<close> before it is assigned.  \<open>junk\<close> is
  what the array of \<open>MAXLINE\<close> bytes held before \<open>strcpy\<close>, which writes the line and its zero
  without a bound.  An error of \<open>waitpid\<close> ends the shell with status 0.
\<close>

datatype 'w fate = Returned "'w proc" | Executes "byte list" "byte list list"

definition run_job :: "'w kernel \<Rightarrow> byte list list \<Rightarrow> int \<Rightarrow> 'w proc \<Rightarrow> ('w fate + int \<times> 'w proc) outcome" where
  "run_job k args pid0 s = (case builtin_command args of
       Exit n \<Rightarrow> Exit n
     | Fault e \<Rightarrow> Fault e
     | Ret True \<Rightarrow> Ret (Inr (pid0, s))
     | Ret False \<Rightarrow>
         (let (pid, s1) = fork k s in
          if pid = 0
          then (case syscall (k_execve k (args ! 0) args) s1 of
              (Some _, s2) \<Rightarrow> Ret (Inl (Executes (args ! 0) args))
            | (None, s2) \<Rightarrow> Exit 0)
          else Ret (Inr (pid, s1))))"

definition eval :: "'w kernel \<Rightarrow> int \<Rightarrow> byte list \<Rightarrow> byte list \<Rightarrow> 'w proc \<Rightarrow> 'w fate outcome" where
  "eval k pid0 junk cmdline s =
     (let str = takeWhile (\<lambda>b. b \<noteq> 0) cmdline;
          buf = str @ 0 # drop (length str + 1) junk in
      if MAXLINE \<le> length str then Fault BufferOverflow
      else case parseline buf of
        Exit n \<Rightarrow> Exit n
      | Fault e \<Rightarrow> Fault e
      | Ret (bg, buf', argv) \<Rightarrow>
          if argv = [] then Ret (Returned s)
          else case run_job k (map (str_at buf') argv) pid0 s of
              Exit n \<Rightarrow> Exit n
            | Fault e \<Rightarrow> Fault e
            | Ret (Inl f) \<Rightarrow> Ret f
            | Ret (Inr (pid, s1)) \<Rightarrow>
                if \<not> bg
                then (case syscall (k_waitpid k pid False) s1 of
                    (None, s2) \<Rightarrow> Exit 0
                  | (Some _, s2) \<Rightarrow> Ret (Returned s2))
                else Ret (Returned s1))"

text \<open>
  One round of the loop of \<open>main\<close>.  When \<open>fgets\<close> stores nothing, the array keeps the line of
  the round before.
\<close>

definition shell_round :: "'w kernel \<Rightarrow> int \<Rightarrow> byte list \<Rightarrow> byte list \<times> 'w proc \<Rightarrow> (byte list \<times> 'w fate) outcome" where
  "shell_round k pid0 junk c =
     (let (cmdline, s) = c; (r, w) = k_fgets k MAXLINE (world s); s1 = s\<lparr>world := w\<rparr>;
          cmdline' = (case r of None \<Rightarrow> cmdline | Some line \<Rightarrow> line) in
      if k_feof k w then Exit 0
      else case eval k pid0 junk cmdline' s1 of
          Exit n \<Rightarrow> Exit n
        | Fault e \<Rightarrow> Fault e
        | Ret f \<Rightarrow> Ret (cmdline', f))"

text \<open>What \<open>fgets\<close> stores fits the array that \<open>eval\<close> copies it to.\<close>

context terminal_stream
begin

lemma fgets_fits:
  assumes "k_fgets k MAXLINE w = (Some line, w')"
  shows "length (takeWhile (\<lambda>b. b \<noteq> 0) line) < MAXLINE"
proof -
  have "1 < MAXLINE" by (simp add: MAXLINE_def)
  with fgets_line [OF assms] have "line = next_line (MAXLINE - 1) (typed w)" by (auto split: if_splits)
  then have "length line < MAXLINE"
    using length_next_line [of "MAXLINE - 1" "typed w"] \<open>1 < MAXLINE\<close> by simp
  then show ?thesis using length_takeWhile_le [of "\<lambda>b. b \<noteq> 0" line] by linarith
qed

end

text \<open>The loop, cut after \<open>n\<close> rounds; it ends in a process that has become another program.\<close>

primrec shell_main :: "nat \<Rightarrow> 'w kernel \<Rightarrow> int \<Rightarrow> byte list \<Rightarrow> byte list \<times> 'w proc \<Rightarrow> (byte list \<times> 'w fate) outcome" where
  "shell_main 0 k pid0 junk c = Ret (fst c, Returned (snd c))"
| "shell_main (Suc n) k pid0 junk c = (case shell_round k pid0 junk c of
       Exit m \<Rightarrow> Exit m
     | Fault e \<Rightarrow> Fault e
     | Ret (line, Executes path args) \<Rightarrow> Ret (line, Executes path args)
     | Ret (line, Returned s) \<Rightarrow> shell_main n k pid0 junk (line, s))"

section \<open>Reference\<close>

text \<open>The words of a text, separated by spaces.\<close>

function words :: "byte list \<Rightarrow> byte list list" where
  "words xs = (case dropWhile (\<lambda>b. b = SPACE) xs of
       [] \<Rightarrow> []
     | y # ys \<Rightarrow> takeWhile (\<lambda>b. b \<noteq> SPACE) (y # ys) # words (dropWhile (\<lambda>b. b \<noteq> SPACE) (y # ys)))"
  by pat_completeness auto
termination
proof (relation "measure length")
  fix xs y :: "byte list" and a ys
  assume "dropWhile (\<lambda>b. b = SPACE) xs = a # ys"
  then have "a \<noteq> SPACE" "length (a # ys) \<le> length xs"
    using hd_dropWhile [of "\<lambda>b. b = SPACE" xs] length_dropWhile_le [of "\<lambda>b. b = SPACE" xs] by auto
  then show "(dropWhile (\<lambda>b. b \<noteq> SPACE) (a # ys), xs) \<in> measure length"
    using length_dropWhile_le [of "\<lambda>b. b \<noteq> SPACE" ys] by simp
qed simp

declare words.simps [simp del]

lemma words_Nil [simp]: "words [] = []"
  by (simp add: words.simps)

lemma words_skip: "words (dropWhile (\<lambda>b. b = SPACE) xs) = words xs"
  by (subst (1 2) words.simps) (simp add: dropWhile_idem)

lemma words_Cons:
  assumes "w \<noteq> []" and "SPACE \<notin> set w"
  shows "words (w @ SPACE # xs) = w # words (dropWhile (\<lambda>b. b = SPACE) xs)"
proof -
  obtain c w' where w: "w = c # w'" "c \<noteq> SPACE" using assms by (cases w) auto
  have "takeWhile (\<lambda>b. b \<noteq> SPACE) (w @ SPACE # xs) = w" "dropWhile (\<lambda>b. b \<noteq> SPACE) (w @ SPACE # xs) = SPACE # xs"
    using assms(2) by (simp_all add: takeWhile_append dropWhile_append)
  moreover have "words (SPACE # xs) = words (dropWhile (\<lambda>b. b = SPACE) xs)"
    using words_skip [of "SPACE # xs"] by (simp add: words_skip)
  ultimately show ?thesis using w by (subst words.simps) simp
qed

text \<open>A space at the end separates nothing.\<close>

lemma words_nonempty: "w \<in> set (words xs) \<Longrightarrow> w \<noteq> [] \<and> SPACE \<notin> set w \<and> set w \<subseteq> set xs"
proof (induction xs rule: words.induct)
  case (1 xs)
  show ?case
  proof (cases "dropWhile (\<lambda>b. b = SPACE) xs")
    case Nil
    with 1(2) show ?thesis by (simp add: words.simps [of xs])
  next
    case (Cons y ys)
    have y: "y \<noteq> SPACE" using hd_dropWhile [of "\<lambda>b. b = SPACE" xs] Cons by auto
    have sub: "set (y # ys) \<subseteq> set xs" using set_dropWhileD [of _ "\<lambda>b. b = SPACE" xs] Cons by auto
    from 1(2) Cons consider "w = takeWhile (\<lambda>b. b \<noteq> SPACE) (y # ys)"
      | "w \<in> set (words (dropWhile (\<lambda>b. b \<noteq> SPACE) (y # ys)))"
      by (auto simp: words.simps [of xs])
    then show ?thesis
    proof cases
      case 1
      then show ?thesis using y sub by (auto dest: set_takeWhileD)
    next
      case 2
      from set_dropWhileD [of _ "\<lambda>b. b \<noteq> SPACE" "y # ys"] sub
      have "set (dropWhile (\<lambda>b. b \<noteq> SPACE) (y # ys)) \<subseteq> set xs" by blast
      with "1.IH" [OF Cons 2] show ?thesis by blast
    qed
  qed
qed

lemma words_snoc: "words (xs @ [SPACE]) = words xs"
proof (induction xs rule: words.induct)
  case (1 xs)
  show ?case
  proof (cases "dropWhile (\<lambda>b. b = SPACE) xs")
    case Nil
    then have "\<forall>x \<in> set xs. x = SPACE" by (simp add: dropWhile_eq_Nil_conv)
    then have "dropWhile (\<lambda>b. b = SPACE) (xs @ [SPACE]) = []" by (auto simp: dropWhile_eq_Nil_conv)
    with Nil have "words (xs @ [SPACE]) = []" "words xs = []"
      unfolding words.simps [of xs] words.simps [of "xs @ [SPACE]"] by (simp_all only: list.case)
    then show ?thesis by simp
  next
    case (Cons y ys)
    then obtain x where x: "x \<in> set xs" "x \<noteq> SPACE"
      using dropWhile_eq_Nil_conv [of "\<lambda>b. b = SPACE" xs] by auto
    have d: "dropWhile (\<lambda>b. b = SPACE) (xs @ [SPACE]) = y # ys @ [SPACE]"
      using Cons x by (simp add: dropWhile_append1)
    have t: "takeWhile (\<lambda>b. b \<noteq> SPACE) (zs @ [SPACE]) = takeWhile (\<lambda>b. b \<noteq> SPACE) zs" for zs
      by (induction zs) auto
    have dw: "dropWhile (\<lambda>b. b \<noteq> SPACE) (zs @ [SPACE]) = dropWhile (\<lambda>b. b \<noteq> SPACE) zs @ [SPACE]" for zs
      by (induction zs) auto
    from "1.IH" [OF Cons] show ?thesis
      by (subst (1 2) words.simps) (simp add: d Cons t [of "y # ys", simplified] dw [of "y # ys", simplified])
  qed
qed

lemma last_dropWhile: "dropWhile P xs \<noteq> [] \<Longrightarrow> last (dropWhile P xs) = last xs"
  by (induction xs) auto

lemma str_at_hd: "str_at buf i \<noteq> [] \<Longrightarrow> hd (str_at buf i) = buf ! i"
proof -
  assume a: "str_at buf i \<noteq> []"
  then have "i < length buf" by (cases "i < length buf") (simp_all add: str_at_def)
  then have "drop i buf = buf ! i # drop (Suc i) buf" by (rule Cons_nth_drop_Suc [symmetric])
  with a show ?thesis by (simp add: str_at_def split: if_splits)
qed

section \<open>The arguments are the words\<close>

lemma str_at_prefix: "0 \<notin> set w \<Longrightarrow> str_at (pre @ w @ 0 # post) (length pre) = w"
  by (auto simp: str_at_def takeWhile_append)

lemma strchr_prefix:
  assumes "0 \<notin> set (w @ c # ext)" and "c \<notin> set w"
  shows "strchr (pre @ (w @ c # ext) @ 0 # post) (length pre) c = Some (length pre + length w)"
proof -
  have "str_at (pre @ (w @ c # ext) @ 0 # post) (length pre) = w @ c # ext" using assms(1) by (rule str_at_prefix)
  moreover have "takeWhile (\<lambda>b. b \<noteq> c) (w @ c # ext) = w" using assms(2) by (auto simp: takeWhile_append)
  ultimately show ?thesis by (simp add: strchr_def)
qed

lemma skip_spaces_prefix:
  "skip_spaces (pre @ xs @ 0 # post) (length pre) = length (pre @ takeWhile (\<lambda>b. b = SPACE) xs)"
  by (auto simp: skip_spaces_def takeWhile_append takeWhile_eq_all_conv [THEN iffD2])

lemma args_loop_words:
  assumes "0 \<notin> set rest" and "rest = [] \<or> hd rest \<noteq> SPACE \<and> last rest = SPACE"
    and "length argv \<le> MAXARGS"
  shows "if length argv + length (words rest) \<le> MAXARGS
    then \<exists>offs post'. args_loop (pre @ rest @ 0 # post) (length pre) argv = Ret (pre @ post', argv @ offs)
      \<and> map (str_at (pre @ post')) offs = words rest
    else args_loop (pre @ rest @ 0 # post) (length pre) argv = Fault BufferOverflow"
  using assms
proof (induction "length rest" arbitrary: rest pre argv rule: less_induct)
  case less
  show ?case
  proof (cases "rest = []")
    case True
    have "strchr (pre @ [] @ 0 # post) (length pre) SPACE = None"
      using str_at_prefix [of "[]" pre post] by (simp add: strchr_def)
    with True less.prems(3) show ?thesis by (simp add: args_loop.simps)
  next
    case False
    define w where "w = takeWhile (\<lambda>b. b \<noteq> SPACE) rest"
    have "SPACE \<in> set rest" using False less.prems(2) by (metis last_in_set)
    then have "dropWhile (\<lambda>b. b \<noteq> SPACE) rest \<noteq> []" by (simp add: dropWhile_eq_Nil_conv)
    then obtain ext where d: "dropWhile (\<lambda>b. b \<noteq> SPACE) rest = SPACE # ext"
      using hd_dropWhile [of "\<lambda>b. b \<noteq> SPACE" rest] by (metis list.collapse)
    have rest: "rest = w @ SPACE # ext" unfolding w_def d [symmetric] by simp
    have w: "w \<noteq> []" "SPACE \<notin> set w" using less.prems(2) False
      by (auto simp: w_def takeWhile_eq_Nil_iff dest: set_takeWhileD)
    define sp where "sp = takeWhile (\<lambda>b. b = SPACE) ext"
    define rest' where "rest' = dropWhile (\<lambda>b. b = SPACE) ext"
    have ext: "ext = sp @ rest'" by (simp add: sp_def rest'_def)
    have z: "0 \<notin> set w" "0 \<notin> set rest'" using less.prems(1) rest ext by auto
    have r': "rest' = [] \<or> hd rest' \<noteq> SPACE \<and> last rest' = SPACE"
    proof (cases "rest' = []")
      case False
      then have "hd rest' \<noteq> SPACE" "last rest' = last ext" "ext \<noteq> []"
        using hd_dropWhile [of "\<lambda>b. b = SPACE" ext] last_dropWhile [of "\<lambda>b. b = SPACE" ext]
        unfolding rest'_def by auto
      moreover have "last rest = last ext" using \<open>ext \<noteq> []\<close> unfolding rest by simp
      ultimately show ?thesis using less.prems(2) \<open>rest \<noteq> []\<close> by simp
    qed simp
    have ws: "words rest = w # words rest'" unfolding rest rest'_def by (rule words_Cons [OF w])
    let ?pre = "pre @ w @ 0 # sp"
    have s1: "strchr (pre @ rest @ 0 # post) (length pre) SPACE = Some (length pre + length w)"
      unfolding rest by (rule strchr_prefix) (use less.prems(1) rest w(2) in auto)
    have e: "(pre @ w @ [0]) @ ext @ 0 # post = ?pre @ rest' @ 0 # post" by (simp add: ext)
    have upd: "(pre @ rest @ 0 # post)[length pre + length w := 0] = ?pre @ rest' @ 0 # post"
      unfolding e [symmetric] rest by (simp add: list_update_append)
    have sk: "skip_spaces (?pre @ rest' @ 0 # post) (length pre + length w + 1) = length ?pre"
      using skip_spaces_prefix [of "pre @ w @ [0]" ext post] unfolding e by (simp add: sp_def)
    have step: "args_loop (pre @ rest @ 0 # post) (length pre) argv =
        (if length argv < MAXARGS then args_loop (?pre @ rest' @ 0 # post) (length ?pre) (argv @ [length pre])
         else Fault BufferOverflow)"
      unfolding args_loop.simps [of "pre @ rest @ 0 # post"] s1 option.case Let_def upd sk by (rule refl)
    have "length rest' < length rest" unfolding rest ext by simp
    note IH = less.hyps [OF this z(2) r', of "argv @ [length pre]" ?pre]
    show ?thesis
    proof (cases "length argv + length (words rest) \<le> MAXARGS")
      case True
      with ws have lt: "length argv < MAXARGS" by simp
      with True IH ws obtain offs post' where I: "args_loop (?pre @ rest' @ 0 # post) (length ?pre) (argv @ [length pre])
          = Ret (?pre @ post', (argv @ [length pre]) @ offs)" "map (str_at (?pre @ post')) offs = words rest'"
        by auto
      have "str_at (?pre @ post') (length pre) = w" using str_at_prefix [OF z(1), of pre "sp @ post'"] by simp
      with I(2) ws have "map (str_at (pre @ w @ 0 # sp @ post')) (length pre # offs) = words rest" by simp
      moreover have "args_loop (pre @ rest @ 0 # post) (length pre) argv
          = Ret (pre @ (w @ 0 # sp @ post'), argv @ (length pre # offs))"
        using step lt I(1) by simp
      ultimately show ?thesis unfolding if_P [OF True] by blast
    next
      case False
      have "args_loop (pre @ rest @ 0 # post) (length pre) argv = Fault BufferOverflow"
      proof (cases "length argv < MAXARGS")
        case lt: True
        have "\<not> length (argv @ [length pre]) + length (words rest') \<le> MAXARGS" using False ws by simp
        with IH lt have "args_loop (?pre @ rest' @ 0 # post) (length ?pre) (argv @ [length pre]) = Fault BufferOverflow"
          by (simp only: if_False) simp
        with step lt show ?thesis by simp
      qed (use step in simp)
      with False show ?thesis by simp
    qed
  qed
qed

text \<open>A line as \<open>fgets\<close> stores it: the text, whose last byte is replaced by a space.\<close>

lemma parseline_line:
  assumes "0 \<notin> set (t @ [c])"
  shows "if length (words t) < MAXARGS
    then \<exists>buf' argv. map (str_at buf') argv =
          (if words t \<noteq> [] \<and> hd (last (words t)) = AMPERSAND then butlast (words t) else words t)
      \<and> parseline (t @ [c] @ 0 # post) = Ret (words t = [] \<or> hd (last (words t)) = AMPERSAND, buf', argv)
    else parseline (t @ [c] @ 0 # post) = Fault BufferOverflow"
proof -
  let ?l = "t @ [SPACE]"
  let ?sp = "takeWhile (\<lambda>b. b = SPACE) ?l" and ?rest = "dropWhile (\<lambda>b. b = SPACE) ?l"
  have s: "str_at (t @ [c] @ 0 # post) 0 = t @ [c]" using str_at_prefix [of "t @ [c]" "[]" post] assms by simp
  have u: "(t @ [c] @ 0 # post)[length (t @ [c]) - 1 := SPACE] = ?l @ 0 # post" by (simp add: list_update_append)
  have l: "?l @ 0 # post = ?sp @ ?rest @ 0 # post" by (metis append.assoc takeWhile_dropWhile_id)
  have sk: "skip_spaces (?l @ 0 # post) 0 = length ?sp" using skip_spaces_prefix [of "[]" ?l post] by simp
  have z: "0 \<notin> set ?rest" using assms set_dropWhileD [of 0 "\<lambda>b. b = SPACE" ?l] by auto
  have r: "?rest = [] \<or> hd ?rest \<noteq> SPACE \<and> last ?rest = SPACE"
    using hd_dropWhile [of "\<lambda>b. b = SPACE" ?l] by (cases "?rest = []") (auto simp: last_dropWhile)
  have ws: "words ?rest = words t" unfolding words_skip by (rule words_snoc)
  note A = args_loop_words [OF z r, of "[]" ?sp post, unfolded ws]
  have P: "parseline (t @ [c] @ 0 # post) = (case args_loop (?sp @ ?rest @ 0 # post) (length ?sp) [] of
          Exit n \<Rightarrow> Exit n
        | Fault e \<Rightarrow> Fault e
        | Ret (buf2, argv) \<Rightarrow>
            if length argv < MAXARGS
            then if argv = [] then Ret (True, buf2, [])
              else if buf2 ! last argv = AMPERSAND then Ret (True, buf2, butlast argv)
              else Ret (False, buf2, argv)
            else Fault BufferOverflow)"
    unfolding parseline_def s u Let_def sk unfolding l by simp
  show ?thesis
  proof (cases "length (words t) \<le> MAXARGS")
    case False
    with A P show ?thesis by simp
  next
    case True
    with A obtain offs post' where I: "args_loop (?sp @ ?rest @ 0 # post) (length ?sp) [] = Ret (?sp @ post', offs)"
        "map (str_at (?sp @ post')) offs = words t" by auto
    have len: "length offs = length (words t)" using I(2) by (metis length_map)
    have nth: "(?sp @ post') ! last offs = hd (last (words t))" if "words t \<noteq> []"
    proof -
      from that have "offs \<noteq> []" using len by auto
      then have "last (words t) = str_at (?sp @ post') (last offs)" using I(2) by (metis last_map)
      moreover have "last (words t) \<noteq> []" using words_nonempty [of "last (words t)" t] that by simp
      ultimately show ?thesis by (auto simp: str_at_hd)
    qed
    have "map (str_at (?sp @ post')) (butlast offs) = butlast (words t)" using I(2) by (metis map_butlast)
    with I len nth P True show ?thesis
      by (cases "words t = []") (auto intro!: exI [of _ "?sp @ post'"])
  qed
qed

lemma eval_parse:
  assumes "0 \<notin> set t" and "length (words t) < MAXARGS" and "length t + 1 < MAXLINE"
    and "bg = (words t = [] \<or> hd (last (words t)) = AMPERSAND)"
    and "args = (if words t \<noteq> [] \<and> hd (last (words t)) = AMPERSAND then butlast (words t) else words t)"
  shows "eval k pid0 junk (t @ [10]) s =
    (if args = [] then Ret (Returned s)
     else case run_job k args pid0 s of
         Exit n \<Rightarrow> Exit n
       | Fault e \<Rightarrow> Fault e
       | Ret (Inl f) \<Rightarrow> Ret f
       | Ret (Inr (pid, s1)) \<Rightarrow>
           if \<not> bg
           then (case syscall (k_waitpid k pid False) s1 of
               (None, s2) \<Rightarrow> Exit 0
             | (Some _, s2) \<Rightarrow> Ret (Returned s2))
           else Ret (Returned s1))"
proof -
  have z: "0 \<notin> set (t @ [10])" using assms(1) by simp
  have s: "takeWhile (\<lambda>b. b \<noteq> 0) (t @ [10]) = t @ [10]" using z by (auto simp: takeWhile_eq_all_conv)
  from parseline_line [OF z, of "drop (length (t @ [10]) + 1) junk", unfolded if_P [OF assms(2)], folded assms(4,5)]
  obtain buf' argv where P: "parseline (t @ [10] @ 0 # drop (length (t @ [10]) + 1) junk) = Ret (bg, buf', argv)"
    and a: "map (str_at buf') argv = args" by blast
  from a have e: "argv = [] \<longleftrightarrow> args = []" by auto
  have n: "\<not> MAXLINE \<le> length (t @ [10])" using assms(3) by simp
  show ?thesis unfolding eval_def Let_def s if_not_P [OF n] append.assoc P by (simp add: a e)
qed

section \<open>Properties\<close>

text \<open>
  C21: \<open>parseline\<close> splits a line into its words.  For a line of any length whose last byte (the
  newline) is dropped, the argument vector holds exactly the words of the line in order,
  read from the array the function has cut up; a last word that begins with an ampersand
  is taken off and makes the job a background job, and a blank line counts as one too.
  The vector overflows exactly when the line has \<open>MAXARGS\<close> words or more, for nothing
  checks their number.
\<close>

theorem parseline_words:
  assumes "0 \<notin> set (t @ [c])"
  shows "if length (words t) < MAXARGS
    then \<exists>buf' argv. parseline (t @ [c] @ 0 # post) = Ret (words t = [] \<or> hd (last (words t)) = AMPERSAND, buf', argv)
      \<and> map (str_at buf') argv =
          (if words t \<noteq> [] \<and> hd (last (words t)) = AMPERSAND then butlast (words t) else words t)
    else parseline (t @ [c] @ 0 # post) = Fault BufferOverflow"
  using parseline_line [OF assms, of post] by (auto split: if_splits)

theorem parseline_words_witness:
  "\<exists>buf' argv. parseline ([108, 115, 32, 32, 45, 108, 32, 38] @ [10] @ 0 # []) = Ret (True, buf', argv)
    \<and> map (str_at buf') argv = [[108, 115], [45, 108]]"
proof -
  have w: "words [108, 115, 32, 32, 45, 108, 32, 38] = [[108, 115], [45, 108], [38]]"
    by (simp add: words.simps)
  show ?thesis
    using parseline_words [of "[108, 115, 32, 32, 45, 108, 32, 38]" 10 "[]"] unfolding w by (simp add: MAXARGS_def)
qed

text \<open>
  C24: what \<open>eval\<close> does with a command.  A line that does not fit the array with its zero
  overflows it in \<open>strcpy\<close>.  Otherwise, if the first word is not built in, the child executes
  the first word with exactly the words as its arguments, and exits if that fails; the
  shell returns at once for a background job, and otherwise only after waiting for this
  child.  An error of that wait ends the shell.
\<close>

theorem eval_runs_command:
  assumes "0 \<notin> set t" and "length (words t) < MAXARGS" and "words t \<noteq> []"
    and "bg = (hd (last (words t)) = AMPERSAND)" and "args = (if bg then butlast (words t) else words t)"
    and "args = cmd # rest" and "cmd \<noteq> chars ''quit''" and "cmd \<noteq> [AMPERSAND]" and "fork k s = (pid, s1)"
  shows "eval k pid0 junk (t @ [10]) s =
    (if MAXLINE \<le> length t + 1 then Fault BufferOverflow
     else if pid = 0
     then if \<exists>u s2. syscall (k_execve k cmd args) s1 = (Some u, s2) then Ret (Executes cmd args) else Exit 0
     else if bg then Ret (Returned s1)
     else case syscall (k_waitpid k pid False) s1 of
         (None, s2) \<Rightarrow> Exit 0
       | (Some _, s2) \<Rightarrow> Ret (Returned s2))"
proof (cases "MAXLINE \<le> length t + 1")
  case True
  have "takeWhile (\<lambda>b. b \<noteq> 0) (t @ [10]) = t @ [10]" using assms(1) by (auto simp: takeWhile_eq_all_conv)
  with True show ?thesis by (simp add: eval_def)
next
  case False
  then have n: "length t + 1 < MAXLINE" by simp
  have "run_job k args pid0 s = (if pid = 0
      then if \<exists>u s2. syscall (k_execve k cmd args) s1 = (Some u, s2) then Ret (Inl (Executes cmd args)) else Exit 0
      else Ret (Inr (pid, s1)))"
    using assms(6-9) by (auto simp: run_job_def builtin_command_def split: option.splits prod.splits)
  with eval_parse [OF assms(1,2) n refl refl, of k pid0 junk s] assms(3-6) False show ?thesis
    by (auto split: option.splits prod.splits)
qed

theorem eval_runs_command_witness:
  "eval sim_kernel 0 [] (chars ''/bin/date &'' @ [10]) \<lparr>errno = EINTR, world = quiet\<lparr>pids := [0]\<rparr>\<rparr>
    = Ret (Executes (chars ''/bin/date'') [chars ''/bin/date''])"
proof -
  have w: "words (chars ''/bin/date &'') = [chars ''/bin/date'', [AMPERSAND]]"
    by (simp add: words.simps)
  have f: "fork sim_kernel \<lparr>errno = EINTR, world = quiet\<lparr>pids := [0]\<rparr>\<rparr> = (0, \<lparr>errno = EINTR, world = quiet\<rparr>)"
    by (simp add: fork_def syscall_def quiet_def)
  have "\<exists>u s2. syscall (k_execve sim_kernel (chars ''/bin/date'') [chars ''/bin/date'']) \<lparr>errno = EINTR, world = quiet\<rparr> = (Some u, s2)"
    by (simp add: syscall_def)
  with eval_runs_command [of "chars ''/bin/date &''" True "[chars ''/bin/date'']" "chars ''/bin/date''" "[]", OF _ _ _ _ _ _ _ _ f]
  show ?thesis unfolding w by (simp add: MAXARGS_def MAXLINE_def)
qed

text \<open>
  a line that begins with a lone ampersand and has further words is taken for a built-in
  command: none of it is executed, and the shell waits for the process whose number
  happens to be in the uninitialised variable \<open>pid\<close>, or ends if there is none.
\<close>

theorem eval_stray_ampersand:
  assumes "0 \<notin> set t" and "length (words t) < MAXARGS" and "words t = [AMPERSAND] # w # ws" and "length t + 1 < MAXLINE"
    and "hd (last (w # ws)) \<noteq> AMPERSAND"
  shows "eval k pid0 junk (t @ [10]) s = (case syscall (k_waitpid k pid0 False) s of
      (None, s2) \<Rightarrow> Exit 0
    | (Some _, s2) \<Rightarrow> Ret (Returned s2))"
  using eval_parse [OF assms(1,2,4) refl refl, of k pid0 junk s] assms(3,5)
  by (simp add: run_job_def builtin_command_def)

theorem eval_stray_ampersand_witness:
  "eval sim_kernel 77 [] ([38, 32, 108, 115] @ [10]) \<lparr>errno = EINTR, world = quiet\<rparr> = Exit 0"
proof -
  have w: "words [38, 32, 108, 115] = [[AMPERSAND], [108, 115]]" by (simp add: words.simps)
  show ?thesis
    using eval_stray_ampersand [of "[38, 32, 108, 115]" "[108, 115]" "[]" sim_kernel 77 "[]" "\<lparr>errno = EINTR, world = quiet\<rparr>"]
    unfolding w by (simp add: MAXARGS_def MAXLINE_def syscall_def sim_waitpid_def quiet_def)
qed

end
