(* ===== verification/Signals.thy ===== *)
theory Signals
  imports Echo_Servers
begin

text \<open>
  The programs of \<open>csapp/exceptional_control_flow\<close> in which a handler of \<open>SIGCHLD\<close> runs at
  arbitrary moments: \<open>signal1.c\<close> to \<open>signal4.c\<close> (reaping children), \<open>procmask1.c\<close> and
  \<open>procmask2.c\<close> (keeping a list of jobs), and the sequential \<open>waitpid1.cc\<close>.

  The asynchronous programs are step relations.  A signal is pending or not, and not
  counted; while its handler runs it is not delivered again; the main program does not run
  while the handler does.  Children end at any time.  The lemmas show that the handler
  that loops leaves no ended child behind, that the one that does not loop can, that
  \<open>procmask1.c\<close> can list a job forever, and what the list of \<open>procmask2.c\<close> holds.
\<close>

section \<open>Reaping: the machine\<close>

text \<open>
  Where the handler is: not running, about to call \<open>waitpid\<close>, or returned from it with a
  value that it has not yet tested.
\<close>

datatype handler_pc = Idle | AtWait | Waited int

record reaper =
  alive :: "int set"
  dead :: "int set"
  pending :: bool
  hpc :: handler_pc
  r_errno :: errno
  to_fork :: nat
  stopped :: "errno option"

text \<open>
  The environment and the main program: a child ends, which makes the signal pending; the
  signal is delivered; the next of the children is created (its number is new), or
  \<open>fork\<close> fails, which the programs do not notice.
\<close>

inductive main_step :: "reaper \<Rightarrow> reaper \<Rightarrow> bool" where
  child_exit: "p \<in> alive r \<Longrightarrow>
    main_step r (r\<lparr>alive := alive r - {p}, dead := insert p (dead r), pending := True\<rparr>)"
| deliver: "pending r \<Longrightarrow> hpc r = Idle \<Longrightarrow> stopped r = None \<Longrightarrow>
    main_step r (r\<lparr>pending := False, hpc := AtWait\<rparr>)"
| create: "hpc r = Idle \<Longrightarrow> stopped r = None \<Longrightarrow> to_fork r = Suc n \<Longrightarrow> 0 < p \<Longrightarrow> p \<notin> alive r \<union> dead r \<Longrightarrow>
    main_step r (r\<lparr>alive := insert p (alive r), to_fork := n\<rparr>)"
| create_failed: "hpc r = Idle \<Longrightarrow> stopped r = None \<Longrightarrow> to_fork r = Suc n \<Longrightarrow> main_step r (r\<lparr>to_fork := n\<rparr>)"

text \<open>
  The kernel's side of \<open>waitpid(-1, _, _)\<close>, with the value it returns: it reaps a child that
  has ended; with \<open>WNOHANG\<close> it returns 0 if there are children but none has ended; it fails
  with \<open>ECHILD\<close> if there is no child, and, unless \<open>WNOHANG\<close> is given, may fail with \<open>EINTR\<close>.
  Without \<open>WNOHANG\<close> and with no child that has ended it sleeps.
\<close>

inductive waitpid_any :: "bool \<Rightarrow> reaper \<Rightarrow> int \<Rightarrow> reaper \<Rightarrow> bool" for nohang where
  any_child: "p \<in> dead r \<Longrightarrow> waitpid_any nohang r p (r\<lparr>dead := dead r - {p}\<rparr>)"
| any_none: "nohang \<Longrightarrow> dead r = {} \<Longrightarrow> alive r \<noteq> {} \<Longrightarrow> waitpid_any nohang r 0 r"
| any_echild: "alive r = {} \<Longrightarrow> dead r = {} \<Longrightarrow> waitpid_any nohang r (- 1) (r\<lparr>r_errno := ECHILD\<rparr>)"
| any_eintr: "\<not> nohang \<Longrightarrow> waitpid_any nohang r (- 1) (r\<lparr>r_errno := EINTR\<rparr>)"

text \<open>\<open>handler1\<close> of \<open>signal1.c\<close>: one \<open>waitpid\<close>; any error ends the program.\<close>

inductive handler1 :: "reaper \<Rightarrow> reaper \<Rightarrow> bool" where
  call1: "hpc r = AtWait \<Longrightarrow> stopped r = None \<Longrightarrow> waitpid_any False r pid r' \<Longrightarrow> handler1 r (r'\<lparr>hpc := Waited pid\<rparr>)"
| error1: "hpc r = Waited pid \<Longrightarrow> stopped r = None \<Longrightarrow> pid < 0 \<Longrightarrow> handler1 r (r\<lparr>stopped := Some (r_errno r)\<rparr>)"
| return1: "hpc r = Waited pid \<Longrightarrow> stopped r = None \<Longrightarrow> \<not> pid < 0 \<Longrightarrow> handler1 r (r\<lparr>hpc := Idle\<rparr>)"

text \<open>
  \<open>handler2\<close> of \<open>signal2.c\<close>, \<open>signal3.c\<close> and \<open>signal4.c\<close>: \<open>waitpid\<close> again as long as it returns
  the number of a child; after that any error but \<open>ECHILD\<close> ends the program.
\<close>

inductive handler2 :: "reaper \<Rightarrow> reaper \<Rightarrow> bool" where
  call2: "hpc r = AtWait \<Longrightarrow> stopped r = None \<Longrightarrow> waitpid_any False r pid r' \<Longrightarrow> handler2 r (r'\<lparr>hpc := Waited pid\<rparr>)"
| again2: "hpc r = Waited pid \<Longrightarrow> stopped r = None \<Longrightarrow> 0 < pid \<Longrightarrow> handler2 r (r\<lparr>hpc := AtWait\<rparr>)"
| error2: "hpc r = Waited pid \<Longrightarrow> stopped r = None \<Longrightarrow> \<not> 0 < pid \<Longrightarrow> r_errno r \<noteq> ECHILD \<Longrightarrow>
    handler2 r (r\<lparr>stopped := Some (r_errno r)\<rparr>)"
| return2: "hpc r = Waited pid \<Longrightarrow> stopped r = None \<Longrightarrow> \<not> 0 < pid \<Longrightarrow> r_errno r = ECHILD \<Longrightarrow>
    handler2 r (r\<lparr>hpc := Idle\<rparr>)"

text \<open>
  \<open>sigchld_handler\<close> of the forking echo server, here as a machine that the main program and
  the children interleave with: \<open>waitpid\<close> with \<open>WNOHANG\<close>, again as long as it returns the
  number of a child; errors are not looked at.
\<close>

inductive handler_nohang :: "reaper \<Rightarrow> reaper \<Rightarrow> bool" where
  call_nohang: "hpc r = AtWait \<Longrightarrow> stopped r = None \<Longrightarrow> waitpid_any True r pid r' \<Longrightarrow>
    handler_nohang r (r'\<lparr>hpc := Waited pid\<rparr>)"
| again_nohang: "hpc r = Waited pid \<Longrightarrow> stopped r = None \<Longrightarrow> 0 < pid \<Longrightarrow> handler_nohang r (r\<lparr>hpc := AtWait\<rparr>)"
| return_nohang: "hpc r = Waited pid \<Longrightarrow> stopped r = None \<Longrightarrow> \<not> 0 < pid \<Longrightarrow> handler_nohang r (r\<lparr>hpc := Idle\<rparr>)"

definition reaper_init :: "nat \<Rightarrow> reaper" where
  "reaper_init n = \<lparr>alive = {}, dead = {}, pending = False, hpc = Idle, r_errno = EOTHER 0, to_fork = n, stopped = None\<rparr>"

abbreviation reaches :: "(reaper \<Rightarrow> reaper \<Rightarrow> bool) \<Rightarrow> reaper \<Rightarrow> reaper \<Rightarrow> bool" where
  "reaches h \<equiv> (\<lambda>r r'. main_step r r' \<or> h r r')\<^sup>*\<^sup>*"

inductive_cases main_stepE: "main_step r r'"
inductive_cases waitpid_anyE: "waitpid_any nohang r pid r'"
inductive_cases handler1E: "handler1 r r'"
inductive_cases handler2E: "handler2 r r'"
inductive_cases handler_nohangE: "handler_nohang r r'"

section \<open>Handlers that reap\<close>

text \<open>
  What a handler must provide: it runs only in a program that has not ended, does not touch
  the children but by reaping, and comes to a point from which it does not call \<open>waitpid\<close>
  again (\<open>again\<close>, which depends on its position and on \<open>errno\<close>) only if no child had ended or
  a signal is pending.
\<close>

locale reaping_handler =
  fixes h :: "reaper \<Rightarrow> reaper \<Rightarrow> bool"
    and again :: "reaper \<Rightarrow> bool"
  assumes again_pc: "hpc r' = hpc r \<Longrightarrow> r_errno r' = r_errno r \<Longrightarrow> again r' = again r"
    and again_start: "hpc r = AtWait \<Longrightarrow> again r"
    and again_idle: "hpc r = Idle \<Longrightarrow> \<not> again r"
    and keeps: "h r r' \<Longrightarrow> stopped r = None \<and> alive r' = alive r \<and> dead r' \<subseteq> dead r"
    and settles: "h r r' \<Longrightarrow> \<forall>p \<in> dead r. 0 < p \<Longrightarrow> dead r \<noteq> {} \<longrightarrow> pending r \<or> again r \<Longrightarrow>
      stopped r' = None \<Longrightarrow> dead r' \<noteq> {} \<Longrightarrow> pending r' \<or> again r'"
begin

lemma no_lost_child:
  assumes "reaches h (reaper_init n) r"
  shows "(\<forall>p \<in> alive r \<union> dead r. 0 < p) \<and> (stopped r = None \<longrightarrow> dead r \<noteq> {} \<longrightarrow> pending r \<or> again r)"
  using assms
proof (induction rule: rtranclp_induct)
  case base
  then show ?case by (simp add: reaper_init_def)
next
  case (step r r')
  from step(2) show ?case
  proof
    assume "main_step r r'"
    then show ?thesis
    proof (cases rule: main_step.cases)
      case deliver
      then have "again r'" by (intro again_start) simp
      with deliver step(3) show ?thesis by auto
    qed (use step(3) again_pc [of r' r] in auto)
  next
    assume s: "h r r'"
    from keeps [OF s] settles [OF s] step(3) show ?thesis by blast
  qed
qed

lemma nothing_left:
  assumes "reaches h (reaper_init n) r" and "stopped r = None" and "\<not> pending r" and "hpc r = Idle"
  shows "dead r = {}"
  using no_lost_child [OF assms(1)] again_idle [OF assms(4)] assms(2,3) by blast

end

interpretation h2: reaping_handler handler2
  "\<lambda>r. hpc r = AtWait \<or> (\<exists>pid. hpc r = Waited pid \<and> (0 < pid \<or> r_errno r \<noteq> ECHILD))"
  by unfold_locales (auto elim!: handler2E waitpid_anyE)

interpretation hn: reaping_handler handler_nohang
  "\<lambda>r. hpc r = AtWait \<or> (\<exists>pid. hpc r = Waited pid \<and> 0 < pid)"
  by unfold_locales (auto elim!: handler_nohangE waitpid_anyE)

section \<open>The main programs\<close>

text \<open>
  Reading the terminal in \<open>signal1.c\<close>, \<open>signal2.c\<close> and \<open>signal4.c\<close>: any error, also an
  interruption by the handler, ends the program.
\<close>

definition MAXBUF :: nat where "MAXBUF = 8192"

definition signal_read :: "'w kernel \<Rightarrow> 'w proc \<Rightarrow> (byte list \<times> 'w proc) outcome" where
  "signal_read k s = (case sys_read k STDIN_FILENO MAXBUF s of
     (None, s1) \<Rightarrow> Exit 0
   | (Some bs, s1) \<Rightarrow> Ret (bs, s1))"

text \<open>In \<open>signal3.c\<close> an interrupted read is started again.\<close>

partial_function (option) signal3_read :: "'w kernel \<Rightarrow> 'w proc \<Rightarrow> (byte list \<times> 'w proc) run" where
  "signal3_read k s = (case sys_read k STDIN_FILENO MAXBUF s of
     (None, s1) \<Rightarrow> if errno s1 \<noteq> EINTR then Some (Exit 0) else signal3_read k s1
   | (Some bs, s1) \<Rightarrow> Some (Ret (bs, s1)))"

text \<open>
  The wrapper of \<open>signal4.c\<close>: an action with an empty mask that restarts interrupted calls;
  the handler installed before is the result.
\<close>

record 'h sigaction_t =
  sa_handler :: 'h
  sa_mask :: "int set"
  sa_flags :: u32

definition SA_RESTART :: u32 where "SA_RESTART = 0x10000000"

definition Signal :: "(int \<Rightarrow> 'h sigaction_t \<Rightarrow> 'w \<Rightarrow> 'h sigaction_t sysres \<times> 'w) \<Rightarrow> int \<Rightarrow> 'h \<Rightarrow> 'w proc
    \<Rightarrow> ('h \<times> 'w proc) outcome" where
  "Signal sigaction signum handler s =
     (let action = \<lparr>sa_handler = handler, sa_mask = {}, sa_flags = SA_RESTART\<rparr> in
      case syscall (sigaction signum action) s of
        (None, s1) \<Rightarrow> Exit 0
      | (Some old_action, s1) \<Rightarrow> Ret (sa_handler old_action, s1))"

text \<open>
  \<open>waitpid1.cc\<close>: child number \<open>i\<close> exits with status \<open>100 + i\<close>; the parent reaps until an error
  and then exits.  The model returns the numbers of the children reported.
\<close>

definition WAITPID1_N :: nat where "WAITPID1_N = 10"

fun create_children :: "nat list \<Rightarrow> 'w kernel \<Rightarrow> 'w proc \<Rightarrow> 'w proc outcome" where
  "create_children [] k s = Ret s"
| "create_children (i # is) k s =
     (let (pid, s1) = fork k s in
      if pid = 0 then Exit (100 + int i) else create_children is k s1)"

partial_function (option) reap_loop :: "'w kernel \<Rightarrow> int list \<Rightarrow> 'w proc \<Rightarrow> (int list \<times> 'w proc) option" where
  "reap_loop k got s = (case syscall (k_waitpid k (- 1) False) s of
     (None, s1) \<Rightarrow> Some (got, s1)
   | (Some pid, s1) \<Rightarrow> if 0 < pid then reap_loop k (got @ [pid]) s1 else Some (got, s1))"

definition waitpid1_main :: "'w kernel \<Rightarrow> 'w proc \<Rightarrow> (int list \<times> 'w proc) run" where
  "waitpid1_main k s = (case create_children [0 ..< WAITPID1_N] k s of
     Exit n \<Rightarrow> Some (Exit n)
   | Fault e \<Rightarrow> Some (Fault e)
   | Ret s1 \<Rightarrow> (case reap_loop k [] s1 of None \<Rightarrow> None | Some c \<Rightarrow> Some (Ret c)))"

context wait_kernel
begin

lemma reap_loop_spec:
  "\<exists>new s'. reap_loop k got s = Some (got @ new, s') \<and> distinct new
    \<and> children (world s) = set new \<union> children (world s') \<and> set new \<inter> children (world s') = {}
    \<and> (errno s' = ECHILD \<and> children (world s') = {} \<or> errno s' = EINTR)"
proof (induction "card (children (world s))" arbitrary: got s rule: less_induct)
  case less
  obtain r s1 where c: "syscall (k_waitpid k (- 1) False) s = (r, s1)" by fastforce
  show ?case
  proof (cases r)
    case None
    from wait_Fail [OF syscall_NoneD [OF c [unfolded None]]] c None show ?thesis
      by (subst reap_loop.simps) auto
  next
    case (Some p)
    from syscall_SomeD [OF c [unfolded Some]] have w: "k_waitpid k (- 1) False (world s) = (Ok p, world s1)" ..
    then have "p \<noteq> 0" using wait_none by blast
    from wait_reaps [OF w this] have R: "0 < p" "p \<in> children (world s)" "children (world s1) = children (world s) - {p}"
      by simp_all
    have "card (children (world s1)) < card (children (world s))"
      unfolding R(3) by (rule card_Diff1_less [OF finite_children R(2)])
    from less.hyps [OF this, of "got @ [p]"] obtain new s' where IH:
        "reap_loop k (got @ [p]) s1 = Some ((got @ [p]) @ new, s')" "distinct new"
        "children (world s1) = set new \<union> children (world s')" "set new \<inter> children (world s') = {}"
        "errno s' = ECHILD \<and> children (world s') = {} \<or> errno s' = EINTR" by blast
    have "reap_loop k got s = Some (got @ (p # new), s')"
      using c Some R(1) IH(1) by (subst reap_loop.simps) simp
    moreover have "p \<notin> set new \<union> children (world s')" "children (world s) = insert p (children (world s1))"
      using R IH(3) by auto
    ultimately show ?thesis using IH by (intro exI [of _ "p # new"] exI [of _ s']) auto
  qed
qed

end

context read_kernel
begin

lemma signal3_read_spec:
  "\<exists>bs s'. signal3_read k s = Some (Exit 0)
    \<or> signal3_read k s = Some (Ret (bs, s')) \<and> incoming STDIN_FILENO (world s) = bs @ incoming STDIN_FILENO (world s')"
proof (induction "patience (world s)" arbitrary: s rule: less_induct)
  case less
  obtain r s1 where c: "sys_read k STDIN_FILENO MAXBUF s = (r, s1)" by fastforce
  show ?case
  proof (cases r)
    case None
    note N = sys_read_None [OF c [unfolded None]]
    show ?thesis
    proof (cases "errno s1 = EINTR")
      case True
      then have "signal3_read k s = signal3_read k s1" using c None by (subst signal3_read.simps) simp
      with less.hyps [of s1] N True show ?thesis by simp
    next
      case False
      with c None show ?thesis by (subst signal3_read.simps) simp
    qed
  next
    case (Some bs)
    with c sys_read_Some(2) [of STDIN_FILENO MAXBUF s bs s1] show ?thesis by (subst (1 2) signal3_read.simps) auto
  qed
qed

end

section \<open>The handler that does not loop\<close>

text \<open>
  Every activation finds a child to reap, so its \<open>waitpid\<close> does not fail for want of a child;
  only an interruption can end the program.
\<close>

lemma handler1_sound:
  assumes "reaches handler1 (reaper_init n) r"
  shows "finite (alive r) \<and> finite (dead r) \<and> alive r \<inter> dead r = {} \<and> (stopped r = None \<or> stopped r = Some EINTR)
    \<and> of_bool (pending r) + of_bool (hpc r = AtWait) \<le> card (dead r)
    \<and> (\<forall>pid. hpc r = Waited pid \<longrightarrow> pid < 0 \<longrightarrow> r_errno r = EINTR) \<and> (\<forall>p \<in> alive r \<union> dead r. 0 < p)"
  using assms
proof (induction rule: rtranclp_induct)
  case base
  then show ?case by (simp add: reaper_init_def)
next
  case (step r r')
  from step(2) show ?case
  proof
    assume "main_step r r'"
    then show ?thesis
    proof (cases rule: main_step.cases)
      case (child_exit p)
      with step(3) have n: "p \<notin> dead r" by auto
      with child_exit step(3) have "card (dead r') = Suc (card (dead r))" by simp
      with child_exit step(3) show ?thesis by (auto simp: of_bool_def split: if_splits)
    qed (use step(3) in \<open>auto split: if_splits\<close>)
  next
    assume "handler1 r r'"
    then show ?thesis
    proof (cases rule: handler1.cases)
      case (call1 pid t)
      from call1(4) show ?thesis
      proof (cases rule: waitpid_any.cases)
        case any_child
        with call1 step(3) have "Suc (card (dead r')) = card (dead r)" by (simp add: card_Suc_Diff1)
        moreover have "0 < pid" using any_child(2) step(3) by blast
        then have "\<not> pid < 0" by simp
        ultimately show ?thesis using any_child call1 step(3) by (auto split: if_splits)
      qed (use call1 step(3) in auto)
    qed (use step(3) in auto)
  qed
qed

lemma handler1_run: "reaches handler1 (reaper_init 3) ((reaper_init 0)\<lparr>dead := {3}\<rparr>)"
proof -
  let ?r = "\<lambda>a d p h n. \<lparr>alive = a, dead = d, pending = p, hpc = h, r_errno = EOTHER 0, to_fork = n, stopped = None\<rparr>"
  let ?S = "\<lambda>r r'. main_step r r' \<or> handler1 r r'"
  have s1: "?S (?r {} {} False Idle 3) (?r {1} {} False Idle 2)"
    using create [of "?r {} {} False Idle 3" 2 1] by simp
  have s2: "?S (?r {1} {} False Idle 2) (?r {2, 1} {} False Idle 1)"
    using create [of "?r {1} {} False Idle 2" 1 2] by simp
  have s3: "?S (?r {2, 1} {} False Idle 1) (?r {3, 2, 1} {} False Idle 0)"
    using create [of "?r {2, 1} {} False Idle 1" 0 3] by simp
  have s4: "?S (?r {3, 2, 1} {} False Idle 0) (?r {3, 2} {1} True Idle 0)"
    using child_exit [of 1 "?r {3, 2, 1} {} False Idle 0"] by (simp add: insert_Diff_if)
  have s5: "?S (?r {3, 2} {1} True Idle 0) (?r {3, 2} {1} False AtWait 0)"
    using deliver [of "?r {3, 2} {1} True Idle 0"] by simp
  have s6: "?S (?r {3, 2} {1} False AtWait 0) (?r {3} {2, 1} True AtWait 0)"
    using child_exit [of 2 "?r {3, 2} {1} False AtWait 0"] by (simp add: insert_Diff_if)
  have s7: "?S (?r {3} {2, 1} True AtWait 0) (?r {} {3, 2, 1} True AtWait 0)"
    using child_exit [of 3 "?r {3} {2, 1} True AtWait 0"] by simp
  have s8: "?S (?r {} {3, 2, 1} True AtWait 0) (?r {} {3, 2} True (Waited 1) 0)"
    using call1 [OF _ _ any_child [of 1 "?r {} {3, 2, 1} True AtWait 0"]] by (simp add: insert_Diff_if)
  have s9: "?S (?r {} {3, 2} True (Waited 1) 0) (?r {} {3, 2} True Idle 0)"
    using return1 [of "?r {} {3, 2} True (Waited 1) 0" 1] by simp
  have s10: "?S (?r {} {3, 2} True Idle 0) (?r {} {3, 2} False AtWait 0)"
    using deliver [of "?r {} {3, 2} True Idle 0"] by simp
  have s11: "?S (?r {} {3, 2} False AtWait 0) (?r {} {3} False (Waited 2) 0)"
    using call1 [OF _ _ any_child [of 2 "?r {} {3, 2} False AtWait 0"]] by (simp add: insert_Diff_if)
  have s12: "?S (?r {} {3} False (Waited 2) 0) (?r {} {3} False Idle 0)"
    using return1 [of "?r {} {3} False (Waited 2) 0" 2] by simp
  note s = s1 s2 s3 s4 s5 s6 s7 s8 s9 s10 s11 s12
  show ?thesis
    unfolding reaper_init_def reaper.simps
    by ((rule converse_rtranclp_into_rtranclp, rule s)+, rule rtranclp.rtrancl_refl)
qed

section \<open>A run of the handler that loops\<close>

text \<open>
  Two children end while one signal is handled; the handler reaps both, and once more finds
  none when the second signal, still pending, is delivered.
\<close>

definition both_ended :: reaper where
  "both_ended = \<lparr>alive = {}, dead = {2, 1}, pending = True, hpc = AtWait, r_errno = EOTHER 0, to_fork = 0, stopped = None\<rparr>"

lemma handler2_run:
  "reaches handler2 (reaper_init 2) both_ended"
  "reaches handler2 both_ended ((reaper_init 0)\<lparr>r_errno := ECHILD\<rparr>)"
proof -
  let ?r = "\<lambda>a d p h e n. \<lparr>alive = a, dead = d, pending = p, hpc = h, r_errno = e, to_fork = n, stopped = None\<rparr>"
  let ?S = "\<lambda>r r'. main_step r r' \<or> handler2 r r'" and ?z = "EOTHER 0"
  have s1: "?S (?r {} {} False Idle ?z 2) (?r {1} {} False Idle ?z 1)"
    using create [of "?r {} {} False Idle ?z 2" 1 1] by simp
  have s2: "?S (?r {1} {} False Idle ?z 1) (?r {2, 1} {} False Idle ?z 0)"
    using create [of "?r {1} {} False Idle ?z 1" 0 2] by simp
  have s3: "?S (?r {2, 1} {} False Idle ?z 0) (?r {2} {1} True Idle ?z 0)"
    using child_exit [of 1 "?r {2, 1} {} False Idle ?z 0"] by (simp add: insert_Diff_if)
  have s4: "?S (?r {2} {1} True Idle ?z 0) (?r {2} {1} False AtWait ?z 0)"
    using deliver [of "?r {2} {1} True Idle ?z 0"] by simp
  have s5: "?S (?r {2} {1} False AtWait ?z 0) (?r {} {2, 1} True AtWait ?z 0)"
    using child_exit [of 2 "?r {2} {1} False AtWait ?z 0"] by simp
  note s = s1 s2 s3 s4 s5
  show "reaches handler2 (reaper_init 2) both_ended"
    unfolding reaper_init_def both_ended_def
    by ((rule converse_rtranclp_into_rtranclp, rule s)+, rule rtranclp.rtrancl_refl)
  have t1: "?S (?r {} {2, 1} True AtWait ?z 0) (?r {} {2} True (Waited 1) ?z 0)"
    using call2 [OF _ _ any_child [of 1 "?r {} {2, 1} True AtWait ?z 0"]] by (simp add: insert_Diff_if)
  have t2: "?S (?r {} d p (Waited q) e 0) (?r {} d p AtWait e 0)" if "0 < q" for d p e q
    using again2 [of "?r {} d p (Waited q) e 0" q] that by simp
  have t3: "?S (?r {} {2} True AtWait ?z 0) (?r {} {} True (Waited 2) ?z 0)"
    using call2 [OF _ _ any_child [of 2 "?r {} {2} True AtWait ?z 0"]] by simp
  have t4: "?S (?r {} {} p AtWait e 0) (?r {} {} p (Waited (- 1)) ECHILD 0)" for p e
    using call2 [OF _ _ any_echild [of "?r {} {} p AtWait e 0"]] by simp
  have t5: "?S (?r {} {} p (Waited (- 1)) ECHILD 0) (?r {} {} p Idle ECHILD 0)" for p
    using return2 [of "?r {} {} p (Waited (- 1)) ECHILD 0" "- 1"] by simp
  have t6: "?S (?r {} {} True Idle ECHILD 0) (?r {} {} False AtWait ECHILD 0)"
    using deliver [of "?r {} {} True Idle ECHILD 0"] by simp
  note t = t1 t2 [of 1 "{2}" True ?z, simplified] t3 t2 [of 2 "{}" True ?z, simplified] t4 [of True ?z] t5 [of True] t6
    t4 [of False ECHILD] t5 [of False]
  show "reaches handler2 both_ended ((reaper_init 0)\<lparr>r_errno := ECHILD\<rparr>)"
    unfolding reaper_init_def both_ended_def reaper.simps
    by ((rule converse_rtranclp_into_rtranclp, rule t)+, rule rtranclp.rtrancl_refl)
qed

section \<open>The list of jobs\<close>

text \<open>
  The functions of the job list are declared nowhere in the repository; they are parameters,
  with \<open>listed\<close> the processes on the list.
\<close>

locale job_list =
  fixes initjobs :: 'j
    and addjob deletejob :: "int \<Rightarrow> 'j \<Rightarrow> 'j"
    and listed :: "'j \<Rightarrow> int set"
  assumes listed_init: "listed initjobs = {}"
    and listed_add: "listed (addjob p j) = insert p (listed j)"
    and listed_delete: "listed (deletejob p j) = listed j - {p}"

datatype job_pc = AtBlock | AtFork | AtAdd int | AtUnblock

record 'j shell =
  s_alive :: "int set"
  s_dead :: "int set"
  s_pending :: bool
  s_blocked :: bool
  s_handling :: bool
  s_jobs :: 'j
  s_pc :: job_pc

text \<open>The environment: a child ends; the signal is delivered unless it is blocked.\<close>

inductive job_env :: "'j shell \<Rightarrow> 'j shell \<Rightarrow> bool" where
  job_exit: "p \<in> s_alive r \<Longrightarrow>
    job_env r (r\<lparr>s_alive := s_alive r - {p}, s_dead := insert p (s_dead r), s_pending := True\<rparr>)"
| job_deliver: "s_pending r \<Longrightarrow> \<not> s_blocked r \<Longrightarrow> \<not> s_handling r \<Longrightarrow>
    job_env r (r\<lparr>s_pending := False, s_handling := True\<rparr>)"

text \<open>The handler both programs have.\<close>

inductive job_handler :: "(int \<Rightarrow> 'j \<Rightarrow> 'j) \<Rightarrow> 'j shell \<Rightarrow> 'j shell \<Rightarrow> bool" for deletejob where
  job_reap: "s_handling r \<Longrightarrow> p \<in> s_dead r \<Longrightarrow>
    job_handler deletejob r (r\<lparr>s_dead := s_dead r - {p}, s_jobs := deletejob p (s_jobs r)\<rparr>)"
| job_return: "s_handling r \<Longrightarrow> s_alive r = {} \<Longrightarrow> s_dead r = {} \<Longrightarrow>
    job_handler deletejob r (r\<lparr>s_handling := False\<rparr>)"

text \<open>
  The loop of \<open>procmask1.c\<close>.  The parent's part only: the child becomes another program.  A
  failed \<open>fork\<close> yields \<open>-1\<close>.
\<close>

inductive procmask1_step :: "(int \<Rightarrow> 'j \<Rightarrow> 'j) \<Rightarrow> 'j shell \<Rightarrow> 'j shell \<Rightarrow> bool" for addjob where
  pm1_fork: "\<not> s_handling r \<Longrightarrow> s_pc r = AtFork \<Longrightarrow> 0 < p \<Longrightarrow> p \<notin> s_alive r \<union> s_dead r \<Longrightarrow>
    procmask1_step addjob r (r\<lparr>s_alive := insert p (s_alive r), s_pc := AtAdd p\<rparr>)"
| pm1_fork_failed: "\<not> s_handling r \<Longrightarrow> s_pc r = AtFork \<Longrightarrow>
    procmask1_step addjob r (r\<lparr>s_pc := AtAdd (- 1)\<rparr>)"
| pm1_add: "\<not> s_handling r \<Longrightarrow> s_pc r = AtAdd v \<Longrightarrow>
    procmask1_step addjob r (r\<lparr>s_jobs := addjob v (s_jobs r), s_pc := AtFork\<rparr>)"

text \<open>
  The loop of \<open>procmask2.c\<close>.  The assignment \<open>pid = fork() == 0\<close> stores the truth value of the
  comparison, which is 0 in the parent.
\<close>

inductive procmask2_step :: "(int \<Rightarrow> 'j \<Rightarrow> 'j) \<Rightarrow> 'j shell \<Rightarrow> 'j shell \<Rightarrow> bool" for addjob where
  pm2_block: "\<not> s_handling r \<Longrightarrow> s_pc r = AtBlock \<Longrightarrow>
    procmask2_step addjob r (r\<lparr>s_blocked := True, s_pc := AtFork\<rparr>)"
| pm2_fork: "\<not> s_handling r \<Longrightarrow> s_pc r = AtFork \<Longrightarrow> 0 < p \<Longrightarrow> p \<notin> s_alive r \<union> s_dead r \<Longrightarrow>
    procmask2_step addjob r (r\<lparr>s_alive := insert p (s_alive r), s_pc := AtAdd (of_bool (p = 0))\<rparr>)"
| pm2_fork_failed: "\<not> s_handling r \<Longrightarrow> s_pc r = AtFork \<Longrightarrow>
    procmask2_step addjob r (r\<lparr>s_pc := AtAdd (of_bool (- 1 = (0 :: int)))\<rparr>)"
| pm2_add: "\<not> s_handling r \<Longrightarrow> s_pc r = AtAdd v \<Longrightarrow>
    procmask2_step addjob r (r\<lparr>s_jobs := addjob v (s_jobs r), s_pc := AtUnblock\<rparr>)"
| pm2_unblock: "\<not> s_handling r \<Longrightarrow> s_pc r = AtUnblock \<Longrightarrow>
    procmask2_step addjob r (r\<lparr>s_blocked := False, s_pc := AtBlock\<rparr>)"

definition shell_init :: "'j \<Rightarrow> job_pc \<Rightarrow> 'j shell" where
  "shell_init j pc = \<lparr>s_alive = {}, s_dead = {}, s_pending = False, s_blocked = False, s_handling = False,
     s_jobs = j, s_pc = pc\<rparr>"

abbreviation job_reaches :: "(int \<Rightarrow> 'j \<Rightarrow> 'j) \<Rightarrow> ('j shell \<Rightarrow> 'j shell \<Rightarrow> bool) \<Rightarrow> 'j shell \<Rightarrow> 'j shell \<Rightarrow> bool" where
  "job_reaches deletejob main \<equiv> (\<lambda>r r'. job_env r r' \<or> job_handler deletejob r r' \<or> main r r')\<^sup>*\<^sup>*"

context job_list
begin

text \<open>The race: the child ends and is reaped before it is listed.\<close>

lemma procmask1_race_run:
  "job_reaches deletejob (procmask1_step addjob) (shell_init initjobs AtFork)
     ((shell_init (addjob 7 (deletejob 7 initjobs)) AtFork))"
proof -
  let ?r = "\<lambda>a d p h j pc. \<lparr>s_alive = a, s_dead = d, s_pending = p, s_blocked = False, s_handling = h, s_jobs = j, s_pc = pc\<rparr>"
  let ?S = "\<lambda>r r'. job_env r r' \<or> job_handler deletejob r r' \<or> procmask1_step addjob r r'"
  have s1: "?S (?r {} {} False False initjobs AtFork) (?r {7} {} False False initjobs (AtAdd 7))"
    using pm1_fork [of "?r {} {} False False initjobs AtFork" 7 addjob] by simp
  have s2: "?S (?r {7} {} False False initjobs (AtAdd 7)) (?r {} {7} True False initjobs (AtAdd 7))"
    using job_exit [of 7 "?r {7} {} False False initjobs (AtAdd 7)"] by simp
  have s3: "?S (?r {} {7} True False initjobs (AtAdd 7)) (?r {} {7} False True initjobs (AtAdd 7))"
    using job_deliver [of "?r {} {7} True False initjobs (AtAdd 7)"] by simp
  have s4: "?S (?r {} {7} False True initjobs (AtAdd 7)) (?r {} {} False True (deletejob 7 initjobs) (AtAdd 7))"
    using job_reap [of "?r {} {7} False True initjobs (AtAdd 7)" 7 deletejob] by simp
  have s5: "?S (?r {} {} False True (deletejob 7 initjobs) (AtAdd 7)) (?r {} {} False False (deletejob 7 initjobs) (AtAdd 7))"
    using job_return [of "?r {} {} False True (deletejob 7 initjobs) (AtAdd 7)" deletejob] by simp
  have s6: "?S (?r {} {} False False (deletejob 7 initjobs) (AtAdd 7))
      (?r {} {} False False (addjob 7 (deletejob 7 initjobs)) AtFork)"
    using pm1_add [of "?r {} {} False False (deletejob 7 initjobs) (AtAdd 7)" 7 addjob] by simp
  note s = s1 s2 s3 s4 s5 s6
  show ?thesis
    unfolding shell_init_def
    by ((rule converse_rtranclp_into_rtranclp, rule s)+, rule rtranclp.rtrancl_refl)
qed

lemma procmask2_inv:
  assumes "job_reaches deletejob (procmask2_step addjob) (shell_init initjobs AtBlock) r"
  shows "listed (s_jobs r) \<subseteq> {0} \<and> (\<forall>v. s_pc r = AtAdd v \<longrightarrow> v = 0)
    \<and> (s_pc r \<noteq> AtBlock \<longrightarrow> s_blocked r \<and> \<not> s_handling r) \<and> (\<forall>p \<in> s_alive r \<union> s_dead r. 0 < p)"
  using assms
proof (induction rule: rtranclp_induct)
  case base
  then show ?case by (simp add: shell_init_def listed_init)
next
  case (step r r')
  from step(2) consider "job_env r r'" | "job_handler deletejob r r'" | "procmask2_step addjob r r'" by blast
  then show ?case
  proof cases
    case 1
    then show ?thesis by (cases rule: job_env.cases) (use step(3) in auto)
  next
    case 2
    then show ?thesis by (cases rule: job_handler.cases) (use step(3) in \<open>auto simp: listed_delete\<close>)
  next
    case 3
    then show ?thesis by (cases rule: procmask2_step.cases) (use step(3) in \<open>auto simp: listed_add\<close>)
  qed
qed

end

interpretation list_jobs: job_list "[]" Cons removeAll set
  by unfold_locales auto

section \<open>Properties\<close>

text \<open>
  C30: a handler that reaps in a loop loses no child.  Although a signal that arrives while
  one is pending is not counted, and children may end at every point between two calls of
  \<open>waitpid\<close> and between the last call and the return of the handler, in every state the
  program reaches, with any number of children, in which it has not been ended, no signal
  is pending and the handler is not running, there is no ended child left: for the handler
  of \<open>signal2.c\<close>, \<open>signal3.c\<close> and \<open>signal4.c\<close>, which stops at the error \<open>ECHILD\<close> and ends the
  program at any other, and for that of the forking server, which stops at the first result
  that is not a child.
\<close>

theorem no_zombie_left:
  assumes "h = handler2 \<or> h = handler_nohang" and "reaches h (reaper_init n) r"
    and "stopped r = None" and "\<not> pending r" and "hpc r = Idle"
  shows "dead r = {}"
  using assms h2.nothing_left [of n r] hn.nothing_left [of n r] by blast

theorem no_zombie_left_witness:
  "dead both_ended = {2, 1} \<and> reaches handler2 (reaper_init 2) both_ended
    \<and> (\<exists>r. reaches handler2 both_ended r \<and> to_fork r = 0 \<and> stopped r = None \<and> \<not> pending r \<and> hpc r = Idle
        \<and> dead r = {})"
proof -
  let ?r = "(reaper_init 0)\<lparr>r_errno := ECHILD\<rparr>"
  have r: "reaches handler2 (reaper_init 2) ?r" by (rule rtranclp_trans [OF handler2_run])
  have "dead ?r = {}" by (rule no_zombie_left [OF _ r]) (simp_all add: reaper_init_def)
  with handler2_run show ?thesis
    by (intro conjI exI [of _ ?r]) (simp_all add: reaper_init_def both_ended_def)
qed

text \<open>
  the handler of \<open>signal1.c\<close>, which reaps one child per signal, fails only when it is
  interrupted, for every activation finds an ended child; but it can leave one unreaped
  forever.  With the three children of the program there is a run to a state in which all
  have ended, one is not reaped, no signal is pending, the handler is not running, and
  nothing can happen any more.
\<close>

theorem handler1_leaves_zombie:
  "(\<forall>r. reaches handler1 (reaper_init 3) r \<longrightarrow> stopped r = None \<or> stopped r = Some EINTR) \<and>
   (\<exists>r. reaches handler1 (reaper_init 3) r \<and> to_fork r = 0 \<and> alive r = {} \<and> dead r \<noteq> {}
      \<and> \<not> pending r \<and> hpc r = Idle \<and> stopped r = None \<and> (\<forall>r'. \<not> main_step r r' \<and> \<not> handler1 r r'))"
proof (intro conjI allI impI)
  fix r
  assume "reaches handler1 (reaper_init 3) r"
  then show "stopped r = None \<or> stopped r = Some EINTR" using handler1_sound by blast
next
  let ?r = "(reaper_init 0)\<lparr>dead := {3}\<rparr>"
  have "\<not> main_step ?r r' \<and> \<not> handler1 ?r r'" for r'
    by (auto simp: reaper_init_def elim!: main_stepE handler1E)
  with handler1_run show "\<exists>r. reaches handler1 (reaper_init 3) r \<and> to_fork r = 0 \<and> alive r = {} \<and> dead r \<noteq> {}
      \<and> \<not> pending r \<and> hpc r = Idle \<and> stopped r = None \<and> (\<forall>r'. \<not> main_step r r' \<and> \<not> handler1 r r')"
    by (intro exI [of _ ?r]) (simp add: reaper_init_def)
qed

theorem handler1_leaves_zombie_witness:
  "\<exists>r. reaches handler1 (reaper_init 3) r \<and> dead r \<noteq> {} \<and> \<not> pending r \<and> hpc r = Idle"
  using handler1_leaves_zombie by blast

text \<open>
  the race of \<open>procmask1.c\<close>.  Nothing keeps the handler from running between \<open>fork\<close> and
  \<open>addjob\<close>: for every implementation of the job list there is a run after which a process
  is listed that has ended and has been reaped, so that no later signal will remove it.
\<close>

theorem procmask1_race:
  assumes "job_list initjobs addjob deletejob listed"
  shows "\<exists>r p. job_reaches deletejob (procmask1_step addjob) (shell_init initjobs AtFork) r
    \<and> p \<in> listed (s_jobs r) \<and> p \<notin> s_alive r \<union> s_dead r \<and> \<not> s_pending r \<and> \<not> s_handling r"
proof -
  let ?r = "shell_init (addjob 7 (deletejob 7 initjobs)) AtFork"
  have "7 \<in> listed (s_jobs ?r)" using job_list.listed_add [OF assms] by (simp add: shell_init_def)
  with job_list.procmask1_race_run [OF assms] show ?thesis
    by (intro exI [of _ ?r] exI [of _ 7]) (simp add: shell_init_def)
qed

theorem procmask1_race_witness:
  "\<exists>r p. job_reaches removeAll (procmask1_step Cons) (shell_init [] AtFork) r
    \<and> p \<in> set (s_jobs r) \<and> p \<notin> s_alive r \<union> s_dead r \<and> \<not> s_pending r \<and> \<not> s_handling r"
  by (rule procmask1_race [OF list_jobs.job_list_axioms])

text \<open>
  C31: \<open>procmask2.c\<close> closes the race, for between \<open>fork\<close> and \<open>addjob\<close> the signal is blocked and
  the handler does not run; but what it lists is the value of the comparison in its
  condition.  In every state it reaches, the list names at most the process 0, so none of
  the children, whose numbers are positive, is ever listed.
\<close>

theorem procmask2_jobs:
  assumes "job_list initjobs addjob deletejob listed"
    and "job_reaches deletejob (procmask2_step addjob) (shell_init initjobs AtBlock) r"
  shows "(s_pc r \<noteq> AtBlock \<longrightarrow> s_blocked r \<and> \<not> s_handling r) \<and> listed (s_jobs r) \<subseteq> {0}
    \<and> listed (s_jobs r) \<inter> (s_alive r \<union> s_dead r) = {}"
proof -
  note I = job_list.procmask2_inv [OF assms]
  then have "0 \<notin> s_alive r \<union> s_dead r" by blast
  with I show ?thesis by blast
qed

theorem procmask2_jobs_witness:
  "\<exists>r. job_reaches removeAll (procmask2_step Cons) (shell_init [] AtBlock) r \<and> s_jobs r = [0] \<and> s_alive r = {5}
    \<and> s_blocked r \<and> set (s_jobs r) \<inter> (s_alive r \<union> s_dead r) = {}"
proof -
  let ?r = "\<lambda>a b j pc. \<lparr>s_alive = a, s_dead = {}, s_pending = False, s_blocked = b, s_handling = False,
    s_jobs = j :: int list, s_pc = pc\<rparr>"
  let ?S = "\<lambda>r r'. job_env r r' \<or> job_handler removeAll r r' \<or> procmask2_step Cons r r'"
  have s1: "?S (?r {} False [] AtBlock) (?r {} True [] AtFork)"
    using pm2_block [of "?r {} False [] AtBlock" Cons] by simp
  have s2: "?S (?r {} True [] AtFork) (?r {5} True [] (AtAdd 0))"
    using pm2_fork [of "?r {} True [] AtFork" 5 Cons] by simp
  have s3: "?S (?r {5} True [] (AtAdd 0)) (?r {5} True [0] AtUnblock)"
    using pm2_add [of "?r {5} True [] (AtAdd 0)" 0 Cons] by simp
  note s = s1 s2 s3
  have R: "job_reaches removeAll (procmask2_step Cons) (shell_init [] AtBlock) (?r {5} True [0] AtUnblock)"
    unfolding shell_init_def
    by ((rule converse_rtranclp_into_rtranclp, rule s)+, rule rtranclp.rtrancl_refl)
  from procmask2_jobs [OF list_jobs.job_list_axioms R] R show ?thesis
    by (intro exI [of _ "?r {5} True [0] AtUnblock"]) simp
qed

end
