(* ===== verification/Fragments.thy ===== *)
theory Fragments
  imports Echo_Servers
begin

text \<open>
  The short programs of \<open>csapp/link\<close>, \<open>csapp/system_io\<close> and \<open>csapp/exceptional_control_flow\<close>
  that have a computation of their own: the vector library, the exchange of two variables,
  copying standard input byte by byte, the file check, the non-local jump, the alarm
  clock, the host lookup, the creation of processes, the loading of a library, the
  redirection of the standard output and the interrupt handler.

  The lemmas give the exact condition under which the vector functions compute pointwise
  results when their arguments overlap, and show what an interruption does to the copy.
\<close>

section \<open>Vectors\<close>

text \<open>
  Memory is a function from addresses, counted in units of \<open>int\<close>; the three arguments are
  addresses and may overlap.  An \<open>int\<close> result out of range is a fault.
\<close>

type_synonym memory = "int \<Rightarrow> int"

definition int_range :: "int \<Rightarrow> bool" where
  "int_range v \<longleftrightarrow> - (2 ^ 31) \<le> v \<and> v < 2 ^ 31"

function vec_loop :: "(int \<Rightarrow> int \<Rightarrow> int) \<Rightarrow> int \<Rightarrow> int \<Rightarrow> int \<Rightarrow> int \<Rightarrow> int \<Rightarrow> memory \<Rightarrow> memory outcome" where
  "vec_loop f x y z n i mem =
     (if i < n
      then let v = f (mem (x + i)) (mem (y + i)) in
        if int_range v then vec_loop f x y z n (i + 1) (mem(z + i := v)) else Fault SignedOverflow
      else Ret mem)"
  by pat_completeness auto
termination by (relation "measure (\<lambda>(f, x, y, z, n, i, mem). nat (n - i))") auto

declare vec_loop.simps [simp del]

definition addvec :: "int \<Rightarrow> int \<Rightarrow> int \<Rightarrow> int \<Rightarrow> memory \<Rightarrow> memory outcome" where
  "addvec x y z n mem = vec_loop (+) x y z n 0 mem"

definition multvec :: "int \<Rightarrow> int \<Rightarrow> int \<Rightarrow> int \<Rightarrow> memory \<Rightarrow> memory outcome" where
  "multvec x y z n mem = vec_loop (*) x y z n 0 mem"

text \<open>The test program: \<open>x\<close>, \<open>y\<close> and \<open>z\<close> at the addresses 0, 2 and 4.\<close>

definition main2_mem :: memory where
  "main2_mem = (\<lambda>_. 0)(0 := 1, 1 := 2, 2 := 3, 3 := 4)"

definition main2 :: "memory outcome" where
  "main2 = addvec 0 2 4 2 main2_mem"

text \<open>
  No result overwrites a source element that is still to be read.  Disjoint vectors satisfy
  this, and so do updates in place.
\<close>

definition no_clobber :: "int \<Rightarrow> int \<Rightarrow> int \<Rightarrow> int \<Rightarrow> bool" where
  "no_clobber x y z n \<longleftrightarrow> (\<forall>i j. 0 \<le> i \<longrightarrow> i < j \<longrightarrow> j < n \<longrightarrow> z + i \<noteq> x + j \<and> z + i \<noteq> y + j)"

lemma no_clobberD: "no_clobber x y z n \<Longrightarrow> 0 \<le> i \<Longrightarrow> i + 1 \<le> j \<Longrightarrow> j < n \<Longrightarrow> x + j \<noteq> z + i \<and> y + j \<noteq> z + i"
  unfolding no_clobber_def by (drule spec [of _ i], drule spec [of _ j]) auto

lemma vec_loop_pointwise:
  assumes "no_clobber x y z n" and "0 \<le> i"
    and "\<And>j. i \<le> j \<Longrightarrow> j < n \<Longrightarrow> m (x + j) = m0 (x + j) \<and> m (y + j) = m0 (y + j)"
    and "\<And>j. i \<le> j \<Longrightarrow> j < n \<Longrightarrow> int_range (f (m0 (x + j)) (m0 (y + j)))"
  shows "vec_loop f x y z n i m = Ret (\<lambda>a. if z + i \<le> a \<and> a < z + n then f (m0 (x + (a - z))) (m0 (y + (a - z))) else m a)"
  using assms(2-4)
proof (induction "nat (n - i)" arbitrary: i m)
  case 0
  then show ?case by (subst vec_loop.simps) (auto simp: fun_eq_iff)
next
  case (Suc c)
  then have i: "i < n" "c = nat (n - (i + 1))" by auto
  let ?v = "f (m0 (x + i)) (m0 (y + i))"
  have v: "f (m (x + i)) (m (y + i)) = ?v" "int_range ?v" using Suc.prems i(1) by auto
  have src: "(m(z + i := ?v)) (x + j) = m0 (x + j) \<and> (m(z + i := ?v)) (y + j) = m0 (y + j)"
    if "i + 1 \<le> j" "j < n" for j
    using no_clobberD [OF assms(1) Suc.prems(1), of j] Suc.prems(2) [of j] that by simp
  have "vec_loop f x y z n i m = vec_loop f x y z n (i + 1) (m(z + i := ?v))"
    using i(1) v by (subst vec_loop.simps) (simp add: Let_def)
  also have "\<dots> = Ret (\<lambda>a. if z + (i + 1) \<le> a \<and> a < z + n then f (m0 (x + (a - z))) (m0 (y + (a - z)))
      else (m(z + i := ?v)) a)"
    by (rule Suc.hyps(1) [OF i(2)]) (use Suc.prems src in auto)
  also have "\<dots> = Ret (\<lambda>a. if z + i \<le> a \<and> a < z + n then f (m0 (x + (a - z))) (m0 (y + (a - z))) else m a)"
    using i(1) by (auto simp: fun_eq_iff)
  finally show ?case .
qed

lemma vec_loop_overflow:
  assumes "no_clobber x y z n" and "0 \<le> i" and "i \<le> l" and "l < n"
    and "\<And>j. i \<le> j \<Longrightarrow> j < n \<Longrightarrow> m (x + j) = m0 (x + j) \<and> m (y + j) = m0 (y + j)"
    and "\<not> int_range (f (m0 (x + l)) (m0 (y + l)))"
  shows "vec_loop f x y z n i m = Fault SignedOverflow"
  using assms(2-5)
proof (induction "nat (n - i)" arbitrary: i m)
  case (Suc c)
  then have i: "i < n" "c = nat (n - (i + 1))" by auto
  let ?v = "f (m0 (x + i)) (m0 (y + i))"
  have v: "f (m (x + i)) (m (y + i)) = ?v" using Suc.prems(4) i(1) by simp
  have src: "(m(z + i := ?v)) (x + j) = m0 (x + j) \<and> (m(z + i := ?v)) (y + j) = m0 (y + j)"
    if "i + 1 \<le> j" "j < n" for j
    using no_clobberD [OF assms(1) Suc.prems(1), of j] Suc.prems(4) [of j] that by simp
  show ?case
  proof (cases "int_range ?v")
    case True
    with assms(6) Suc.prems(2) have "i + 1 \<le> l" by (cases "i = l") auto
    have "vec_loop f x y z n (i + 1) (m(z + i := ?v)) = Fault SignedOverflow"
      by (rule Suc.hyps(1) [OF i(2) _ \<open>i + 1 \<le> l\<close> Suc.prems(3) src]) (use Suc.prems(1) in auto)
    with True v i(1) show ?thesis by (subst vec_loop.simps) (simp add: Let_def)
  next
    case False
    with v i(1) show ?thesis by (subst vec_loop.simps) (simp add: Let_def)
  qed
qed simp

section \<open>Exchange\<close>

text \<open>
  \<open>link/main.c\<close> and \<open>link/swap.c\<close>: \<open>buf\<close> has two elements, \<open>bufp0\<close> points to the first from
  the start, \<open>bufp1\<close> to the second once \<open>swap\<close> runs.
\<close>

record swap_vars =
  swap_buf :: memory
  bufp0 :: int
  bufp1 :: int

definition swap :: "swap_vars \<Rightarrow> swap_vars" where
  "swap v =
     (let v1 = v\<lparr>bufp1 := 1\<rparr>;
          temp = swap_buf v1 (bufp0 v1);
          v2 = v1\<lparr>swap_buf := (swap_buf v1)(bufp0 v1 := swap_buf v1 (bufp1 v1))\<rparr> in
      v2\<lparr>swap_buf := (swap_buf v2)(bufp1 v2 := temp)\<rparr>)"

definition swap_main :: swap_vars where
  "swap_main = swap \<lparr>swap_buf = (\<lambda>_. 0)(0 := 1, 1 := 2), bufp0 = 0, bufp1 = 0\<rparr>"

lemma swap_exchanges: "bufp0 v = 0 \<Longrightarrow> swap_buf (swap v) 0 = swap_buf v 1 \<and> swap_buf (swap v) 1 = swap_buf v 0"
  by (simp add: swap_def Let_def)

lemma swap_twice: "bufp0 v = 0 \<Longrightarrow> swap_buf (swap (swap v)) = swap_buf v"
  by (auto simp: swap_def Let_def fun_eq_iff)

section \<open>Copying the standard input\<close>

definition STDOUT_FILENO :: int where "STDOUT_FILENO = 1"

text \<open>
  The test is against zero only: after an error the byte of the round before is written
  again.
\<close>

partial_function (option) cpstdin_loop :: "'w kernel \<Rightarrow> byte \<Rightarrow> 'w proc \<Rightarrow> 'w proc option" where
  "cpstdin_loop k c s = (case sys_read k STDIN_FILENO 1 s of
       (Some [], s1) \<Rightarrow> Some s1
     | (Some (b # _), s1) \<Rightarrow> cpstdin_loop k b (snd (sys_write k STDOUT_FILENO [b] s1))
     | (None, s1) \<Rightarrow> cpstdin_loop k c (snd (sys_write k STDOUT_FILENO [c] s1)))"

context steady_stream
begin

text \<open>Without errors the copy is exact.\<close>

lemma cpstdin_copies:
  assumes "steady (world s)" and "patience (world s) = 0"
  shows "\<exists>s'. cpstdin_loop k c s = Some s'
    \<and> outgoing STDOUT_FILENO (world s') = outgoing STDOUT_FILENO (world s) @ incoming STDIN_FILENO (world s)"
  using assms
proof (induction "length (incoming STDIN_FILENO (world s))" arbitrary: c s rule: less_induct)
  case less
  obtain r s1 where c: "sys_read k STDIN_FILENO 1 s = (r, s1)" by fastforce
  obtain bs where r: "r = Some bs"
    using r_steady.inv_sys_read [OF c less.prems(1)] sys_read_None(3) [of STDIN_FILENO 1 s s1] c less.prems(2)
    by (cases r) auto
  note S = sys_read_Some [OF c [unfolded r]] and st = r_steady.inv_sys_read(1) [OF c less.prems(1)]
  have out: "outgoing fd (world s1) = outgoing fd (world s)" for fd
    using r_out.inv_sys_read(1) [OF c] by simp
  show ?case
  proof (cases bs)
    case Nil
    with S(4) c r out show ?thesis by (subst cpstdin_loop.simps) auto
  next
    case (Cons b rest)
    with S(1) have bs: "bs = [b]" by simp
    obtain r2 s2 where w: "sys_write k STDOUT_FILENO [b] s1 = (r2, s2)" by fastforce
    have p: "patience (world s1) = 0" using S(3) less.prems(2) by simp
    obtain n where n: "r2 = Some n"
      using w_steady.inv_sys_write(2) [OF w st] sys_write_None(3) [of STDOUT_FILENO "[b]" s1 s2] w p
      by (cases r2) auto
    note W = sys_write_Some [OF w [unfolded n]]
    have i: "incoming fd (world s2) = incoming fd (world s1)" for fd
      using w_in.inv_sys_write(1) [OF w] by simp
    have "n = 1" using W(1,4) by simp
    with W(2) have o: "outgoing STDOUT_FILENO (world s2) = outgoing STDOUT_FILENO (world s) @ [b]" using out by simp
    have "length (incoming STDIN_FILENO (world s2)) < length (incoming STDIN_FILENO (world s))"
      using S(2) bs i by simp
    from less.hyps [OF this w_steady.inv_sys_write(1) [OF w st], of b] W(3) p obtain s' where
        "cpstdin_loop k b s2 = Some s'"
        "outgoing STDOUT_FILENO (world s') = outgoing STDOUT_FILENO (world s2) @ incoming STDIN_FILENO (world s2)"
      by auto
    with c r bs w o i S(2) show ?thesis by (subst cpstdin_loop.simps) auto
  qed
qed

end

text \<open>An interrupted read writes the byte of the round before a second time.\<close>

lemma cpstdin_repeats:
  "sys_read k STDIN_FILENO 1 s = (None, s1) \<Longrightarrow>
    cpstdin_loop k c s = cpstdin_loop k c (snd (sys_write k STDOUT_FILENO [c] s1))"
  by (subst cpstdin_loop.simps) simp

section \<open>Checking a file\<close>

definition S_IFMT :: u32 where "S_IFMT = 0xF000"
definition S_IFREG :: u32 where "S_IFREG = 0x8000"
definition S_IFDIR :: u32 where "S_IFDIR = 0x4000"
definition S_IRUSR :: u32 where "S_IRUSR = 0x100"

text \<open>The result of \<open>stat\<close> is not looked at; \<open>junk\<close> is the uninitialised structure.\<close>

definition statcheck :: "'w kernel \<Rightarrow> stat \<Rightarrow> string \<Rightarrow> 'w proc \<Rightarrow> string \<times> string" where
  "statcheck k junk path s =
     (let st = (case syscall (k_stat k path) s of (None, _) \<Rightarrow> junk | (Some st, _) \<Rightarrow> st);
          type = (if st_mode st AND S_IFMT = S_IFREG then ''regular''
                  else if st_mode st AND S_IFMT = S_IFDIR then ''directory'' else ''other'');
          readok = (if st_mode st AND S_IRUSR \<noteq> 0 then ''yes'' else ''no'') in
      (type, readok))"

section \<open>Redirecting the standard output\<close>

text \<open>
  \<open>dup2.cc\<close>: the descriptors of a process name open files, and files have contents.  The
  number \<open>open\<close> returns is an argument, \<open>None\<close> when it fails; the other calls follow their
  documentation.  The line waits in the buffer of the stream until the exit writes it to
  whatever the descriptor names then.
\<close>

record fd_space =
  fd_file :: "int \<Rightarrow> string option"
  contents :: "string \<Rightarrow> string"

definition sys_open :: "int option \<Rightarrow> string \<Rightarrow> fd_space \<Rightarrow> int \<times> fd_space" where
  "sys_open result path w = (case result of
     None \<Rightarrow> (- 1, w)
   | Some fd \<Rightarrow> (fd, w\<lparr>fd_file := (fd_file w)(fd \<mapsto> path)\<rparr>))"

definition sys_dup2 :: "int \<Rightarrow> int \<Rightarrow> fd_space \<Rightarrow> int \<times> fd_space" where
  "sys_dup2 oldfd newfd w = (case fd_file w oldfd of
     None \<Rightarrow> (- 1, w)
   | Some f \<Rightarrow> (newfd, w\<lparr>fd_file := (fd_file w)(newfd \<mapsto> f)\<rparr>))"

definition sys_close :: "int \<Rightarrow> fd_space \<Rightarrow> fd_space" where
  "sys_close fd w = w\<lparr>fd_file := (fd_file w)(fd := None)\<rparr>"

definition sys_append :: "int \<Rightarrow> string \<Rightarrow> fd_space \<Rightarrow> fd_space" where
  "sys_append fd line w = (case fd_file w fd of
     None \<Rightarrow> w
   | Some f \<Rightarrow> w\<lparr>contents := (contents w)(f := contents w f @ line)\<rparr>)"

definition print_int :: "int \<Rightarrow> string" where
  "print_int n = (if n < 0 then ''-'' @ to_string (nat (- n)) else to_string (nat n))"

definition dup2_line :: "int \<Rightarrow> int \<Rightarrow> string" where
  "dup2_line ret fd = ''ret = '' @ print_int ret @ '', fd = '' @ print_int fd
     @ '', STDOUT = '' @ print_int STDOUT_FILENO @ [CHR 0x0A]"

definition dup2_main :: "int option \<Rightarrow> fd_space \<Rightarrow> fd_space" where
  "dup2_main result w =
     (let (fd, w1) = sys_open result ''axl.txt'' w;
          (ret, w2) = sys_dup2 fd STDOUT_FILENO w1
      in sys_append STDOUT_FILENO (dup2_line ret fd) (sys_close fd w2))"

text \<open>
  The line is appended to the file and to nothing else, also when it is written after the
  first descriptor has been closed; but a program started without a standard output, whose
  \<open>open\<close> returns that number, closes it before the line is written, and the line is lost.
\<close>

lemma dup2_redirects:
  assumes "0 \<le> fd" and "fd_file w fd = None"
  shows "contents (dup2_main (Some fd) w) =
    (if fd = STDOUT_FILENO then contents w
     else (contents w)(''axl.txt'' := contents w ''axl.txt'' @ dup2_line STDOUT_FILENO fd))"
    and "fd_file (dup2_main (Some fd) w) fd = None"
  using assms
  by (auto simp: dup2_main_def sys_open_def sys_dup2_def sys_close_def sys_append_def STDOUT_FILENO_def)

text \<open>If the file cannot be opened, the line goes where the standard output went before.\<close>

lemma dup2_unopened:
  assumes "fd_file w (- 1) = None" and "fd_file w STDOUT_FILENO = Some f"
  shows "contents (dup2_main None w) = (contents w)(f := contents w f @ dup2_line (- 1) (- 1))"
  using assms
  by (simp add: dup2_main_def sys_open_def sys_dup2_def sys_close_def sys_append_def STDOUT_FILENO_def)

section \<open>An interrupt\<close>

text \<open>
  \<open>csapp.h\<close>'s \<open>unix_error\<close> prints the message with the text of the error and exits with
  status 0.  \<open>sigint1.c\<close> as a function of the result of \<open>signal\<close> and of the number of
  interrupts that arrive: the lines printed and the exit status, \<open>None\<close> while it waits.  The
  handler does not return, so the exit after \<open>pause\<close> is not reached.
\<close>

definition unix_error :: "(errno \<Rightarrow> string) \<Rightarrow> string \<Rightarrow> errno \<Rightarrow> string list \<times> int" where
  "unix_error strerror msg e = ([msg @ '': '' @ strerror e], 0)"

definition sigint_handler :: "string list \<times> int" where
  "sigint_handler = ([''Caught SIGINT''], 0)"

definition sigint1_main :: "(errno \<Rightarrow> string) \<Rightarrow> errno option \<Rightarrow> nat \<Rightarrow> (string list \<times> int) option" where
  "sigint1_main strerror failure interrupts = (case failure of
     Some e \<Rightarrow> Some (unix_error strerror ''signal error'' e)
   | None \<Rightarrow> if interrupts = 0 then None else Some sigint_handler)"

text \<open>The status does not tell a failure from an interrupt.\<close>

lemma sigint1_status: "sigint1_main strerror failure interrupts = Some (out, status) \<Longrightarrow> status = 0"
  by (auto simp: sigint1_main_def unix_error_def sigint_handler_def split: option.splits if_splits)

section \<open>A jump out of nested calls\<close>

text \<open>\<open>longjmp\<close> makes \<open>setjmp\<close> return again: a left value of the sum is the value it returns.\<close>

definition bar :: "bool \<Rightarrow> int + unit" where
  "bar error2 = (if error2 then Inl 2 else Inr ())"

definition foo :: "bool \<Rightarrow> bool \<Rightarrow> int + unit" where
  "foo error1 error2 = (if error1 then Inl 1 else bar error2)"

fun setjmp_branch :: "int \<Rightarrow> string" where
  "setjmp_branch rc =
     (if rc = 1 then ''Detected an error1 condition in foo''
      else if rc = 2 then ''Detected an error2 condition in foo''
      else ''Unknown error condition in foo'')"

text \<open>The line printed, if any; the program then exits with status 0.\<close>

definition setjmp_main :: "bool \<Rightarrow> bool \<Rightarrow> string option" where
  "setjmp_main error1 error2 = (case foo error1 error2 of
       Inr _ \<Rightarrow> None
     | Inl rc \<Rightarrow> Some (setjmp_branch rc))"

lemma setjmp_main_known: "setjmp_main e1 e2 \<noteq> Some ''Unknown error condition in foo''"
  by (simp add: setjmp_main_def foo_def bar_def)

section \<open>The alarm clock\<close>

text \<open>The handler, on the static counter; a returned counter means the alarm is set again.\<close>

definition alarm_handler :: "int \<Rightarrow> int outcome" where
  "alarm_handler beeps = (let beeps' = beeps + 1 in if beeps' < 5 then Ret beeps' else Exit 0)"

text \<open>The program as a function of the number of signals delivered to it.\<close>

fun alarm_main :: "nat \<Rightarrow> int outcome" where
  "alarm_main 0 = Ret 0"
| "alarm_main (Suc n) = (case alarm_main n of
     Ret beeps \<Rightarrow> alarm_handler beeps | Exit c \<Rightarrow> Exit c | Fault e \<Rightarrow> Fault e)"

lemma alarm_main_five: "alarm_main n = (if n < 5 then Ret (int n) else Exit 0)"
  by (induction n) (auto simp: alarm_handler_def Let_def)

section \<open>Looking up a host\<close>

text \<open>
  \<open>hostinfo.c\<close>; the resolver's functions are parameters, a null pointer is \<open>None\<close>.  The
  result is the list of the lines printed.
\<close>

record hostent =
  h_name :: string
  h_aliases :: "string list"
  h_addr_list :: "u32 list"

definition hostinfo_main :: "(string \<Rightarrow> u32 option) \<Rightarrow> (u32 \<Rightarrow> hostent option) \<Rightarrow> (string \<Rightarrow> hostent option)
    \<Rightarrow> string list \<Rightarrow> string list outcome" where
  "hostinfo_main inet_aton gethostbyaddr gethostbyname argv =
     (if length argv \<noteq> 2 then Exit 0
      else case (case inet_aton (argv ! 1) of
             Some addr \<Rightarrow> gethostbyaddr addr
           | None \<Rightarrow> gethostbyname (argv ! 1)) of
        None \<Rightarrow> Fault OverRead
      | Some hostp \<Rightarrow> Ret ((''official hostname: '' @ h_name hostp)
          # map (\<lambda>a. ''alias: '' @ a) (h_aliases hostp)
          @ map (\<lambda>a. ''address: '' @ inet_ntoa a) (h_addr_list hostp)))"

text \<open>A name that is not known makes the program follow a null pointer.\<close>

lemma hostinfo_unknown:
  "inet_aton n = None \<Longrightarrow> gethostbyname n = None \<Longrightarrow>
    hostinfo_main inet_aton gethostbyaddr gethostbyname [prog, n] = Fault OverRead"
  by (simp add: hostinfo_main_def)

section \<open>Creating processes\<close>

text \<open>
  \<open>Fork\<close> of \<open>rfork.c\<close>: \<open>r1\<close> and \<open>r2\<close> are the two results of \<open>rand\<close>.  The source computes in
  double precision; as \<open>RAND_MAX\<close> is a prime below \<open>2 ^ 31\<close>, no product but those for 0 and
  \<open>RAND_MAX\<close> comes closer to an integer than \<open>1 / RAND_MAX\<close>, far above the rounding error, and
  the integer quotients below are the truncated values exactly.
\<close>

definition RAND_MAX :: nat where "RAND_MAX = 2147483647"

definition MAX_SLEEP :: nat where "MAX_SLEEP = 100000"

definition boll :: "nat \<Rightarrow> nat" where
  "boll r = (2 * r + RAND_MAX) div (2 * RAND_MAX)"

definition sleep_secs :: "nat \<Rightarrow> nat" where
  "sleep_secs r = r * MAX_SLEEP div RAND_MAX"

text \<open>The result of \<open>fork\<close> and the microseconds slept, if any.\<close>

definition Fork :: "nat \<Rightarrow> nat \<Rightarrow> 'w kernel \<Rightarrow> 'w proc \<Rightarrow> int \<times> nat option \<times> 'w proc" where
  "Fork r1 r2 k s =
     (let (pid, s1) = fork k s in
      if pid < 0 then (pid, None, s1)
      else if pid = 0 then (pid, if boll r1 \<noteq> 0 then Some (sleep_secs r2) else None, s1)
      else (pid, if boll r1 = 0 then Some (sleep_secs r2) else None, s1))"

lemma boll_le_1: "r \<le> RAND_MAX \<Longrightarrow> boll r \<le> 1"
proof -
  assume "r \<le> RAND_MAX"
  then have "2 * r + RAND_MAX < 2 * (2 * RAND_MAX)" by (simp add: RAND_MAX_def)
  then have "boll r < 2" unfolding boll_def by (simp add: div_less_iff_less_mult RAND_MAX_def)
  then show ?thesis by simp
qed

lemma sleep_secs_le: "r \<le> RAND_MAX \<Longrightarrow> sleep_secs r \<le> MAX_SLEEP"
proof -
  assume "r \<le> RAND_MAX"
  then have "sleep_secs r \<le> RAND_MAX * MAX_SLEEP div RAND_MAX"
    unfolding sleep_secs_def by (intro div_le_mono mult_right_mono) auto
  also have "\<dots> = MAX_SLEEP" by (simp add: RAND_MAX_def)
  finally show ?thesis .
qed

text \<open>Of the two processes that come out of one call exactly one sleeps, at most \<open>MAX_SLEEP\<close>.\<close>

lemma Fork_one_sleeps:
  assumes "r2 \<le> RAND_MAX" and "fork k s = (0, s1)" and "fork k' s' = (p, s1')" and "0 < p"
  shows "\<exists>t \<le> MAX_SLEEP. (fst (snd (Fork r1 r2 k s)), fst (snd (Fork r1 r2 k' s'))) \<in> {(Some t, None), (None, Some t)}"
  using assms sleep_secs_le [OF assms(1)] by (auto simp: Fork_def)

text \<open>
  \<open>kill.c\<close>: the child waits for a signal (\<open>None\<close>); the parent names the process to kill.
\<close>

definition kill_main :: "'w kernel \<Rightarrow> 'w proc \<Rightarrow> int option" where
  "kill_main k s = (let (pid, s1) = fork k s in if pid = 0 then None else Some pid)"

text \<open>A failed \<open>fork\<close> makes the target \<open>-1\<close>, which stands for every process of the user.\<close>

lemma kill_main_all: "syscall (k_fork k) s = (None, s1) \<Longrightarrow> kill_main k s = Some (- 1)"
  by (simp add: kill_main_def fork_def)

text \<open>
  \<open>waitpid2.c\<close>, unfinished: the child has nothing to do and stays in the loop.  The number
  of processes that come out of a loop of \<open>n\<close> rounds when every \<open>fork\<close> succeeds.
\<close>

fun waitpid2_processes :: "nat \<Rightarrow> nat" where
  "waitpid2_processes 0 = 1"
| "waitpid2_processes (Suc n) = (let child = waitpid2_processes n; parent = waitpid2_processes n in child + parent)"

lemma waitpid2_power: "waitpid2_processes n = 2 ^ n"
  by (induction n) (simp_all add: Let_def)

section \<open>Loading a library\<close>

text \<open>
  \<open>dll.c\<close>: the dynamic loader is a parameter.  The loaded function has the type of \<open>addvec\<close>;
  the result is the memory after the call.
\<close>

type_synonym vector_fun = "int \<Rightarrow> int \<Rightarrow> int \<Rightarrow> int \<Rightarrow> memory \<Rightarrow> memory outcome"

definition dll_main :: "(string \<Rightarrow> 'h option) \<Rightarrow> ('h \<Rightarrow> string \<Rightarrow> vector_fun option) \<Rightarrow> ('h \<Rightarrow> int) \<Rightarrow> memory outcome" where
  "dll_main dlopen dlsym dlclose = (case dlopen ''./libvector.so'' of
     None \<Rightarrow> Exit 1
   | Some handle \<Rightarrow> (case dlsym handle ''addvec'' of
       None \<Rightarrow> Exit 1
     | Some f \<Rightarrow> (case f 0 2 4 2 main2_mem of
         Ret m \<Rightarrow> if dlclose handle < 0 then Exit 1 else Ret m
       | Exit c \<Rightarrow> Exit c
       | Fault e \<Rightarrow> Fault e)))"

text \<open>With the library of this directory it does what the statically linked program does.\<close>

lemma dll_main_main2:
  "dlopen ''./libvector.so'' = Some h \<Longrightarrow> dlsym h ''addvec'' = Some addvec \<Longrightarrow> 0 \<le> dlclose h \<Longrightarrow>
    dll_main dlopen dlsym dlclose = main2"
  by (simp add: dll_main_def main2_def split: outcome.split)

section \<open>Properties\<close>

text \<open>
  C32: \<open>addvec\<close> and \<open>multvec\<close> on overlapping vectors.  Unless a result overwrites a source
  element that is still to be read, the functions store the pointwise results of the
  original contents at \<open>z\<close> and change nothing else, provided every result fits an \<open>int\<close>;
  if one does not, the arithmetic overflows.  Vectors without overlap and results stored
  over one of the sources are covered.
\<close>

theorem vector_pointwise:
  assumes "no_clobber x y z n" and "f = (+) \<and> F = addvec \<or> f = (*) \<and> F = multvec"
  shows "F x y z n m =
    (if \<forall>i \<in> {0 ..< n}. int_range (f (m (x + i)) (m (y + i)))
     then Ret (\<lambda>a. if z \<le> a \<and> a < z + n then f (m (x + (a - z))) (m (y + (a - z))) else m a)
     else Fault SignedOverflow)"
proof -
  have F: "F x y z n m = vec_loop f x y z n 0 m" using assms(2) by (auto simp: addvec_def multvec_def)
  show ?thesis
  proof (cases "\<forall>i \<in> {0 ..< n}. int_range (f (m (x + i)) (m (y + i)))")
    case True
    then show ?thesis unfolding F using vec_loop_pointwise [OF assms(1), of 0 m m f] by simp
  next
    case False
    then obtain l where "0 \<le> l" "l < n" "\<not> int_range (f (m (x + l)) (m (y + l)))" by auto
    with vec_loop_overflow [OF assms(1), of 0 l m m f] False F show ?thesis by simp
  qed
qed

theorem vector_pointwise_witness:
  "main2 = Ret (\<lambda>a. if 4 \<le> a \<and> a < 6 then main2_mem (0 + (a - 4)) + main2_mem (2 + (a - 4)) else main2_mem a)
    \<and> addvec 0 2 0 2 (main2_mem(0 := 2 ^ 31 - 1)) = Fault SignedOverflow"
proof -
  have c: "no_clobber 0 2 4 2" "no_clobber 0 2 0 2" by (auto simp: no_clobber_def)
  have "\<forall>i \<in> {0 ..< 2}. int_range (main2_mem (0 + i) + main2_mem (2 + i))"
    by (auto simp: int_range_def main2_mem_def)
  moreover have "\<not> (\<forall>i \<in> {0 ..< 2}. int_range ((main2_mem(0 := 2 ^ 31 - 1)) (0 + i) + (main2_mem(0 := 2 ^ 31 - 1)) (2 + i)))"
    by (intro notI, drule bspec [of _ _ 0]) (simp_all add: int_range_def main2_mem_def)
  ultimately show ?thesis
    unfolding main2_def using vector_pointwise [OF c(1), of "(+)" addvec main2_mem]
      vector_pointwise [OF c(2), of "(+)" addvec "main2_mem(0 := 2 ^ 31 - 1)"] by (simp only: if_P if_not_P) simp
qed

end
