(* ===== verification/Spec2Isabelle.thy ===== *)
theory Spec2Isabelle
  imports Hot_Upgrade Objects Echo_Client Sbuf Pool_Server Shell Signals Fragments
begin

text \<open>
  Verification of the C++ programs of the repository.

  \<^bold>\<open>The programs.\<close>  \<open>hot_upgrade_demo\<close> is a TCP echo server that can be replaced while it
  runs: the old process passes its listening socket and then each idle session socket to
  the new process over a Unix-domain socket.  \<open>csapp\<close> holds the programs written along a
  systems course: the robust I/O package, four line-echo servers and their client built on
  it, the bounded buffer shared by threads, a shell, and short programs on signals,
  processes, files and linking.

  \<^bold>\<open>Theories.\<close>
  \<^item> \<open>Prelude\<close>: C types, arrays, little-endian integers, decimal printing, outcomes and runs,
    blocks of memory, and the locale \<open>simulation\<close> between two step relations.
  \<^item> \<open>Kernel\<close>: the system calls as a record of functions over an unspecified world, the
    C library's \<open>errno\<close>, and locales with the laws of the calls.
  \<^item> \<open>Sim_Kernel\<close>: an executable kernel with queues and a schedule of interruptions and
    transfer sizes; it interprets every locale of \<open>Kernel\<close> and runs the witnesses.
  \<^item> \<open>Inet_Conn\<close> (\<open>inet_conn.cc\<close>): the framed connection.  \<open>GetRequest\<close> and \<open>SendReply\<close> are
    incremental; the theorems say that no byte is lost, that frames and replies are
    delivered for every schedule, and which length fields break the bound check.
  \<^item> \<open>Inet_Socket\<close> (\<open>inet_socket.cc\<close>), \<open>Unix_Socket\<close> (\<open>unix_socket.cc\<close>): creating, binding,
    accepting and connecting sockets with every error path; passing a descriptor.
  \<^item> \<open>Unix_Client\<close> (\<open>unix_client.cc\<close>), \<open>Unix_Conn\<close> (\<open>unix_conn.cc\<close>): the two sides of the
    hand-over protocol; termination, the round trip, and the effect of short sends.
  \<^item> \<open>Epoll\<close> (\<open>epoll.cc\<close>): the event multiplexer and the table of connections.
  \<^item> \<open>Server\<close> (\<open>server.cc\<close>): the handlers and the main loop, also as a step relation
    (\<open>server_step\<close>) with the reachable configurations; invariants of the connection table
    and of the phases of a session, the condition of a hand-over, termination of an
    iteration, the faults that can occur, and the reuse of a stale descriptor number.
  \<^item> \<open>Service\<close>: what the server promises each client.  \<open>echo_step\<close> is an abstract echo service
    on two byte streams; \<open>view\<close> abstracts a session to it.  In the locale \<open>session_kernel\<close> every
    run of the server refines it for each session (\<open>step_refines\<close>, \<open>run_refines\<close>), and in
    \<open>calm_session\<close> a session that gets its events is served (\<open>drive_serves\<close>).
  \<^item> \<open>Objects\<close> (\<open>server.cc\<close>, the constructor and destructor of \<open>unix_conn.cc\<close>): the server once more, with its
    connection objects on a heap, pointers in the table and in \<open>unix_conn\<close>, \<open>new\<close> and \<open>delete\<close>
    as operations, and access to deleted memory as a fault.  Its handlers compute what those
    on values compute (\<open>dispatch_same\<close>), the two servers reach the same states, no pointer
    dangles, an inet server loses no session object, and a second predecessor makes the
    server lose the first one's \<open>UnixConn\<close>.
  \<^item> \<open>Hot_Upgrade\<close>: the hand-over of the listener and of a session between two server
    processes, each over its own kernel.  The locale \<open>receiving_kernel\<close> carries the receiving
    side; the theorems join the old server's run, the message and the new server's events:
    one stream of answers for a client whose session moves; the old server's listener is
    deregistered and closed, and the next client is served by the new one.
  \<^item> \<open>Echo_Client\<close> (\<open>client.cc\<close>): the load client, its exchange with a server, and its
    endless loop at the end of the stream.
  \<^item> \<open>Rio\<close> (\<open>csapp/system_io/rio.cc\<close>): robust reading and writing.  The locale \<open>byte_source\<close>
    carries the proofs for the kernel's \<open>read\<close> and for the buffered reader, and what an error
    result says about the last \<open>read\<close>.
  \<^item> \<open>Sbuf\<close> (\<open>csapp/concurrent_program/sbuf.c\<close>): the bounded buffer, run alone (locale
    \<open>bounded_fifo\<close>) and interleaved by threads (\<open>sbuf_step\<close>): order, mutual exclusion, progress, and a
    simulation of an atomic queue (\<open>queue_step\<close>), which makes the operations linearizable.
  \<^item> \<open>Echo_Servers\<close> (\<open>csapp/network_program/server.cc\<close>, \<open>client.cc\<close>,
    \<open>csapp/concurrent_program/echo_serverp.cc\<close>, \<open>select.cc\<close>): the iterative server, the one
    with a process per client and the one that watches its terminal, with the client.  The
    echo is exact, a session brings the typed text back, the forked child serves and ends,
    the \<open>SIGCHLD\<close> handler returns with nothing left to reap, and the terminal-watching
    server stops accepting.
  \<^item> \<open>Pool_Server\<close> (\<open>csapp/concurrent_program/echoservers.cc\<close>): the event-driven server; the
    invariant of its pool in every reachable state (\<open>pool_reachable\<close>), the scan with early exit
    against the scan of all slots, the bounds of the descriptor sets, the lost read-ahead.
  \<^item> \<open>Shell\<close> (\<open>csapp/exceptional_control_flow/shellex.c\<close>): parsing against a reference
    definition by words, and the evaluation of a command, with the lines and the argument
    vectors that overflow their arrays.
  \<^item> \<open>Signals\<close> (\<open>signal1.c\<close> to \<open>signal4.c\<close>, \<open>procmask1.c\<close>, \<open>procmask2.c\<close>, \<open>waitpid1.cc\<close>): step
    relations for programs with asynchronous handlers.  A handler that reaps is a machine with a
    position: each call of \<open>waitpid\<close> (\<open>waitpid_any\<close>), each test of its result and the return
    are steps, between which children end.  The locale \<open>reaping_handler\<close> carries
    the proof that no child is lost, \<open>job_list\<close> the laws of the list of jobs.
  \<^item> \<open>Fragments\<close> (\<open>csapp/link\<close>, \<open>cpstdin.c\<close>, \<open>statcheck.c\<close>, \<open>setjmp.c\<close>, \<open>alarm.c\<close>, \<open>hostinfo.c\<close>,
    \<open>rfork.c\<close>, \<open>kill.c\<close>, \<open>waitpid2.c\<close>, \<open>dup2.cc\<close>, \<open>sigint1.c\<close>): the short programs.
  \<^item> this theory: the exchange between the load client and a server connection, and between
    the load client and the running server.

  \<^bold>\<open>How code becomes definitions.\<close>  A class is a record (trailing underscores of members
  dropped), an enum a datatype, a method a function that takes the kernel, the object and
  the process state and returns the results with the new object and state.  Early returns,
  \<open>exit\<close>, assertions and undefined behaviour are values (\<open>outcome\<close>); loops that the kernel
  can keep from ending are partial functions into \<open>option\<close>, and theorems that they return
  are stated and proved.  \<open>size_t\<close> and \<open>int\<close> fields are words where the arithmetic can
  wrap.  Printing is not modelled.

  \<^bold>\<open>Hypotheses.\<close>  A theorem about the program over an arbitrary kernel assumes a locale
  predicate: streams deliver bytes in order and transfer at most what was asked
  (\<open>read_kernel\<close>, \<open>write_kernel\<close>), transient errors are finite in number (\<open>patience\<close>), no
  signals or resets occur (\<open>calm\<close>), descriptors travel with the first byte of their message
  (\<open>passing_kernel\<close>), registrations change only by \<open>epoll_ctl\<close> (\<open>epoll_kernel\<close>),
  streams are only interrupted and otherwise deliver (\<open>steady_stream\<close>, \<open>terminal_stream\<close>,
  \<open>closing_stream\<close>), \<open>select\<close> reports a subset of what it is given (\<open>select_kernel\<close>), new
  descriptors are not open yet (\<open>fd_kernel\<close>), deregistering fails only for what is not
  registered (\<open>detaching_kernel\<close>), \<open>waitpid\<close> reaps children one by one
  (\<open>wait_kernel\<close>), calls on one descriptor leave the others alone (\<open>session_kernel\<close>), and
  what arrives in a message is a descriptor for the connection that was sent
  (\<open>receiving_kernel\<close> and the last hypotheses of the theorems on the upgrade).  The simulated
  kernels interpret each of them.

  \<^bold>\<open>Bounds.\<close>  \<open>pump n\<close> and \<open>push n\<close> call the connection at most \<open>n + 1\<close> times; the bytes and
  transient errors still to come are enough.  \<open>drive n\<close> dispatches \<open>n\<close> events of one session,
  each of a kind the session is registered for; the theorems that use it give some \<open>n\<close>.
  The refinement is about servers started with a file name: a server started with \<open>-u\<close> can
  confuse a session with its former Unix-domain connection, which is a theorem of \<open>Server\<close>.
  \<open>main_loop\<close> and \<open>client_rounds\<close> cut an endless
  loop after a number of iterations and assert nothing about the cut; so do the loops of
  the echo servers (\<open>serve_clients\<close>, \<open>fork_clients\<close>, \<open>select_rounds\<close>, \<open>pool_rounds\<close>).

  \<^bold>\<open>Not modelled.\<close>  The files of exercise notes (\<open>*_practice.cc\<close>, \<open>link.cc\<close>,
  \<open>exceptional_control_flow.cc\<close>) are comments without code, and most of \<open>csapp.h\<close> is
  declarations of functions that are defined nowhere in the repository.  Copies of a function
  in several files (\<open>echo\<close>, \<open>open_listenfd\<close>, the handlers of \<open>signal3.c\<close> and \<open>signal4.c\<close>) are
  modelled once.  The heap is unbounded: \<open>new\<close> and \<open>malloc\<close> succeed.  The \<open>UnixClient\<close> is a
  value in both models of the server, since it is created at most once and never deleted.
  Time is not modelled: \<open>sleep\<close> has no effect, and in the asynchronous programs every interleaving is allowed.
\<close>

section \<open>An exchange from end to end\<close>

text \<open>
  the whole echo.  Let the load client send its request on \<open>fd\<close> and let a fresh server
  connection receive exactly the bytes the client sent.  Then, whatever the schedules on
  both sides, the server's calls of \<open>GetRequest\<close> end with \<open>kReadAll\<close> and the client's
  message, its calls of \<open>SendReply\<close> end with \<open>kWriteAll\<close> and have sent exactly the message
  back, and a client to whom these bytes arrive leaves its reading loop with the message in
  its buffer.
\<close>

theorem echo_round_trip:
  assumes "calm_stream kc inc outc patc calmc" and "calmc (world sc)" and "outc fd (world sc) = []"
    and "write_loop kc fd (request_buf junk) 0 11 sc = Some (Ret sc1)"
    and "calm_stream ks ins outs pats calms" and "calms (world ss)"
    and "c = new_InetConn buf0 sfd ip" and "outs sfd (world ss) = []"
    and "ins sfd (world ss) = outc fd (world sc1)"
    and "pats (world ss) + 11 \<le> n"
  shows "\<exists>c1 ss1. pump n ks c ss = Ret (kReadAll, c1, ss1) \<and> reply c1 = message
    \<and> (\<forall>m. pats (world ss1) + 7 \<le> m \<longrightarrow>
        (\<exists>c2 ss2. push m ks c1 ss1 = (kWriteAll, c2, ss2) \<and> outs sfd (world ss2) = message
          \<and> reply c2 = []
          \<and> (\<forall>sc2 rbuf. calmc (world sc2) \<and> inc fd (world sc2) = outs sfd (world ss2) \<longrightarrow>
               (\<exists>rbuf' pos sc3. read_loop kc fd rbuf 0 7 sc2 = Some (Ret (rbuf', pos, sc3))
                 \<and> load rbuf' 0 7 = message))))"
proof -
  have sent: "ins sfd (world ss) = frame message"
    using calm_stream.write_loop_sends [OF assms(1,2), of 0 11 fd "request_buf junk"] assms(3,4,9)
      load_request_buf [of junk] by auto
  have cn: "conn_inv c" "received c = []" "conn_fd c = sfd" "last_write_pos c = 0"
    by (simp_all add: assms(7)) (simp add: new_InetConn_def)
  have ks: "calm_kernel ks ins pats calms" by (rule calm_stream.axioms(2) [OF assms(5)])
  have ne: "message \<noteq> []" by (simp add: message_def)
  from calm_kernel.pump_delivers [OF ks assms(6) cn(1), of message "[]" n] ne cn sent assms(10)
  obtain c1 ss1 where p: "pump n ks c ss = Ret (kReadAll, c1, ss1)" "reply c1 = message"
      "conn_fd c1 = sfd" "last_write_pos c1 = 0"
    by auto
  note F = calm_stream.pump_frames [OF assms(5) p(1) assms(6), of sfd]
  have u: "unsent c1 = message" "reply_inv c1" using p by (simp_all add: unsent_def reply_inv_def)
  have reply: "\<exists>c2 ss2. push m ks c1 ss1 = (kWriteAll, c2, ss2) \<and> outs sfd (world ss2) = message \<and> reply c2 = []"
    if "pats (world ss1) + 7 \<le> m" for m
    using calm_stream.push_delivers [OF assms(5), of ss1 c1 m] F u p(3) that assms(8) by auto
  with p calm_stream.read_loop_message [OF assms(1)] show ?thesis by metis
qed

theorem echo_round_trip_witness:
  "\<exists>sc1 c1 ss1. write_loop sim_kernel 5 (request_buf (\<lambda>_. 0)) 0 11
       \<lparr>errno = EINTR, world = quiet\<lparr>schedule := [Chunk 3, Again]\<rparr>\<rparr> = Some (Ret sc1)
    \<and> pump 20 sim_kernel (new_InetConn (\<lambda>_. 0) 6 ''peer'')
       \<lparr>errno = EINTR, world = quiet\<lparr>inq := (\<lambda>_. []) (6 := sim_outgoing 5 (world sc1)), schedule := [Chunk 0, Again]\<rparr>\<rparr>
       = Ret (kReadAll, c1, ss1) \<and> reply c1 = message"
proof -
  let ?sc = "\<lparr>errno = EINTR, world = quiet\<lparr>schedule := [Chunk 3, Again]\<rparr>\<rparr>"
  have calm: "sim_calm (world ?sc)" by (simp add: sim_calm_def)
  obtain sc1 where w: "write_loop sim_kernel 5 (request_buf (\<lambda>_. 0)) 0 11 ?sc = Some (Ret sc1)"
    using calm_stream.write_loop_sends [OF sim_calm_k.calm_stream_axioms calm, of 0 11 5 "request_buf (\<lambda>_. 0)"]
    by auto
  let ?ss = "\<lparr>errno = EINTR, world = quiet\<lparr>inq := (\<lambda>_. []) (6 := sim_outgoing 5 (world sc1)), schedule := [Chunk 0, Again]\<rparr>\<rparr>"
  have "\<exists>c1 ss1. pump 20 sim_kernel (new_InetConn (\<lambda>_. 0) 6 ''peer'') ?ss = Ret (kReadAll, c1, ss1)
    \<and> reply c1 = message
    \<and> (\<forall>m. sim_patience (world ss1) + 7 \<le> m \<longrightarrow>
        (\<exists>c2 ss2. push m sim_kernel c1 ss1 = (kWriteAll, c2, ss2) \<and> sim_outgoing 6 (world ss2) = message
          \<and> reply c2 = []
          \<and> (\<forall>sc2 rbuf. sim_calm (world sc2) \<and> sim_incoming 5 (world sc2) = sim_outgoing 6 (world ss2) \<longrightarrow>
               (\<exists>rbuf' pos sc3. read_loop sim_kernel 5 rbuf 0 7 sc2 = Some (Ret (rbuf', pos, sc3))
                 \<and> load rbuf' 0 7 = message))))"
    by (rule echo_round_trip [OF sim_calm_k.calm_stream_axioms calm _ w sim_calm_k.calm_stream_axioms])
      (simp_all add: sim_calm_def sim_obs quiet_def)
  with w show ?thesis by blast
qed

text \<open>
  C9: the load client and the running server.  Take any reachable state of an inet server
  without a successor and a session of it that waits for a request, and let the load client
  send its request on its end of the connection.  If exactly the bytes the client sent
  arrive at the session, then after a number of events of the session the server has sent
  exactly the message back, whatever else it serves and however the transfers are split,
  and the session waits for the next request; a client to whom these bytes arrive leaves
  its reading loop with the message in its buffer.
\<close>

theorem load_client_served:
  assumes client: "calm_stream kc inc outc patc calmc" "calmc (world sc)"
      "write_loop kc fd (request_buf junk) 0 11 sc = Some (Ret sc1)"
    and server: "calm_session k incoming outgoing patience interest live calm"
      "reachable k ev argv s0 path (ns, sv, s)" "path \<noteq> ''-u''" "unix_client sv = None" "calm (world s)"
      "inet_conn_map (sv_ep sv) sfd = Some c" "received c = []" "reply c = []"
      "ready_to_read (interest (epfd (sv_ep sv)) sfd (world s))"
    and link: "outc fd (world sc1) = outc fd (world sc) @ incoming sfd (world s)"
  shows "\<exists>n sv' s' c'. drive n interest k sfd sv s = Some (Ret (sv', s'))
    \<and> outgoing sfd (world s') = outgoing sfd (world s) @ message
    \<and> inet_conn_map (sv_ep sv') sfd = Some c' \<and> received c' = [] \<and> reply c' = []
    \<and> ready_to_read (interest (epfd (sv_ep sv')) sfd (world s'))
    \<and> (\<forall>sc2 rbuf. calmc (world sc2) \<and> inc fd (world sc2) = message \<longrightarrow>
         (\<exists>rbuf' pos sc3. read_loop kc fd rbuf 0 7 sc2 = Some (Ret (rbuf', pos, sc3)) \<and> load rbuf' 0 7 = message))"
proof -
  have "outc fd (world sc1) = outc fd (world sc) @ frame message"
    using calm_stream.write_loop_sends [OF client(1,2), of 0 11 fd "request_buf junk"] client(3) load_request_buf [of junk]
    by auto
  with link server(7) have i: "received c @ incoming sfd (world s) = concat (map frame [message]) @ []" by simp
  note S = calm_session.reachable_session [OF server(1-6)]
  have "\<forall>m \<in> set [message]. acceptable m" by (simp add: acceptable_def message_def)
  from calm_session.drive_serves [OF server(1) S server(8,9) i this] obtain n sv' s' c' where
    "drive n interest k sfd sv s = Some (Ret (sv', s'))" "outgoing sfd (world s') = outgoing sfd (world s) @ message"
    "inet_conn_map (sv_ep sv') sfd = Some c'" "received c' = []" "reply c' = []"
    "ready_to_read (interest (epfd (sv_ep sv')) sfd (world s'))" by auto
  with calm_stream.read_loop_message [OF client(1)] show ?thesis by blast
qed

theorem load_client_served_witness:
  "\<exists>sc1 sv s n sv' s'. write_loop sim_kernel 5 (request_buf (\<lambda>_. 0)) 0 11
       \<lparr>errno = EINTR, world = quiet\<lparr>schedule := [Chunk 3, Again]\<rparr>\<rparr> = Some (Ret sc1)
    \<and> reachable sim_fd_kernel [] [''x''] (ready_proc (sim_outgoing 5 (world sc1))) ''x'' ([], sv, s)
    \<and> drive n sim_interest sim_fd_kernel 7 sv s = Some (Ret (sv', s')) \<and> sim_outgoing 7 (world s') = message"
proof -
  let ?sc = "\<lparr>errno = EINTR, world = quiet\<lparr>schedule := [Chunk 3, Again]\<rparr>\<rparr>"
  have calm: "sim_calm (world ?sc)" by (simp add: sim_calm_def)
  obtain sc1 where w: "write_loop sim_kernel 5 (request_buf (\<lambda>_. 0)) 0 11 ?sc = Some (Ret sc1)"
    using calm_stream.write_loop_sends [OF sim_calm_k.calm_stream_axioms calm, of 0 11 5 "request_buf (\<lambda>_. 0)"]
    by auto
  obtain sv s junk where r: "reachable sim_fd_kernel [] [''x''] (ready_proc (sim_outgoing 5 (world sc1))) ''x'' ([], sv, s)"
    "inet_conn_map (sv_ep sv) 7 = Some (new_InetConn junk 7 (peer_name (SockIn 0 0)))" "unix_client sv = None"
    "world s = (world (ready_proc (sim_outgoing 5 (world sc1))))\<lparr>ready := [[(EPOLLIN, 7)]], backlog := [], next_fd := 5,
       open_fds := [7, 4], registered := [(7, EPOLLIN OR EPOLLET), (4, EPOLLIN)]\<rparr>"
    by (rule ready_demo)
  have n: "received (new_InetConn junk 7 (peer_name (SockIn 0 0))) = []" "reply (new_InetConn junk 7 (peer_name (SockIn 0 0))) = []"
    by simp_all (simp add: new_InetConn_def)
  have c: "sim_calm (world s)" "ready_to_read (sim_interest (epfd (sv_ep sv)) 7 (world s))"
      "sim_outgoing 5 (world sc1) = sim_outgoing 5 (world ?sc) @ sim_incoming 7 (world s)" "sim_outgoing 7 (world s) = []"
    by (simp_all add: r(4) ready_proc_def sim_calm_def sim_interest_def ready_to_read_def sim_obs quiet_def)
  from load_client_served [OF sim_calm_k.calm_stream_axioms calm w sim_session.calm_session_axioms r(1) _ r(3) c(1) r(2)
      n c(2,3)] c(4)
  obtain n sv' s' where "drive n sim_interest sim_fd_kernel 7 sv s = Some (Ret (sv', s'))" "sim_outgoing 7 (world s') = message"
    by auto
  with w r(1) show ?thesis by blast
qed

end
